theory Spec2Isabelle
  imports Main "HOL-Library.Multiset"
begin

section \<open>TimSort with a three-way comparator: the embedding\<close>

text \<open>
  The engine is the closure \<open>timsort\<close> of the TypeScript source. Its functions are
  embedded one by one, with the source's names. The conventions:
  \<^item> an array is a list; a read past the end yields JavaScript's \<open>undefined\<close>, which is
    the parameter \<open>u\<close> of every function, and a write past the end extends the array
    (the holes read as \<open>u\<close>);
  \<^item> the comparator is a function to \<open>int\<close> (the sign is all the code looks at); the
    \<open>typeof compare != "function"\<close> guard of \<open>sort\<close> is excluded by this type;
  \<^item> every \<open>await compare(x, y)\<close> appends an event to a trace, tagged with the
    function that issued it, so that the order and the number of comparator calls are
    part of the result; reversals, pushes on the run stack, launches of \<open>mergeAt\<close> and
    the updates of \<open>minGallop\<close> (with its value before and after) are recorded in the
    same trace;
  \<^item> \<open>>>> 1\<close> and \<open><< 1\<close> are the 32-bit operations of JavaScript, with the
    wrap-around written out;
  \<^item> a loop whose termination depends on the absence of wrap-around is a
    \<^theory_text>\<open>partial_function\<close> in the option monad: \<open>None\<close> is a call that never returns;
  \<^item> a thrown \<open>Error\<close> is the left summand of the result.
\<close>

subsection \<open>Arrays\<close>

definition aget :: "'a \<Rightarrow> 'a list \<Rightarrow> nat \<Rightarrow> 'a" where
  "aget u a i = (if i < length a then a ! i else u)"

definition aset :: "'a \<Rightarrow> 'a list \<Rightarrow> nat \<Rightarrow> 'a \<Rightarrow> 'a list" where
  "aset u a i v =
     (if i < length a then a[i := v] else a @ replicate (i - length a) u @ [v])"

text \<open>\<open>s.slice(b, e)\<close> for \<open>0 \<le> b\<close>: the end is clamped to the length.\<close>

definition slice :: "'a list \<Rightarrow> nat \<Rightarrow> nat \<Rightarrow> 'a list" where
  "slice s b e = take (e - b) (drop b s)"

text \<open>The loop \<open>while (len--) d[dpos + len] = a[len]\<close> of \<open>arraycopy\<close>.\<close>

fun copy_down :: "'a \<Rightarrow> 'a list \<Rightarrow> 'a list \<Rightarrow> nat \<Rightarrow> nat \<Rightarrow> 'a list" where
  "copy_down u t d dpos 0 = d"
| "copy_down u t d dpos (Suc len) =
     copy_down u t (aset u d (dpos + len) (aget u t len)) dpos len"

definition arraycopy :: "'a \<Rightarrow> 'a list \<Rightarrow> nat \<Rightarrow> 'a list \<Rightarrow> nat \<Rightarrow> nat \<Rightarrow> 'a list" where
  "arraycopy u s spos d dpos len = copy_down u (slice s spos (spos + len)) d dpos len"

subsection \<open>32-bit operations\<close>

text \<open>\<open>x >>> 1\<close> on a non-negative integer: \<open>ToUint32\<close>, then a shift.\<close>

definition ushr1 :: "nat \<Rightarrow> nat" where
  "ushr1 x = (x mod 2 ^ 32) div 2"

subsection \<open>Events and errors\<close>

datatype site = RunDetection | BinaryInsertion | Galloping | Merging

datatype 'a event =
    Compare site 'a 'a
  | Reverse nat nat
  | PushRun nat nat
  | MergeAt nat
  | GallopIteration int int
  | GallopExit int int

datatype error = IllegalArgument | ArrayIndexOutOfBounds | ComparatorContractViolation

type_synonym 'a comparator = "'a \<Rightarrow> 'a \<Rightarrow> int"

subsection \<open>\<open>rangeCheck\<close>\<close>

definition rangeCheck :: "nat \<Rightarrow> nat \<Rightarrow> nat \<Rightarrow> error option" where
  "rangeCheck arrayLen fromIndex toIndex =
     (if fromIndex > toIndex then Some IllegalArgument
      else if toIndex > arrayLen then Some ArrayIndexOutOfBounds
      else None)"

subsection \<open>\<open>reverseRange\<close>\<close>

function reverse_loop :: "'a \<Rightarrow> 'a list \<Rightarrow> nat \<Rightarrow> nat \<Rightarrow> 'a list" where
  "reverse_loop u a lo hi =
     (if lo < hi then
        (let t = aget u a lo;
             a1 = aset u a lo (aget u a hi);
             a2 = aset u a1 hi t
         in reverse_loop u a2 (lo + 1) (hi - 1))
      else a)"
  by pat_completeness auto
termination
  by (relation "measure (\<lambda>(u, a, lo, hi). hi - lo)") auto

declare reverse_loop.simps [simp del]

definition reverseRange :: "'a \<Rightarrow> 'a list \<Rightarrow> nat \<Rightarrow> nat \<Rightarrow> 'a list" where
  "reverseRange u a lo hi = reverse_loop u a lo (hi - 1)"

subsection \<open>\<open>countRunAndMakeAscending\<close>\<close>

function descending_loop ::
  "'a \<Rightarrow> 'a comparator \<Rightarrow> 'a list \<Rightarrow> nat \<Rightarrow> nat \<Rightarrow> 'a event list \<Rightarrow> nat \<times> 'a event list" where
  "descending_loop u cmp a hi runHi tr =
     (if runHi < hi then
        (let x = aget u a runHi; y = aget u a (runHi - 1);
             tr1 = tr @ [Compare RunDetection x y]
         in if cmp x y < 0 then descending_loop u cmp a hi (runHi + 1) tr1
            else (runHi, tr1))
      else (runHi, tr))"
  by pat_completeness auto
termination
  by (relation "measure (\<lambda>(u, cmp, a, hi, runHi, tr). hi - runHi)") auto

declare descending_loop.simps [simp del]

function ascending_loop ::
  "'a \<Rightarrow> 'a comparator \<Rightarrow> 'a list \<Rightarrow> nat \<Rightarrow> nat \<Rightarrow> 'a event list \<Rightarrow> nat \<times> 'a event list" where
  "ascending_loop u cmp a hi runHi tr =
     (if runHi < hi then
        (let x = aget u a runHi; y = aget u a (runHi - 1);
             tr1 = tr @ [Compare RunDetection x y]
         in if cmp x y \<ge> 0 then ascending_loop u cmp a hi (runHi + 1) tr1
            else (runHi, tr1))
      else (runHi, tr))"
  by pat_completeness auto
termination
  by (relation "measure (\<lambda>(u, cmp, a, hi, runHi, tr). hi - runHi)") auto

declare ascending_loop.simps [simp del]

definition countRunAndMakeAscending ::
  "'a \<Rightarrow> 'a comparator \<Rightarrow> 'a list \<Rightarrow> nat \<Rightarrow> nat \<Rightarrow> 'a event list
     \<Rightarrow> 'a list \<times> nat \<times> 'a event list" where
  "countRunAndMakeAscending u cmp a lo hi tr =
     (let runHi = lo + 1 in
      if runHi = hi then (a, 1, tr)
      else
        (let x = aget u a runHi; y = aget u a lo;
             tr1 = tr @ [Compare RunDetection x y];
             runHi = runHi + 1
         in if cmp x y < 0 then
              (let (runHi, tr2) = descending_loop u cmp a hi runHi tr1
               in (reverseRange u a lo runHi, runHi - lo, tr2 @ [Reverse lo runHi]))
            else
              (let (runHi, tr2) = ascending_loop u cmp a hi runHi tr1
               in (a, runHi - lo, tr2))))"

subsection \<open>\<open>binarySort\<close>\<close>

text \<open>
  The binary search of \<open>binarySort\<close>. With \<open>left + right\<close> at or above \<open>2^32\<close> the
  midpoint wraps and may fall below \<open>left\<close>, so the loop is not total.
\<close>

partial_function (option) binary_search ::
  "'a \<Rightarrow> 'a comparator \<Rightarrow> 'a \<Rightarrow> 'a list \<Rightarrow> nat \<Rightarrow> nat \<Rightarrow> 'a event list
     \<Rightarrow> (nat \<times> 'a event list) option" where
  "binary_search u cmp pivot a left right tr =
     (if left < right then
        (let mid = ushr1 (left + right);
             y = aget u a mid;
             comparison = cmp pivot y;
             tr1 = tr @ [Compare BinaryInsertion pivot y]
         in if comparison < 0 then binary_search u cmp pivot a left mid tr1
            else binary_search u cmp pivot a (mid + 1) right tr1)
      else Some (left, tr))"

declare binary_search.simps [code]

text \<open>The \<open>switch (n)\<close> that slides the elements to make room for the pivot.\<close>

definition slide :: "'a \<Rightarrow> 'a list \<Rightarrow> nat \<Rightarrow> nat \<Rightarrow> 'a list" where
  "slide u a left n =
     (if n = 2 then
        (let a1 = aset u a (left + 2) (aget u a (left + 1))
         in aset u a1 (left + 1) (aget u a1 left))
      else if n = 1 then aset u a (left + 1) (aget u a left)
      else arraycopy u a left a (left + 1) n)"

function binarySort_loop ::
  "'a \<Rightarrow> 'a comparator \<Rightarrow> 'a list \<Rightarrow> nat \<Rightarrow> nat \<Rightarrow> nat \<Rightarrow> 'a event list
     \<Rightarrow> ('a list \<times> 'a event list) option" where
  "binarySort_loop u cmp a lo hi start tr =
     (if start < hi then
        (let pivot = aget u a start in
         case binary_search u cmp pivot a lo start tr of
           None \<Rightarrow> None
         | Some (left, tr1) \<Rightarrow>
             (let n = start - left;
                  a1 = slide u a left n;
                  a2 = aset u a1 left pivot
              in binarySort_loop u cmp a2 lo hi (start + 1) tr1))
      else Some (a, tr))"
  by pat_completeness auto
termination
  by (relation "measure (\<lambda>(u, cmp, a, lo, hi, start, tr). hi - start)") auto

declare binarySort_loop.simps [simp del]

definition binarySort ::
  "'a \<Rightarrow> 'a comparator \<Rightarrow> 'a list \<Rightarrow> nat \<Rightarrow> nat \<Rightarrow> nat \<Rightarrow> 'a event list
     \<Rightarrow> ('a list \<times> 'a event list) option" where
  "binarySort u cmp a lo hi start tr =
     binarySort_loop u cmp a lo hi (if start = lo then start + 1 else start) tr"

subsection \<open>The run stack\<close>

text \<open>
  \<open>runBase\<close> and \<open>runLen\<close> are arrays of numbers: a missing entry is \<open>undefined\<close>
  (\<open>None\<close>), which turns a sum into \<open>NaN\<close> (again \<open>None\<close>) and makes every
  comparison false.
\<close>

record run_stack =
  runBase :: "nat option list"
  runLen :: "nat option list"
  stackSize :: nat

definition js_add :: "nat option \<Rightarrow> nat option \<Rightarrow> nat option" where
  "js_add x y = (case (x, y) of (Some m, Some n) \<Rightarrow> Some (m + n) | _ \<Rightarrow> None)"

definition js_le :: "nat option \<Rightarrow> nat option \<Rightarrow> bool" where
  "js_le x y = (case (x, y) of (Some m, Some n) \<Rightarrow> m \<le> n | _ \<Rightarrow> False)"

definition js_lt :: "nat option \<Rightarrow> nat option \<Rightarrow> bool" where
  "js_lt x y = (case (x, y) of (Some m, Some n) \<Rightarrow> m < n | _ \<Rightarrow> False)"

definition minRunLength :: "nat \<Rightarrow> nat" where
  "minRunLength n = (let r = (0::nat) in n + 1)"

definition pushRun :: "run_stack \<Rightarrow> nat \<Rightarrow> nat \<Rightarrow> 'a event list \<Rightarrow> run_stack \<times> 'a event list" where
  "pushRun st runBaseArg runLenArg tr =
     (st\<lparr>runBase := aset None (runBase st) (stackSize st) (Some runBaseArg),
         runLen := aset None (runLen st) (stackSize st) (Some runLenArg),
         stackSize := stackSize st + 1\<rparr>,
      tr @ [PushRun runBaseArg runLenArg])"

text \<open>
  \<open>mergeAt\<close> is an async function that \<open>mergeCollapse\<close> and \<open>mergeForceCollapse\<close> call
  without \<open>await\<close>. The caller sees what \<open>mergeAt\<close> does before its first suspension:
  it reads the two runs, updates the run stack and calls \<open>gallopRight\<close>, which runs up
  to its first \<open>await compare(key, a[base + hint])\<close> with \<open>key = global_a[base2]\<close>,
  \<open>base = base1\<close> and \<open>hint = 0\<close>: the comparator is invoked on that pair. The rest of
  the merge runs as a detached task, concurrently with the caller. The model records
  the launch as the event \<open>MergeAt i\<close>, followed by that first comparator call, and
  performs the stack update; an execution whose trace holds such an event has left the
  sequential model. An index read from a missing stack entry is \<open>undefined\<close>, and so is
  the element read at it.
\<close>

definition aget_opt :: "'a \<Rightarrow> 'a list \<Rightarrow> nat option \<Rightarrow> 'a" where
  "aget_opt u a i = (case i of None \<Rightarrow> u | Some j \<Rightarrow> aget u a j)"

definition mergeAt_launch ::
  "'a \<Rightarrow> 'a list \<Rightarrow> run_stack \<Rightarrow> nat \<Rightarrow> 'a event list \<Rightarrow> run_stack \<times> 'a event list" where
  "mergeAt_launch u a st i tr =
     (let base1 = aget None (runBase st) i;
          len1 = aget None (runLen st) i;
          base2 = aget None (runBase st) (i + 1);
          len2 = aget None (runLen st) (i + 1);
          rl = aset None (runLen st) i (js_add len1 len2);
          rb = runBase st;
          (rb1, rl1) =
            (if i + 3 = stackSize st
             then (aset None rb (i + 1) (aget None rb (i + 2)),
                   aset None rl (i + 1) (aget None rl (i + 2)))
             else (rb, rl));
          key = aget_opt u a base2;
          y = aget_opt u a (js_add base1 (Some 0))
      in (st\<lparr>runBase := rb1, runLen := rl1, stackSize := stackSize st - 1\<rparr>,
          tr @ [MergeAt i, Compare Galloping key y]))"

lemma stackSize_mergeAt_launch [simp]:
  "stackSize (fst (mergeAt_launch u a st i tr)) = stackSize st - 1"
  by (simp add: mergeAt_launch_def Let_def split: prod.splits)

function mergeCollapse ::
  "'a \<Rightarrow> 'a list \<Rightarrow> run_stack \<Rightarrow> 'a event list \<Rightarrow> run_stack \<times> 'a event list" where
  "mergeCollapse u a st tr =
     (if stackSize st > 1 then
        (let n = stackSize st - 2; rl = runLen st in
         if n > 0 \<and> js_le (aget None rl (n - 1)) (js_add (aget None rl n) (aget None rl (n + 1)))
         then
           (let n1 = (if js_lt (aget None rl (n - 1)) (aget None rl (n + 1)) then n - 1 else n);
                r = mergeAt_launch u a st n1 tr
            in mergeCollapse u a (fst r) (snd r))
         else if js_le (aget None rl n) (aget None rl (n + 1)) then
           (let r = mergeAt_launch u a st n tr in mergeCollapse u a (fst r) (snd r))
         else (st, tr))
      else (st, tr))"
  by pat_completeness auto
termination
  by (relation "measure (\<lambda>(u, a, st, tr). stackSize st)") (auto simp: case_prod_beta)

declare mergeCollapse.simps [simp del]

function mergeForceCollapse ::
  "'a \<Rightarrow> 'a list \<Rightarrow> run_stack \<Rightarrow> 'a event list \<Rightarrow> run_stack \<times> 'a event list" where
  "mergeForceCollapse u a st tr =
     (if stackSize st > 1 then
        (let n = stackSize st - 2; rl = runLen st;
             n1 = (if n > 0 \<and> js_lt (aget None rl (n - 1)) (aget None rl (n + 1)) then n - 1 else n);
             r = mergeAt_launch u a st n1 tr
         in mergeForceCollapse u a (fst r) (snd r))
      else (st, tr))"
  by pat_completeness auto
termination
  by (relation "measure (\<lambda>(u, a, st, tr). stackSize st)") (auto simp: case_prod_beta)

declare mergeForceCollapse.simps [simp del]

subsection \<open>\<open>sort\<close> and \<open>timsort\<close>\<close>

record 'a engine =
  global_a :: "'a list"
  stack :: run_stack
  trace :: "'a event list"

text \<open>The \<open>do ... while (nRemaining != 0)\<close> loop of \<open>sort\<close>.\<close>

partial_function (option) sort_loop ::
  "'a \<Rightarrow> 'a comparator \<Rightarrow> nat \<Rightarrow> nat \<Rightarrow> 'a list \<Rightarrow> nat \<Rightarrow> nat \<Rightarrow> run_stack \<Rightarrow> 'a event list
     \<Rightarrow> 'a engine option" where
  "sort_loop u cmp hi minRun a lo nRemaining st tr =
     (case countRunAndMakeAscending u cmp a lo hi tr of
        (a1, runLenlet, tr1) \<Rightarrow>
          (case (if runLenlet < minRun then
                   (let force = (if nRemaining \<le> minRun then nRemaining else minRun) in
                    case binarySort u cmp a1 lo (lo + force) (lo + runLenlet) tr1 of
                      None \<Rightarrow> None
                    | Some (a2, tr2) \<Rightarrow> Some (a2, force, tr2))
                 else Some (a1, runLenlet, tr1)) of
             None \<Rightarrow> None
           | Some (a2, runLenlet, tr2) \<Rightarrow>
               (case pushRun st lo runLenlet tr2 of
                  (st1, tr3) \<Rightarrow>
                    (case mergeCollapse u a2 st1 tr3 of
                       (st2, tr4) \<Rightarrow>
                         (let lo = lo + runLenlet;
                              nRemaining = nRemaining - runLenlet
                          in if nRemaining \<noteq> 0
                             then sort_loop u cmp hi minRun a2 lo nRemaining st2 tr4
                             else Some \<lparr>global_a = a2, stack = st2, trace = tr4\<rparr>)))))"

declare sort_loop.simps [code]

definition MIN_MERGE :: nat where
  "MIN_MERGE = 32"

definition sort_range ::
  "'a \<Rightarrow> 'a comparator \<Rightarrow> 'a list \<Rightarrow> nat \<Rightarrow> nat \<Rightarrow> (error + 'a engine) option" where
  "sort_range u cmp a lo hi =
     (let st = \<lparr>runBase = [], runLen = [], stackSize = 0\<rparr> in
      case rangeCheck (length a) lo hi of
        Some e \<Rightarrow> Some (Inl e)
      | None \<Rightarrow>
          (let nRemaining = hi - lo in
           if nRemaining < 2 then Some (Inr \<lparr>global_a = a, stack = st, trace = []\<rparr>)
           else if nRemaining < MIN_MERGE then
             (case countRunAndMakeAscending u cmp a lo hi [] of
                (a1, initRunLen, tr1) \<Rightarrow>
                  (case binarySort u cmp a1 lo hi (lo + initRunLen) tr1 of
                     None \<Rightarrow> None
                   | Some (a2, tr2) \<Rightarrow> Some (Inr \<lparr>global_a = a2, stack = st, trace = tr2\<rparr>)))
           else
             (let minRun = minRunLength nRemaining in
              case sort_loop u cmp hi minRun a lo nRemaining st [] of
                None \<Rightarrow> None
              | Some e \<Rightarrow>
                  (case mergeForceCollapse u (global_a e) (stack e) (trace e) of
                     (st1, tr1) \<Rightarrow> Some (Inr (e\<lparr>stack := st1, trace := tr1\<rparr>))))))"

definition timsort :: "'a \<Rightarrow> 'a comparator \<Rightarrow> 'a list \<Rightarrow> (error + 'a engine) option" where
  "timsort u cmp arr = sort_range u cmp arr 0 (length arr)"

subsection \<open>\<open>gallopLeft\<close> and \<open>gallopRight\<close>\<close>

text \<open>
  The offsets of the gallop functions can be negative (\<open>lastOfs = hint - ofs\<close> is
  \<open>-1\<close> when the search runs off the left end), so they are integers. A read at a
  negative index yields \<open>undefined\<close>.
\<close>

definition aget_i :: "'a \<Rightarrow> 'a list \<Rightarrow> int \<Rightarrow> 'a" where
  "aget_i u a i = (if 0 \<le> i \<and> i < int (length a) then a ! nat i else u)"

text \<open>\<open>ToInt32\<close>, \<open>x << 1\<close> and \<open>x >>> 1\<close> on integers.\<close>

definition to_int32 :: "int \<Rightarrow> int" where
  "to_int32 x = (let r = x mod 2 ^ 32 in if r \<ge> 2 ^ 31 then r - 2 ^ 32 else r)"

definition shl1 :: "int \<Rightarrow> int" where
  "shl1 x = to_int32 (2 * to_int32 x)"

definition ushr1_i :: "int \<Rightarrow> int" where
  "ushr1_i x = (x mod 2 ^ 32) div 2"

text \<open>Facts on the 32-bit operations, for the termination of the loops below.\<close>

lemma to_int32_range: "- (2 ^ 31) \<le> to_int32 x \<and> to_int32 x < 2 ^ 31"
proof -
  define r where "r = x mod 2 ^ 32"
  have "0 \<le> r" "r < 2 ^ 32" by (simp_all add: r_def)
  moreover have "to_int32 x = (if r \<ge> 2 ^ 31 then r - 2 ^ 32 else r)"
    by (simp add: to_int32_def Let_def r_def)
  ultimately show ?thesis by auto
qed

lemma to_int32_id: "- (2 ^ 31) \<le> x \<Longrightarrow> x < 2 ^ 31 \<Longrightarrow> to_int32 x = x"
proof -
  assume h: "- (2 ^ 31) \<le> x" "x < 2 ^ 31"
  show ?thesis
  proof (cases "0 \<le> x")
    case True
    then have "x mod 2 ^ 32 = x" using h by (simp add: mod_pos_pos_trivial)
    then show ?thesis using h by (simp add: to_int32_def Let_def)
  next
    case False
    have "(x + 2 ^ 32) mod 2 ^ 32 = x + 2 ^ 32"
      using h False by (intro mod_pos_pos_trivial) simp_all
    then have "x mod 2 ^ 32 = x + 2 ^ 32" by simp
    then show ?thesis using h False by (simp add: to_int32_def Let_def)
  qed
qed

lemma shl1_small: "0 \<le> x \<Longrightarrow> x < 2 ^ 30 \<Longrightarrow> shl1 x = 2 * x"
  by (simp add: shl1_def to_int32_id)

lemma shl1_big: "2 ^ 30 \<le> x \<Longrightarrow> x < 2 ^ 31 \<Longrightarrow> shl1 x < 0"
proof -
  assume h: "2 ^ 30 \<le> x" "x < 2 ^ 31"
  have "to_int32 x = x" using h by (simp add: to_int32_id)
  moreover have "(2 * x) mod 2 ^ 32 = 2 * x" using h by (simp add: mod_pos_pos_trivial)
  ultimately show ?thesis using h by (simp add: shl1_def to_int32_def[of "2 * x"] Let_def)
qed

lemma shl1_range: "- (2 ^ 31) \<le> shl1 x \<and> shl1 x < 2 ^ 31"
  unfolding shl1_def by (rule to_int32_range)

lemma shl1_even: "even (shl1 x)"
proof -
  have "(2 * to_int32 x) mod (2 * 2 ^ 31) = 2 * (to_int32 x mod 2 ^ 31)"
    by (rule mult_mod_right[symmetric])
  then have "even ((2 * to_int32 x) mod 2 ^ 32)" by simp
  then show ?thesis by (simp add: shl1_def to_int32_def[of "2 * to_int32 x"] Let_def)
qed

lemma shl1_next: "shl1 x + 1 < 2 ^ 31"
proof -
  have "shl1 x + 1 \<noteq> 2 ^ 31"
  proof
    assume "shl1 x + 1 = 2 ^ 31"
    then have "shl1 x = 2 ^ 31 - 1" by simp
    then have "odd (shl1 x)" by simp
    then show False using shl1_even by blast
  qed
  then show ?thesis using shl1_range[of x] by simp
qed

lemma ushr1_i_bounds: "0 < d \<Longrightarrow> 0 \<le> ushr1_i d \<and> ushr1_i d < d"
proof -
  assume d: "0 < d"
  have "0 \<le> d mod 2 ^ 32" "d mod 2 ^ 32 \<le> d" using d by (simp_all add: zmod_le_nonneg_dividend)
  then show ?thesis using d by (simp add: ushr1_i_def)
qed


definition gallop_measure :: "int \<Rightarrow> int \<Rightarrow> nat" where
  "gallop_measure maxOfs ofs =
     (if ofs < maxOfs then (if 0 < ofs \<and> ofs < 2 ^ 31 then nat (2 ^ 31 - ofs) else 2 ^ 31 + 1)
      else 0)"

lemma gallop_measure_step:
  assumes "ofs < maxOfs"
  shows "gallop_measure maxOfs (if shl1 ofs + 1 \<le> 0 then maxOfs else shl1 ofs + 1)
           < gallop_measure maxOfs ofs"
proof (cases "shl1 ofs + 1 \<le> 0")
  case True
  then show ?thesis using assms by (simp add: gallop_measure_def)
next
  case False
  then have pos: "0 < shl1 ofs + 1" by simp
  have lt: "shl1 ofs + 1 < 2 ^ 31" by (rule shl1_next)
  show ?thesis
  proof (cases "0 < ofs \<and> ofs < 2 ^ 31")
    case in_range: True
    have small: "ofs < 2 ^ 30"
    proof (rule ccontr)
      assume "\<not> ofs < 2 ^ 30"
      then have "shl1 ofs < 0" using in_range by (intro shl1_big) simp_all
      with pos show False by simp
    qed
    then have "shl1 ofs = 2 * ofs" using in_range by (intro shl1_small) simp_all
    then show ?thesis using assms in_range False small by (simp add: gallop_measure_def)
  next
    case False
    then show ?thesis using assms pos lt \<open>\<not> shl1 ofs + 1 \<le> 0\<close>
      by (auto simp: gallop_measure_def)
  qed
qed

lemma gallop_measure_wrap:
  "ofs < maxOfs \<Longrightarrow> shl1 ofs + 1 \<le> 0 \<Longrightarrow>
   gallop_measure maxOfs maxOfs < gallop_measure maxOfs ofs"
  using gallop_measure_step[of ofs maxOfs] by simp

lemma gallop_measure_double:
  "ofs < maxOfs \<Longrightarrow> \<not> shl1 ofs + 1 \<le> 0 \<Longrightarrow>
   gallop_measure maxOfs (shl1 ofs + 1) < gallop_measure maxOfs ofs"
  using gallop_measure_step[of ofs maxOfs] by simp

text \<open>
  The four galloping loops of the source have one shape,
  \<open>while (ofs < maxOfs && cont (compare(key, a[idx + dir * ofs]))) { ... }\<close>,
  with \<open>dir = 1\<close> when galloping right and \<open>dir = -1\<close> when galloping left, and the
  continuation test \<open>cont\<close> one of \<open>> 0\<close>, \<open><= 0\<close>, \<open>< 0\<close>, \<open>>= 0\<close>.
\<close>

function gallop_loop ::
  "'a \<Rightarrow> 'a comparator \<Rightarrow> (int \<Rightarrow> bool) \<Rightarrow> 'a \<Rightarrow> 'a list \<Rightarrow> int \<Rightarrow> int \<Rightarrow> int
     \<Rightarrow> int \<Rightarrow> int \<Rightarrow> 'a event list \<Rightarrow> int \<times> int \<times> 'a event list" where
  "gallop_loop u cmp cont key a idx dir maxOfs lastOfs ofs tr =
     (if ofs < maxOfs then
        (let y = aget_i u a (idx + dir * ofs);
             tr1 = tr @ [Compare Galloping key y]
         in if cont (cmp key y) then
              (let lastOfs = ofs;
                   ofs = shl1 ofs + 1;
                   ofs = (if ofs \<le> 0 then maxOfs else ofs)
               in gallop_loop u cmp cont key a idx dir maxOfs lastOfs ofs tr1)
            else (lastOfs, ofs, tr1))
      else (lastOfs, ofs, tr))"
  by pat_completeness auto
termination
  by (relation "measure (\<lambda>(u, cmp, cont, key, a, idx, dir, maxOfs, lastOfs, ofs, tr).
        gallop_measure maxOfs ofs)")
     (auto simp: gallop_measure_wrap gallop_measure_double)

declare gallop_loop.simps [simp del]

text \<open>The binary search that ends both functions; \<open>right_of\<close> is the test that moves \<open>lastOfs\<close>.\<close>

function gallop_search ::
  "'a \<Rightarrow> 'a comparator \<Rightarrow> (int \<Rightarrow> bool) \<Rightarrow> 'a \<Rightarrow> 'a list \<Rightarrow> int \<Rightarrow> int \<Rightarrow> int
     \<Rightarrow> 'a event list \<Rightarrow> int \<times> 'a event list" where
  "gallop_search u cmp right_of key a base lastOfs ofs tr =
     (if lastOfs < ofs then
        (let m = lastOfs + ushr1_i (ofs - lastOfs);
             y = aget_i u a (base + m);
             tr1 = tr @ [Compare Galloping key y]
         in if right_of (cmp key y) then gallop_search u cmp right_of key a base (m + 1) ofs tr1
            else gallop_search u cmp right_of key a base lastOfs m tr1)
      else (ofs, tr))"
  by pat_completeness auto
termination
proof (relation "measure (\<lambda>(u, cmp, right_of, key, a, base, lastOfs, ofs, tr). nat (ofs - lastOfs))")
  show "wf (measure (\<lambda>(u, cmp, right_of, key, a, base, lastOfs, ofs, tr). nat (ofs - lastOfs)))"
    by simp
next
  fix u :: 'a and cmp right_of key a base lastOfs ofs and tr :: "'a event list" and x xa xb
  assume "lastOfs < ofs" "x = lastOfs + ushr1_i (ofs - lastOfs)"
  then show "((u, cmp, right_of, key, a, base, x + 1, ofs, xb),
       u, cmp, right_of, key, a, base, lastOfs, ofs, tr)
      \<in> measure (\<lambda>(u, cmp, right_of, key, a, base, lastOfs, ofs, tr). nat (ofs - lastOfs))"
    using ushr1_i_bounds[of "ofs - lastOfs"] by simp
next
  fix u :: 'a and cmp right_of key a base lastOfs ofs and tr :: "'a event list" and x xa xb
  assume "lastOfs < ofs" "x = lastOfs + ushr1_i (ofs - lastOfs)"
  then show "((u, cmp, right_of, key, a, base, lastOfs, x, xb),
       u, cmp, right_of, key, a, base, lastOfs, ofs, tr)
      \<in> measure (\<lambda>(u, cmp, right_of, key, a, base, lastOfs, ofs, tr). nat (ofs - lastOfs))"
    using ushr1_i_bounds[of "ofs - lastOfs"] by simp
qed

declare gallop_search.simps [simp del]

definition gallopLeft ::
  "'a \<Rightarrow> 'a comparator \<Rightarrow> 'a \<Rightarrow> 'a list \<Rightarrow> int \<Rightarrow> int \<Rightarrow> int \<Rightarrow> 'a event list
     \<Rightarrow> int \<times> 'a event list" where
  "gallopLeft u cmp key a base len hint tr =
     (let lastOfs = 0; ofs = 1;
          y = aget_i u a (base + hint);
          tr1 = tr @ [Compare Galloping key y];
          (lastOfs, ofs, tr2) =
            (if cmp key y > 0 then
               (let maxOfs = len - hint;
                    (lastOfs, ofs, tr2) =
                       gallop_loop u cmp (\<lambda>c. c > 0) key a (base + hint) 1 maxOfs lastOfs ofs tr1;
                    ofs = (if ofs > maxOfs then maxOfs else ofs)
                in (lastOfs + hint, ofs + hint, tr2))
             else
               (let maxOfs = hint + 1;
                    (lastOfs, ofs, tr2) =
                       gallop_loop u cmp (\<lambda>c. c \<le> 0) key a (base + hint) (- 1) maxOfs lastOfs ofs tr1;
                    ofs = (if ofs > maxOfs then maxOfs else ofs);
                    tmp = lastOfs
                in (hint - ofs, hint - tmp, tr2)));
          lastOfs = lastOfs + 1
      in gallop_search u cmp (\<lambda>c. c > 0) key a base lastOfs ofs tr2)"

definition gallopRight ::
  "'a \<Rightarrow> 'a comparator \<Rightarrow> 'a \<Rightarrow> 'a list \<Rightarrow> int \<Rightarrow> int \<Rightarrow> int \<Rightarrow> 'a event list
     \<Rightarrow> int \<times> 'a event list" where
  "gallopRight u cmp key a base len hint tr =
     (let ofs = 1; lastOfs = 0;
          y = aget_i u a (base + hint);
          tr1 = tr @ [Compare Galloping key y];
          (lastOfs, ofs, tr2) =
            (if cmp key y < 0 then
               (let maxOfs = hint + 1;
                    (lastOfs, ofs, tr2) =
                       gallop_loop u cmp (\<lambda>c. c < 0) key a (base + hint) (- 1) maxOfs lastOfs ofs tr1;
                    ofs = (if ofs > maxOfs then maxOfs else ofs);
                    tmp = lastOfs
                in (hint - ofs, hint - tmp, tr2))
             else
               (let maxOfs = len - hint;
                    (lastOfs, ofs, tr2) =
                       gallop_loop u cmp (\<lambda>c. c \<ge> 0) key a (base + hint) 1 maxOfs lastOfs ofs tr1;
                    ofs = (if ofs > maxOfs then maxOfs else ofs)
                in (lastOfs + hint, ofs + hint, tr2)));
          lastOfs = lastOfs + 1
      in gallop_search u cmp (\<lambda>c. \<not> c < 0) key a base lastOfs ofs tr2)"

subsection \<open>\<open>mergeLo\<close> and \<open>mergeHi\<close>\<close>

text \<open>
  The cursors and lengths of the merge functions are integers: the source decrements
  them below zero when a precondition fails. A write at a negative index creates a
  property that is not an element; the model leaves the array unchanged there.
  \<open>arraycopy\<close> with a negative length never returns.
\<close>

definition aset_i :: "'a \<Rightarrow> 'a list \<Rightarrow> int \<Rightarrow> 'a \<Rightarrow> 'a list" where
  "aset_i u a i v = (if i < 0 then a else aset u a (nat i) v)"

text \<open>\<open>s.slice(b, e)\<close> in full: a negative bound counts from the end.\<close>

definition slice_i :: "'a list \<Rightarrow> int \<Rightarrow> int \<Rightarrow> 'a list" where
  "slice_i s b e =
     (let n = int (length s);
          k = (if b < 0 then max (n + b) 0 else min b n);
          f = (if e < 0 then max (n + e) 0 else min e n)
      in take (nat (f - k)) (drop (nat k) s))"

fun copy_down_i :: "'a \<Rightarrow> 'a list \<Rightarrow> 'a list \<Rightarrow> int \<Rightarrow> nat \<Rightarrow> 'a list" where
  "copy_down_i u t d dpos 0 = d"
| "copy_down_i u t d dpos (Suc len) =
     copy_down_i u t (aset_i u d (dpos + int len) (aget u t len)) dpos len"

definition arraycopy_i ::
  "'a \<Rightarrow> 'a list \<Rightarrow> int \<Rightarrow> 'a list \<Rightarrow> int \<Rightarrow> int \<Rightarrow> 'a list option" where
  "arraycopy_i u s spos d dpos len =
     (if len < 0 then None
      else Some (copy_down_i u (slice_i s spos (spos + len)) d dpos (nat len)))"

text \<open>\<open>(count1 | count2)\<close>: both operands go through \<open>ToInt32\<close>.\<close>

definition or32 :: "int \<Rightarrow> int \<Rightarrow> int" where
  "or32 x y = or (to_int32 x) (to_int32 y)"

definition MIN_GALLOP :: int where
  "MIN_GALLOP = 7"

text \<open>The locals of a merge that its loops change.\<close>

record 'a merge_state =
  arr :: "'a list"
  cursor1 :: int
  cursor2 :: int
  dest :: int
  len1 :: int
  len2 :: int
  minGallop :: int
  events :: "'a event list"

text \<open>How a loop of a merge is left: by \<open>break outer\<close>, or through its own condition.\<close>

datatype 'a loop_exit = BreakOuter "'a merge_state" | Fallthrough "'a merge_state"

subsubsection \<open>\<open>mergeLo\<close>\<close>

text \<open>\<open>a[dest++] = a[cursor2++]\<close> and \<open>a[dest++] = tmp[cursor1++]\<close>.\<close>

definition lo_take2 :: "'a \<Rightarrow> 'a merge_state \<Rightarrow> 'a merge_state" where
  "lo_take2 u st =
     st\<lparr>arr := aset_i u (arr st) (dest st) (aget_i u (arr st) (cursor2 st)),
        dest := dest st + 1, cursor2 := cursor2 st + 1\<rparr>"

definition lo_take1 :: "'a \<Rightarrow> 'a list \<Rightarrow> 'a merge_state \<Rightarrow> 'a merge_state" where
  "lo_take1 u tmp st =
     st\<lparr>arr := aset_i u (arr st) (dest st) (aget_i u tmp (cursor1 st)),
        dest := dest st + 1, cursor1 := cursor1 st + 1\<rparr>"

text \<open>The straight loop of \<open>mergeLo\<close> (a \<open>do ... while\<close>).\<close>

partial_function (option) mergeLo_straight ::
  "'a \<Rightarrow> 'a comparator \<Rightarrow> 'a list \<Rightarrow> 'a merge_state \<Rightarrow> int \<Rightarrow> int \<Rightarrow> 'a loop_exit option" where
  "mergeLo_straight u cmp tmp st count1 count2 =
     (let x = aget_i u (arr st) (cursor2 st);
          y = aget_i u tmp (cursor1 st);
          st = st\<lparr>events := events st @ [Compare Merging x y]\<rparr>
      in if cmp x y < 0 then
           (let st = lo_take2 u st;
                count2 = count2 + 1;
                count1 = 0;
                st = st\<lparr>len2 := len2 st - 1\<rparr>
            in if len2 st = 0 then Some (BreakOuter st)
               else if or32 count1 count2 < minGallop st
               then mergeLo_straight u cmp tmp st count1 count2
               else Some (Fallthrough st))
         else
           (let st = lo_take1 u tmp st;
                count1 = count1 + 1;
                count2 = 0;
                st = st\<lparr>len1 := len1 st - 1\<rparr>
            in if len1 st = 1 then Some (BreakOuter st)
               else if or32 count1 count2 < minGallop st
               then mergeLo_straight u cmp tmp st count1 count2
               else Some (Fallthrough st)))"

declare mergeLo_straight.simps [code]

text \<open>
  The two halves of a galloping iteration of \<open>mergeLo\<close>, each without its \<open>break\<close>
  test: \<open>count1 = await gallopRight(...); if (count1 != 0) { arraycopy(...); ... }\<close>
  and the same for \<open>count2\<close> with \<open>gallopLeft\<close>.
\<close>

definition lo_gallop1 ::
  "'a \<Rightarrow> 'a comparator \<Rightarrow> 'a list \<Rightarrow> 'a merge_state \<Rightarrow> (int \<times> 'a merge_state) option" where
  "lo_gallop1 u cmp tmp st =
     (case gallopRight u cmp (aget_i u (arr st) (cursor2 st)) tmp (cursor1 st) (len1 st) 0 (events st) of
        (count1, tr) \<Rightarrow>
          if count1 \<noteq> 0 then
            (case arraycopy_i u tmp (cursor1 st) (arr st) (dest st) count1 of
               None \<Rightarrow> None
             | Some a \<Rightarrow>
                 Some (count1, st\<lparr>arr := a, dest := dest st + count1, cursor1 := cursor1 st + count1,
                          len1 := len1 st - count1, events := tr\<rparr>))
          else Some (count1, st\<lparr>events := tr\<rparr>))"

definition lo_gallop2 ::
  "'a \<Rightarrow> 'a comparator \<Rightarrow> 'a list \<Rightarrow> 'a merge_state \<Rightarrow> (int \<times> 'a merge_state) option" where
  "lo_gallop2 u cmp tmp st =
     (case gallopLeft u cmp (aget_i u tmp (cursor1 st)) (arr st) (cursor2 st) (len2 st) 0 (events st) of
        (count2, tr) \<Rightarrow>
          if count2 \<noteq> 0 then
            (case arraycopy_i u (arr st) (cursor2 st) (arr st) (dest st) count2 of
               None \<Rightarrow> None
             | Some a \<Rightarrow>
                 Some (count2, st\<lparr>arr := a, dest := dest st + count2, cursor2 := cursor2 st + count2,
                          len2 := len2 st - count2, events := tr\<rparr>))
          else Some (count2, st\<lparr>events := tr\<rparr>))"

text \<open>\<open>minGallop--\<close>, at the end of a galloping iteration that did not break.\<close>

definition gallop_won :: "'a merge_state \<Rightarrow> 'a merge_state" where
  "gallop_won st = st\<lparr>minGallop := minGallop st - 1\<rparr>"

text \<open>
  The trace records every passage through a statement that assigns \<open>minGallop\<close>, with
  the values that the variable holds before and after it.
\<close>

definition observe ::
  "(int \<Rightarrow> int \<Rightarrow> 'a event) \<Rightarrow> 'a merge_state \<Rightarrow> 'a merge_state \<Rightarrow> 'a merge_state" where
  "observe ev before after =
     after\<lparr>events := events after @ [ev (minGallop before) (minGallop after)]\<rparr>"

text \<open>The galloping loop of \<open>mergeLo\<close>.\<close>

partial_function (option) mergeLo_gallop ::
  "'a \<Rightarrow> 'a comparator \<Rightarrow> 'a list \<Rightarrow> 'a merge_state \<Rightarrow> 'a loop_exit option" where
  "mergeLo_gallop u cmp tmp st =
     (case lo_gallop1 u cmp tmp st of
        None \<Rightarrow> None
      | Some (count1, st) \<Rightarrow>
          if count1 \<noteq> 0 \<and> len1 st \<le> 1 then Some (BreakOuter st)
          else
            (let st = lo_take2 u st;
                 st = st\<lparr>len2 := len2 st - 1\<rparr>
             in if len2 st = 0 then Some (BreakOuter st)
                else
                  (case lo_gallop2 u cmp tmp st of
                     None \<Rightarrow> None
                   | Some (count2, st) \<Rightarrow>
                       if count2 \<noteq> 0 \<and> len2 st = 0 then Some (BreakOuter st)
                       else
                         (let st = lo_take1 u tmp st;
                              st = st\<lparr>len1 := len1 st - 1\<rparr>
                          in if len1 st = 1 then Some (BreakOuter st)
                             else
                               (let st = observe GallopIteration st (gallop_won st)
                                in if count1 \<ge> MIN_GALLOP \<or> count2 \<ge> MIN_GALLOP
                                   then mergeLo_gallop u cmp tmp st
                                   else Some (Fallthrough st))))))"

declare mergeLo_gallop.simps [code]

text \<open>\<open>if (minGallop < 0) minGallop = 0; minGallop += 2\<close>, on leaving galloping mode.\<close>

definition gallop_penalty :: "'a merge_state \<Rightarrow> 'a merge_state" where
  "gallop_penalty st =
     (let st = (if minGallop st < 0 then st\<lparr>minGallop := 0\<rparr> else st)
      in st\<lparr>minGallop := minGallop st + 2\<rparr>)"

text \<open>The loop \<open>outer\<close> of \<open>mergeLo\<close>; it returns the state at \<open>break outer\<close>.\<close>

partial_function (option) mergeLo_outer ::
  "'a \<Rightarrow> 'a comparator \<Rightarrow> 'a list \<Rightarrow> 'a merge_state \<Rightarrow> 'a merge_state option" where
  "mergeLo_outer u cmp tmp st =
     (case mergeLo_straight u cmp tmp st 0 0 of
        None \<Rightarrow> None
      | Some (BreakOuter st) \<Rightarrow> Some st
      | Some (Fallthrough st) \<Rightarrow>
          (case mergeLo_gallop u cmp tmp st of
             None \<Rightarrow> None
           | Some (BreakOuter st) \<Rightarrow> Some st
           | Some (Fallthrough st) \<Rightarrow> mergeLo_outer u cmp tmp (observe GallopExit st (gallop_penalty st))))"

declare mergeLo_outer.simps [code]

text \<open>
  The end of \<open>mergeLo\<close>, after the loop. The assignment
  \<open>minGallop = minGallop < 1 ? 1 : minGallop\<close> writes a local that is not read again.
\<close>

definition mergeLo_finish ::
  "'a \<Rightarrow> 'a list \<Rightarrow> 'a merge_state \<Rightarrow> (error + 'a list \<times> 'a event list) option" where
  "mergeLo_finish u tmp st =
     (let st = st\<lparr>minGallop := (if minGallop st < 1 then 1 else minGallop st)\<rparr> in
      if len1 st = 1 then
        (case arraycopy_i u (arr st) (cursor2 st) (arr st) (dest st) (len2 st) of
           None \<Rightarrow> None
         | Some a \<Rightarrow>
             Some (Inr (aset_i u a (dest st + len2 st) (aget_i u tmp (cursor1 st)), events st)))
      else if len1 st = 0 then Some (Inl ComparatorContractViolation)
      else
        (case arraycopy_i u tmp (cursor1 st) (arr st) (dest st) (len1 st) of
           None \<Rightarrow> None
         | Some a \<Rightarrow> Some (Inr (a, events st))))"

text \<open>The state in which \<open>mergeLo\<close> enters its loop, after moving the first element of run 2.\<close>

definition mergeLo_init ::
  "'a \<Rightarrow> 'a list \<Rightarrow> int \<Rightarrow> int \<Rightarrow> int \<Rightarrow> int \<Rightarrow> 'a event list \<Rightarrow> 'a merge_state" where
  "mergeLo_init u a base1 l1 base2 l2 tr =
     (let st = \<lparr>arr = a, cursor1 = 0, cursor2 = base2, dest = base1, len1 = l1, len2 = l2,
                 minGallop = MIN_GALLOP, events = tr\<rparr>;
          st = lo_take2 u st
      in st\<lparr>len2 := len2 st - 1\<rparr>)"

definition mergeLo ::
  "'a \<Rightarrow> 'a comparator \<Rightarrow> 'a list \<Rightarrow> int \<Rightarrow> int \<Rightarrow> int \<Rightarrow> int \<Rightarrow> 'a event list
     \<Rightarrow> (error + 'a list \<times> 'a event list) option" where
  "mergeLo u cmp a base1 l1 base2 l2 tr =
     (let tmp = slice_i a base1 (base1 + l1);
          st = mergeLo_init u a base1 l1 base2 l2 tr
      in if len2 st = 0 then
           (case arraycopy_i u tmp (cursor1 st) (arr st) (dest st) (len1 st) of
              None \<Rightarrow> None
            | Some a \<Rightarrow> Some (Inr (a, events st)))
         else if len1 st = 1 then
           (case arraycopy_i u (arr st) (cursor2 st) (arr st) (dest st) (len2 st) of
              None \<Rightarrow> None
            | Some a \<Rightarrow>
                Some (Inr (aset_i u a (dest st + len2 st) (aget_i u tmp (cursor1 st)), events st)))
         else
           (case mergeLo_outer u cmp tmp st of
              None \<Rightarrow> None
            | Some st \<Rightarrow> mergeLo_finish u tmp st))"

subsubsection \<open>\<open>mergeHi\<close>\<close>

text \<open>\<open>a[dest--] = a[cursor1--]\<close> and \<open>a[dest--] = tmp[cursor2--]\<close>.\<close>

definition hi_take1 :: "'a \<Rightarrow> 'a merge_state \<Rightarrow> 'a merge_state" where
  "hi_take1 u st =
     st\<lparr>arr := aset_i u (arr st) (dest st) (aget_i u (arr st) (cursor1 st)),
        dest := dest st - 1, cursor1 := cursor1 st - 1\<rparr>"

definition hi_take2 :: "'a \<Rightarrow> 'a list \<Rightarrow> 'a merge_state \<Rightarrow> 'a merge_state" where
  "hi_take2 u tmp st =
     st\<lparr>arr := aset_i u (arr st) (dest st) (aget_i u tmp (cursor2 st)),
        dest := dest st - 1, cursor2 := cursor2 st - 1\<rparr>"

partial_function (option) mergeHi_straight ::
  "'a \<Rightarrow> 'a comparator \<Rightarrow> 'a list \<Rightarrow> 'a merge_state \<Rightarrow> int \<Rightarrow> int \<Rightarrow> 'a loop_exit option" where
  "mergeHi_straight u cmp tmp st count1 count2 =
     (let x = aget_i u tmp (cursor2 st);
          y = aget_i u (arr st) (cursor1 st);
          st = st\<lparr>events := events st @ [Compare Merging x y]\<rparr>
      in if cmp x y < 0 then
           (let st = hi_take1 u st;
                count1 = count1 + 1;
                count2 = 0;
                st = st\<lparr>len1 := len1 st - 1\<rparr>
            in if len1 st = 0 then Some (BreakOuter st)
               else if or32 count1 count2 < minGallop st
               then mergeHi_straight u cmp tmp st count1 count2
               else Some (Fallthrough st))
         else
           (let st = hi_take2 u tmp st;
                count2 = count2 + 1;
                count1 = 0;
                st = st\<lparr>len2 := len2 st - 1\<rparr>
            in if len2 st = 1 then Some (BreakOuter st)
               else if or32 count1 count2 < minGallop st
               then mergeHi_straight u cmp tmp st count1 count2
               else Some (Fallthrough st)))"

declare mergeHi_straight.simps [code]

text \<open>
  The two halves of a galloping iteration of \<open>mergeHi\<close>:
  \<open>count1 = len1 - await gallopRight(...); if (count1 != 0) { dest -= count1; ...;
  arraycopy(a, cursor1 + 1, a, dest + 1, count1); }\<close> and its twin for \<open>count2\<close>.
\<close>

definition hi_gallop1 ::
  "'a \<Rightarrow> 'a comparator \<Rightarrow> 'a list \<Rightarrow> int \<Rightarrow> 'a merge_state \<Rightarrow> (int \<times> 'a merge_state) option" where
  "hi_gallop1 u cmp tmp base1 st =
     (case gallopRight u cmp (aget_i u tmp (cursor2 st)) (arr st) base1 (len1 st) (len1 st - 1) (events st) of
        (k, tr) \<Rightarrow>
          (let count1 = len1 st - k in
           if count1 \<noteq> 0 then
             (let st = st\<lparr>dest := dest st - count1, cursor1 := cursor1 st - count1,
                          len1 := len1 st - count1, events := tr\<rparr>
              in case arraycopy_i u (arr st) (cursor1 st + 1) (arr st) (dest st + 1) count1 of
                   None \<Rightarrow> None
                 | Some a \<Rightarrow> Some (count1, st\<lparr>arr := a\<rparr>))
           else Some (count1, st\<lparr>events := tr\<rparr>)))"

definition hi_gallop2 ::
  "'a \<Rightarrow> 'a comparator \<Rightarrow> 'a list \<Rightarrow> 'a merge_state \<Rightarrow> (int \<times> 'a merge_state) option" where
  "hi_gallop2 u cmp tmp st =
     (case gallopLeft u cmp (aget_i u (arr st) (cursor1 st)) tmp 0 (len2 st) (len2 st - 1) (events st) of
        (k, tr) \<Rightarrow>
          (let count2 = len2 st - k in
           if count2 \<noteq> 0 then
             (let st = st\<lparr>dest := dest st - count2, cursor2 := cursor2 st - count2,
                          len2 := len2 st - count2, events := tr\<rparr>
              in case arraycopy_i u tmp (cursor2 st + 1) (arr st) (dest st + 1) count2 of
                   None \<Rightarrow> None
                 | Some a \<Rightarrow> Some (count2, st\<lparr>arr := a\<rparr>))
           else Some (count2, st\<lparr>events := tr\<rparr>)))"

partial_function (option) mergeHi_gallop ::
  "'a \<Rightarrow> 'a comparator \<Rightarrow> 'a list \<Rightarrow> int \<Rightarrow> 'a merge_state \<Rightarrow> 'a loop_exit option" where
  "mergeHi_gallop u cmp tmp base1 st =
     (case hi_gallop1 u cmp tmp base1 st of
        None \<Rightarrow> None
      | Some (count1, st) \<Rightarrow>
          if count1 \<noteq> 0 \<and> len1 st = 0 then Some (BreakOuter st)
          else
            (let st = hi_take2 u tmp st;
                 st = st\<lparr>len2 := len2 st - 1\<rparr>
             in if len2 st = 1 then Some (BreakOuter st)
                else
                  (case hi_gallop2 u cmp tmp st of
                     None \<Rightarrow> None
                   | Some (count2, st) \<Rightarrow>
                       if count2 \<noteq> 0 \<and> len2 st \<le> 1 then Some (BreakOuter st)
                       else
                         (let st = hi_take1 u st;
                              st = st\<lparr>len1 := len1 st - 1\<rparr>
                          in if len1 st = 0 then Some (BreakOuter st)
                             else
                               (let st = observe GallopIteration st (gallop_won st)
                                in if count1 \<ge> MIN_GALLOP \<or> count2 \<ge> MIN_GALLOP
                                   then mergeHi_gallop u cmp tmp base1 st
                                   else Some (Fallthrough st))))))"

declare mergeHi_gallop.simps [code]

partial_function (option) mergeHi_outer ::
  "'a \<Rightarrow> 'a comparator \<Rightarrow> 'a list \<Rightarrow> int \<Rightarrow> 'a merge_state \<Rightarrow> 'a merge_state option" where
  "mergeHi_outer u cmp tmp base1 st =
     (case mergeHi_straight u cmp tmp st 0 0 of
        None \<Rightarrow> None
      | Some (BreakOuter st) \<Rightarrow> Some st
      | Some (Fallthrough st) \<Rightarrow>
          (case mergeHi_gallop u cmp tmp base1 st of
             None \<Rightarrow> None
           | Some (BreakOuter st) \<Rightarrow> Some st
           | Some (Fallthrough st) \<Rightarrow> mergeHi_outer u cmp tmp base1 (observe GallopExit st (gallop_penalty st))))"

declare mergeHi_outer.simps [code]

text \<open>The tail \<open>dest -= len1; cursor1 -= len1; arraycopy(...); a[dest] = tmp[cursor2]\<close>.\<close>

definition hi_last :: "'a \<Rightarrow> 'a list \<Rightarrow> 'a merge_state \<Rightarrow> (error + 'a list \<times> 'a event list) option" where
  "hi_last u tmp st =
     (let st = st\<lparr>dest := dest st - len1 st, cursor1 := cursor1 st - len1 st\<rparr> in
      case arraycopy_i u (arr st) (cursor1 st + 1) (arr st) (dest st + 1) (len1 st) of
        None \<Rightarrow> None
      | Some a \<Rightarrow> Some (Inr (aset_i u a (dest st) (aget_i u tmp (cursor2 st)), events st)))"

definition mergeHi_finish ::
  "'a \<Rightarrow> 'a list \<Rightarrow> 'a merge_state \<Rightarrow> (error + 'a list \<times> 'a event list) option" where
  "mergeHi_finish u tmp st =
     (let st = st\<lparr>minGallop := (if minGallop st < 1 then 1 else minGallop st)\<rparr> in
      if len2 st = 1 then hi_last u tmp st
      else if len2 st = 0 then Some (Inl ComparatorContractViolation)
      else
        (case arraycopy_i u tmp 0 (arr st) (dest st - (len2 st - 1)) (len2 st) of
           None \<Rightarrow> None
         | Some a \<Rightarrow> Some (Inr (a, events st))))"

definition mergeHi_init ::
  "'a \<Rightarrow> 'a list \<Rightarrow> int \<Rightarrow> int \<Rightarrow> int \<Rightarrow> int \<Rightarrow> 'a event list \<Rightarrow> 'a merge_state" where
  "mergeHi_init u a base1 l1 base2 l2 tr =
     (let st = \<lparr>arr = a, cursor1 = base1 + l1 - 1, cursor2 = l2 - 1, dest = base2 + l2 - 1,
                 len1 = l1, len2 = l2, minGallop = MIN_GALLOP, events = tr\<rparr>;
          st = hi_take1 u st
      in st\<lparr>len1 := len1 st - 1\<rparr>)"

definition mergeHi ::
  "'a \<Rightarrow> 'a comparator \<Rightarrow> 'a list \<Rightarrow> int \<Rightarrow> int \<Rightarrow> int \<Rightarrow> int \<Rightarrow> 'a event list
     \<Rightarrow> (error + 'a list \<times> 'a event list) option" where
  "mergeHi u cmp a base1 l1 base2 l2 tr =
     (let tmp = slice_i a base2 (base2 + l2);
          st = mergeHi_init u a base1 l1 base2 l2 tr
      in if len1 st = 0 then
           (case arraycopy_i u tmp 0 (arr st) (dest st - (len2 st - 1)) (len2 st) of
              None \<Rightarrow> None
            | Some a \<Rightarrow> Some (Inr (a, events st)))
         else if len2 st = 1 then hi_last u tmp st
         else
           (case mergeHi_outer u cmp tmp base1 st of
              None \<Rightarrow> None
            | Some st \<Rightarrow> mergeHi_finish u tmp st))"

subsection \<open>Specification vocabulary\<close>

text \<open>
  A comparator is a consistent total order when exchanging its arguments exchanges the
  sign of its answer and "not after" is transitive. Equal standing (\<open>cmp x y = 0\<close>)
  need not be equality.
\<close>

definition total_order :: "'a comparator \<Rightarrow> bool" where
  "total_order cmp \<longleftrightarrow>
     (\<forall>x y. (cmp x y < 0) = (0 < cmp y x)) \<and>
     (\<forall>x y z. cmp x y \<le> 0 \<longrightarrow> cmp y z \<le> 0 \<longrightarrow> cmp x z \<le> 0)"

definition nondecreasing :: "'a comparator \<Rightarrow> 'a list \<Rightarrow> bool" where
  "nondecreasing cmp xs = sorted_wrt (\<lambda>x y. cmp x y \<le> 0) xs"

text \<open>
  Stability: for every element \<open>x\<close>, the elements that compare equal to \<open>x\<close> occur
  in \<open>ys\<close> in the order in which they occur in \<open>xs\<close>.
\<close>

definition equals_keep_order :: "'a comparator \<Rightarrow> 'a list \<Rightarrow> 'a list \<Rightarrow> bool" where
  "equals_keep_order cmp xs ys \<longleftrightarrow>
     (\<forall>x. filter (\<lambda>y. cmp x y = 0) ys = filter (\<lambda>y. cmp x y = 0) xs)"

text \<open>The comparator calls of a trace, in the order in which they were issued.\<close>

fun compared :: "'a event \<Rightarrow> ('a \<times> 'a) list" where
  "compared (Compare s x y) = [(x, y)]"
| "compared e = []"

definition comparisons :: "'a event list \<Rightarrow> ('a \<times> 'a) list" where
  "comparisons tr = concat (map compared tr)"

text \<open>The run stack as \<open>sort\<close> resets it, and the run stack that holds one run.\<close>

definition empty_stack :: run_stack where
  "empty_stack = \<lparr>runBase = [], runLen = [], stackSize = 0\<rparr>"

definition one_run :: "nat \<Rightarrow> run_stack" where
  "one_run n = \<lparr>runBase = [Some 0], runLen = [Some n], stackSize = 1\<rparr>"

text \<open>
  The comparator calls of one run-detection pass over a whole array that is one
  ascending run: every element against its predecessor, from left to right.
\<close>

definition run_detection_pass :: "'a list \<Rightarrow> 'a event list" where
  "run_detection_pass xs = map (\<lambda>i. Compare RunDetection (xs ! i) (xs ! (i - 1))) [1 ..< length xs]"

text \<open>The events that change the run stack.\<close>

fun stack_event :: "'a event \<Rightarrow> bool" where
  "stack_event (PushRun b l) = True"
| "stack_event (MergeAt i) = True"
| "stack_event e = False"

text \<open>The events that only the merge machinery produces.\<close>

fun merge_event :: "'a event \<Rightarrow> bool" where
  "merge_event (MergeAt i) = True"
| "merge_event (Compare Galloping x y) = True"
| "merge_event (Compare Merging x y) = True"
| "merge_event e = False"

text \<open>
  What one pass of the loop of \<open>binarySort\<close> does to the array: the element at
  \<open>start\<close> moves to \<open>left\<close>, and the elements between move up by one.
\<close>

definition insert_at :: "'a list \<Rightarrow> nat \<Rightarrow> nat \<Rightarrow> 'a list" where
  "insert_at a left start = take left a @ a ! start # slice a left start @ drop (Suc start) a"

text \<open>
  The walk of \<open>minGallop\<close> through a trace: from the value \<open>g\<close>, every completed
  galloping iteration must go from the current value to one less, and every exit from
  galloping mode through the loop condition from the current value \<open>v\<close> to
  \<open>max v 0 + 2\<close>. The result is the value after the last event, or \<open>None\<close> when an
  event does not continue from the current value.
\<close>

fun follow :: "int \<Rightarrow> 'a event list \<Rightarrow> int option" where
  "follow g [] = Some g"
| "follow g (GallopIteration b a # es) = (if b = g \<and> a = g - 1 then follow a es else None)"
| "follow g (GallopExit b a # es) =
     (if b = g \<and> a = (if g < 0 then 0 else g) + 2 then follow a es else None)"
| "follow g (e # es) = follow g es"

text \<open>
  The invariant of the loops of \<open>mergeLo\<close>. The array is \<open>P @ D @ G @ S2 @ T\<close>: the
  part before the merge, the merged elements, a gap as long as what is left of run 1
  (in \<open>tmp\<close> from \<open>cursor1\<close>), what is left of run 2, and the part after the merge.
  \<open>M\<close> is the multiset of the two runs and \<open>R2\<close> the set of run 2.
\<close>

definition lo_inv ::
  "'a list \<Rightarrow> 'a list \<Rightarrow> 'a multiset \<Rightarrow> 'a set \<Rightarrow> 'a list \<Rightarrow> 'a merge_state \<Rightarrow> bool" where
  "lo_inv P T M R2 tmp st \<longleftrightarrow>
     (\<exists>D G S2. arr st = P @ D @ G @ S2 @ T \<and>
        dest st = int (length P) + int (length D) \<and>
        len1 st = int (length G) \<and> len2 st = int (length S2) \<and>
        cursor2 st = dest st + len1 st \<and>
        0 \<le> cursor1 st \<and> cursor1 st + len1 st = int (length tmp) \<and>
        mset D + mset (drop (nat (cursor1 st)) tmp) + mset S2 = M \<and> set S2 \<subseteq> R2)"

text \<open>
  The precondition of \<open>mergeLo\<close> on the order: run 1 (copied to \<open>tmp\<close>) is sorted and
  its last element is greater than every element of run 2.
\<close>

definition lo_ordered :: "'a comparator \<Rightarrow> 'a list \<Rightarrow> 'a set \<Rightarrow> bool" where
  "lo_ordered cmp tmp R2 \<longleftrightarrow>
     total_order cmp \<and> nondecreasing cmp tmp \<and> tmp \<noteq> [] \<and> (\<forall>x\<in>R2. cmp x (last tmp) < 0)"

text \<open>What a loop of a merge adds to the trace, and what it does to \<open>minGallop\<close>.\<close>

definition walks :: "'a merge_state \<Rightarrow> 'a merge_state \<Rightarrow> bool" where
  "walks st s \<longleftrightarrow>
     (\<exists>ev. events s = events st @ ev \<and> follow (minGallop st) ev = Some (minGallop s))"

text \<open>
  What holds when a loop of \<open>mergeLo\<close> is left from the state \<open>st\<close>: by
  \<open>break outer\<close>, one of the runs is used up (run 2) or down to its last element or
  less (run 1); through the loop condition, both runs still have what the next loop
  needs, and less than before.
\<close>

definition lo_post ::
  "'a list \<Rightarrow> 'a list \<Rightarrow> 'a multiset \<Rightarrow> 'a set \<Rightarrow> 'a list \<Rightarrow> 'a comparator
     \<Rightarrow> 'a merge_state \<Rightarrow> 'a loop_exit \<Rightarrow> bool" where
  "lo_post P T M R2 tmp cmp st r =
     (case r of
        BreakOuter s \<Rightarrow>
          lo_inv P T M R2 tmp s \<and>
          ((len2 s = 0 \<and> 2 \<le> len1 s) \<or> (len1 s \<le> 1 \<and> 1 \<le> len2 s)) \<and>
          (lo_ordered cmp tmp R2 \<longrightarrow> len1 s \<noteq> 0) \<and> walks st s
      | Fallthrough s \<Rightarrow>
          lo_inv P T M R2 tmp s \<and> 2 \<le> len1 s \<and> 1 \<le> len2 s \<and>
          len1 s + len2 s < len1 st + len2 st \<and> walks st s)"

text \<open>
  The invariant of the loops of \<open>mergeHi\<close>, which fills the range from its high end.
  The array is \<open>P @ S1 @ G @ D @ T\<close>: the part before the merge, what is left of
  run 1, a gap as long as what is left of run 2 (in \<open>tmp\<close> below \<open>len2\<close>), the merged
  elements, and the part after the merge. \<open>R1\<close> is the set of run 1.
\<close>

definition hi_inv ::
  "'a list \<Rightarrow> 'a list \<Rightarrow> 'a multiset \<Rightarrow> 'a set \<Rightarrow> 'a list \<Rightarrow> 'a merge_state \<Rightarrow> bool" where
  "hi_inv P T M R1 tmp st \<longleftrightarrow>
     (\<exists>S1 G D. arr st = P @ S1 @ G @ D @ T \<and>
        len1 st = int (length S1) \<and> len2 st = int (length G) \<and>
        cursor1 st = int (length P) + len1 st - 1 \<and>
        dest st = int (length P) + len1 st + len2 st - 1 \<and>
        cursor2 st = len2 st - 1 \<and> len2 st \<le> int (length tmp) \<and>
        mset S1 + mset (take (nat (len2 st)) tmp) + mset D = M \<and> set S1 \<subseteq> R1)"

text \<open>
  The precondition of \<open>mergeHi\<close> on the order: run 2 (copied to \<open>tmp\<close>) is sorted and
  its first element is less than every element of run 1.
\<close>

definition hi_ordered :: "'a comparator \<Rightarrow> 'a list \<Rightarrow> 'a set \<Rightarrow> bool" where
  "hi_ordered cmp tmp R1 \<longleftrightarrow>
     total_order cmp \<and> nondecreasing cmp tmp \<and> tmp \<noteq> [] \<and> (\<forall>x\<in>R1. cmp (hd tmp) x < 0)"

text \<open>What holds when a loop of \<open>mergeHi\<close> is left from the state \<open>st\<close>.\<close>

definition hi_post ::
  "'a list \<Rightarrow> 'a list \<Rightarrow> 'a multiset \<Rightarrow> 'a set \<Rightarrow> 'a list \<Rightarrow> 'a comparator
     \<Rightarrow> 'a merge_state \<Rightarrow> 'a loop_exit \<Rightarrow> bool" where
  "hi_post P T M R1 tmp cmp st r =
     (case r of
        BreakOuter s \<Rightarrow>
          hi_inv P T M R1 tmp s \<and>
          ((len1 s = 0 \<and> 2 \<le> len2 s) \<or> (len2 s \<le> 1 \<and> 1 \<le> len1 s)) \<and>
          (hi_ordered cmp tmp R1 \<longrightarrow> len2 s \<noteq> 0) \<and> walks st s
      | Fallthrough s \<Rightarrow>
          hi_inv P T M R1 tmp s \<and> 1 \<le> len1 s \<and> 2 \<le> len2 s \<and>
          len1 s + len2 s < len1 st + len2 st \<and> walks st s)"

text \<open>
  The precondition that the source states for \<open>mergeLo\<close> and \<open>mergeHi\<close>: the runs
  are sorted, the first element of run 1 is greater than the first element of run 2,
  and the last element of run 1 is greater than every element of run 2.
\<close>

definition merge_pre :: "'a comparator \<Rightarrow> 'a list \<Rightarrow> int \<Rightarrow> int \<Rightarrow> int \<Rightarrow> int \<Rightarrow> bool" where
  "merge_pre cmp a base1 l1 base2 l2 \<longleftrightarrow>
     total_order cmp \<and>
     nondecreasing cmp (slice a (nat base1) (nat (base1 + l1))) \<and>
     nondecreasing cmp (slice a (nat base2) (nat (base2 + l2))) \<and>
     cmp (a ! nat base2) (a ! nat base1) < 0 \<and>
     (\<forall>x\<in>set (slice a (nat base2) (nat (base2 + l2))). cmp x (a ! nat (base1 + l1 - 1)) < 0)"

text \<open>
  The range \<open>[lo, hi)\<close> of \<open>a'\<close> holds the elements that it held in \<open>a\<close>, each as
  often, and the rest of the array is as in \<open>a\<close>.
\<close>

definition merged_range :: "'a list \<Rightarrow> nat \<Rightarrow> nat \<Rightarrow> 'a list \<Rightarrow> bool" where
  "merged_range a lo hi a' \<longleftrightarrow>
     length a' = length a \<and> take lo a' = take lo a \<and> drop hi a' = drop hi a \<and>
     mset (slice a' lo hi) = mset (slice a lo hi)"




text \<open>
  An example for galloping: integers compared by their difference; a run of 66 elements
  followed by a run of 10, in which run 1 wins eight galloping iterations in a row.
\<close>

definition by_difference :: "int comparator" where
  "by_difference x y = x - y"



section \<open>Properties\<close>

subsection \<open>Arrays within bounds\<close>

lemma aget_in [simp]: "i < length a \<Longrightarrow> aget u a i = a ! i"
  by (simp add: aget_def)

lemma aset_in [simp]: "i < length a \<Longrightarrow> aset u a i v = a[i := v]"
  by (simp add: aset_def)

lemma copy_down_in:
  "len \<le> length t \<Longrightarrow> dpos + len \<le> length d \<Longrightarrow>
   copy_down u t d dpos len = take dpos d @ take len t @ drop (dpos + len) d"
proof (induction len arbitrary: d)
  case 0
  then show ?case by simp
next
  case (Suc len)
  have "copy_down u t d dpos (Suc len) = copy_down u t (d[dpos + len := t ! len]) dpos len"
    using Suc.prems by simp
  also have "\<dots> = take dpos (d[dpos + len := t ! len]) @ take len t
      @ drop (dpos + len) (d[dpos + len := t ! len])"
    using Suc.prems by (intro Suc.IH) auto
  also have "\<dots> = take dpos d @ take (Suc len) t @ drop (dpos + Suc len) d"
    using Suc.prems by (simp add: take_Suc_conv_app_nth drop_update_cancel upd_conv_take_nth_drop)
  finally show ?case .
qed

lemma arraycopy_in:
  "spos + len \<le> length s \<Longrightarrow> dpos + len \<le> length d \<Longrightarrow>
   arraycopy u s spos d dpos len = take dpos d @ slice s spos (spos + len) @ drop (dpos + len) d"
  by (simp add: arraycopy_def slice_def copy_down_in)

subsection \<open>Reversal\<close>

lemma reverse_loop_in:
  "hi < length a \<Longrightarrow>
   length (reverse_loop u a lo hi) = length a \<and>
   (\<forall>i < length a. reverse_loop u a lo hi ! i =
       (if lo \<le> i \<and> i \<le> hi then a ! (lo + hi - i) else a ! i))"
proof (induction u a lo hi rule: reverse_loop.induct)
  case (1 u a lo hi)
  show ?case
  proof (cases "lo < hi")
    case True
    let ?a2 = "(a[lo := a ! hi])[hi := a ! lo]"
    have step: "reverse_loop u a lo hi = reverse_loop u ?a2 (lo + 1) (hi - 1)"
      using True "1.prems" by (subst reverse_loop.simps) (simp add: Let_def)
    have IH: "length (reverse_loop u ?a2 (lo + 1) (hi - 1)) = length ?a2 \<and>
       (\<forall>i < length ?a2. reverse_loop u ?a2 (lo + 1) (hi - 1) ! i =
          (if lo + 1 \<le> i \<and> i \<le> hi - 1 then ?a2 ! (lo + 1 + (hi - 1) - i) else ?a2 ! i))"
      using "1.IH"[of "a ! lo" "a[lo := a ! hi]" ?a2] True "1.prems"
      by (simp add: Let_def)
    show ?thesis
      unfolding step using IH True "1.prems"
      by (auto simp: nth_list_update)
  next
    case False
    then show ?thesis
      by (subst reverse_loop.simps, subst (2) reverse_loop.simps) (auto intro: arg_cong)
  qed
qed

lemma reverse_loop_stop: "\<not> lo < hi \<Longrightarrow> reverse_loop u a lo hi = a"
  by (subst reverse_loop.simps) simp

lemma reverseRange_in:
  assumes "lo \<le> hi" "hi \<le> length a"
  shows "reverseRange u a lo hi = take lo a @ rev (slice a lo hi) @ drop hi a"
proof (cases "lo < hi")
  case False
  with assms have "lo = hi" by simp
  then show ?thesis
    by (simp add: reverseRange_def reverse_loop_stop slice_def)
next
  case True
  with assms have h: "hi - 1 < length a" by simp
  note R = reverse_loop_in[OF h, of u lo]
  show ?thesis
    unfolding reverseRange_def
  proof (rule nth_equalityI)
    show "length (reverse_loop u a lo (hi - 1)) = length (take lo a @ rev (slice a lo hi) @ drop hi a)"
      using R assms by (simp add: slice_def)
  next
    fix i assume "i < length (reverse_loop u a lo (hi - 1))"
    then have i: "i < length a" using R by simp
    have "(take lo a @ rev (slice a lo hi) @ drop hi a) ! i =
        (if lo \<le> i \<and> i \<le> hi - 1 then a ! (lo + (hi - 1) - i) else a ! i)"
      using i assms True
      by (auto simp: nth_append slice_def rev_nth min_def intro!: arg_cong[where f="nth a"])
    then show "reverse_loop u a lo (hi - 1) ! i = (take lo a @ rev (slice a lo hi) @ drop hi a) ! i"
      using R i by simp
  qed
qed

subsection \<open>Comparators\<close>

lemma total_order_refl: "total_order cmp \<Longrightarrow> cmp x x = 0"
  unfolding total_order_def by (metis less_le_not_le linorder_neqE_linordered_idom)

lemma total_order_flip: "total_order cmp \<Longrightarrow> (0 \<le> cmp x y) = (cmp y x \<le> 0)"
  unfolding total_order_def by (metis not_le)

lemma total_order_flip_less: "total_order cmp \<Longrightarrow> (cmp x y < 0) = (0 < cmp y x)"
  unfolding total_order_def by blast

lemma total_order_trans:
  "total_order cmp \<Longrightarrow> cmp x y \<le> 0 \<Longrightarrow> cmp y z \<le> 0 \<Longrightarrow> cmp x z \<le> 0"
  unfolding total_order_def by blast

lemma total_order_less_le_trans:
  assumes "total_order cmp" "cmp x y < 0" "cmp y z \<le> 0"
  shows "cmp x z < 0"
proof (rule ccontr)
  assume "\<not> cmp x z < 0"
  then have "cmp z x \<le> 0" using total_order_flip[OF assms(1), of x z] by simp
  with assms(3) have "cmp y x \<le> 0" using total_order_trans[OF assms(1)] by blast
  then have "0 \<le> cmp x y" using total_order_flip[OF assms(1), of x y] by simp
  with assms(2) show False by simp
qed

lemma total_order_le_less_trans:
  assumes "total_order cmp" "cmp x y \<le> 0" "cmp y z < 0"
  shows "cmp x z < 0"
proof (rule ccontr)
  assume "\<not> cmp x z < 0"
  then have "cmp z x \<le> 0" using total_order_flip[OF assms(1), of x z] by simp
  with assms(2) have "cmp z y \<le> 0" using total_order_trans[OF assms(1)] by blast
  then have "0 \<le> cmp y z" using total_order_flip[OF assms(1), of y z] by simp
  with assms(3) show False by simp
qed

lemma total_order_less_trans:
  "total_order cmp \<Longrightarrow> cmp x y < 0 \<Longrightarrow> cmp y z < 0 \<Longrightarrow> cmp x z < 0"
  using total_order_less_le_trans[of cmp x y z] by simp

lemma total_order_sub: "total_order (\<lambda>a b :: int. a - b)"
  by (auto simp: total_order_def)

subsection \<open>Run detection\<close>

lemma ascending_loop_spec:
  assumes "runHi \<le> hi" "hi \<le> length a"
  shows "\<exists>r tr'. ascending_loop u cmp a hi runHi tr = (r, tr') \<and> runHi \<le> r \<and> r \<le> hi \<and>
           (\<forall>i. runHi \<le> i \<and> i < r \<longrightarrow> 0 \<le> cmp (a ! i) (a ! (i - 1))) \<and>
           (r < hi \<longrightarrow> cmp (a ! r) (a ! (r - 1)) < 0) \<and>
           tr' = tr @ map (\<lambda>i. Compare RunDetection (a ! i) (a ! (i - 1)))
                        [runHi ..< (if r < hi then r + 1 else r)]"
  using assms
proof (induction u cmp a hi runHi tr rule: ascending_loop.induct)
  case (1 u cmp a hi runHi tr)
  show ?case
  proof (cases "runHi < hi")
    case False
    then show ?thesis using "1.prems"
      by (subst ascending_loop.simps) simp
  next
    case True
    let ?e = "Compare RunDetection (a ! runHi) (a ! (runHi - 1))"
    show ?thesis
    proof (cases "0 \<le> cmp (a ! runHi) (a ! (runHi - 1))")
      case False
      then show ?thesis using True "1.prems"
        by (subst ascending_loop.simps) (simp add: Let_def)
    next
      case ge: True
      have step: "ascending_loop u cmp a hi runHi tr = ascending_loop u cmp a hi (runHi + 1) (tr @ [?e])"
        using True ge "1.prems" by (subst ascending_loop.simps) (simp add: Let_def)
      from "1.IH"[OF True refl refl refl] ge True "1.prems"
      obtain r tr' where r: "ascending_loop u cmp a hi (runHi + 1) (tr @ [?e]) = (r, tr')"
        "runHi + 1 \<le> r" "r \<le> hi"
        "\<forall>i. runHi + 1 \<le> i \<and> i < r \<longrightarrow> 0 \<le> cmp (a ! i) (a ! (i - 1))"
        "r < hi \<longrightarrow> cmp (a ! r) (a ! (r - 1)) < 0"
        "tr' = (tr @ [?e]) @ map (\<lambda>i. Compare RunDetection (a ! i) (a ! (i - 1)))
                        [runHi + 1 ..< (if r < hi then r + 1 else r)]"
        by auto
      have "\<forall>i. runHi \<le> i \<and> i < r \<longrightarrow> 0 \<le> cmp (a ! i) (a ! (i - 1))"
        using r(4) ge by (metis Suc_eq_plus1 Suc_leI le_neq_implies_less)
      moreover have "tr' = tr @ map (\<lambda>i. Compare RunDetection (a ! i) (a ! (i - 1)))
                        [runHi ..< (if r < hi then r + 1 else r)]"
        using r(6) r(2) by (simp add: upt_conv_Cons)
      ultimately show ?thesis
        unfolding step using r by auto
    qed
  qed
qed

lemma descending_loop_spec:
  assumes "runHi \<le> hi" "hi \<le> length a"
  shows "\<exists>r tr'. descending_loop u cmp a hi runHi tr = (r, tr') \<and> runHi \<le> r \<and> r \<le> hi \<and>
           (\<forall>i. runHi \<le> i \<and> i < r \<longrightarrow> cmp (a ! i) (a ! (i - 1)) < 0) \<and>
           (r < hi \<longrightarrow> 0 \<le> cmp (a ! r) (a ! (r - 1))) \<and>
           tr' = tr @ map (\<lambda>i. Compare RunDetection (a ! i) (a ! (i - 1)))
                        [runHi ..< (if r < hi then r + 1 else r)]"
  using assms
proof (induction u cmp a hi runHi tr rule: descending_loop.induct)
  case (1 u cmp a hi runHi tr)
  show ?case
  proof (cases "runHi < hi")
    case False
    then show ?thesis using "1.prems"
      by (subst descending_loop.simps) simp
  next
    case True
    let ?e = "Compare RunDetection (a ! runHi) (a ! (runHi - 1))"
    show ?thesis
    proof (cases "cmp (a ! runHi) (a ! (runHi - 1)) < 0")
      case False
      then show ?thesis using True "1.prems"
        by (subst descending_loop.simps) (simp add: Let_def)
    next
      case lt: True
      have step: "descending_loop u cmp a hi runHi tr = descending_loop u cmp a hi (runHi + 1) (tr @ [?e])"
        using True lt "1.prems" by (subst descending_loop.simps) (simp add: Let_def)
      from "1.IH"[OF True refl refl refl] lt True "1.prems"
      obtain r tr' where r: "descending_loop u cmp a hi (runHi + 1) (tr @ [?e]) = (r, tr')"
        "runHi + 1 \<le> r" "r \<le> hi"
        "\<forall>i. runHi + 1 \<le> i \<and> i < r \<longrightarrow> cmp (a ! i) (a ! (i - 1)) < 0"
        "r < hi \<longrightarrow> 0 \<le> cmp (a ! r) (a ! (r - 1))"
        "tr' = (tr @ [?e]) @ map (\<lambda>i. Compare RunDetection (a ! i) (a ! (i - 1)))
                        [runHi + 1 ..< (if r < hi then r + 1 else r)]"
        by auto
      have "\<forall>i. runHi \<le> i \<and> i < r \<longrightarrow> cmp (a ! i) (a ! (i - 1)) < 0"
        using r(4) lt by (metis Suc_eq_plus1 Suc_leI le_neq_implies_less)
      moreover have "tr' = tr @ map (\<lambda>i. Compare RunDetection (a ! i) (a ! (i - 1)))
                        [runHi ..< (if r < hi then r + 1 else r)]"
        using r(6) r(2) by (simp add: upt_conv_Cons)
      ultimately show ?thesis
        unfolding step using r by auto
    qed
  qed
qed

lemma nth_slice: "i < e - b \<Longrightarrow> e \<le> length a \<Longrightarrow> slice a b e ! i = a ! (b + i)"
  by (simp add: slice_def)

lemma length_slice: "e \<le> length a \<Longrightarrow> length (slice a b e) = e - b"
  by (simp add: slice_def)

lemma adjacent_nondecreasing:
  assumes "total_order cmp" "hi \<le> length a"
    and "\<forall>i. lo < i \<and> i < hi \<longrightarrow> 0 \<le> cmp (a ! i) (a ! (i - 1))"
  shows "nondecreasing cmp (slice a lo hi)"
proof -
  have tr: "transp (\<lambda>x y. cmp x y \<le> 0)"
    using total_order_trans[OF assms(1)] by (auto simp: transp_def)
  have "\<forall>i. Suc i < length (slice a lo hi) \<longrightarrow> cmp (slice a lo hi ! i) (slice a lo hi ! Suc i) \<le> 0"
  proof (intro allI impI)
    fix i assume "Suc i < length (slice a lo hi)"
    then have i: "Suc i < hi - lo" using assms(2) by (simp add: length_slice)
    then have "0 \<le> cmp (a ! (lo + Suc i)) (a ! (lo + i))"
      using assms(3)[rule_format, of "lo + Suc i"] by simp
    then have "cmp (a ! (lo + i)) (a ! (lo + Suc i)) \<le> 0"
      using total_order_flip[OF assms(1)] by simp
    then show "cmp (slice a lo hi ! i) (slice a lo hi ! Suc i) \<le> 0"
      using i assms(2) by (simp add: nth_slice)
  qed
  then show ?thesis
    unfolding nondecreasing_def using sorted_wrt_iff_nth_Suc_transp[OF tr] by blast
qed

lemma adjacent_descending:
  assumes "total_order cmp" "hi \<le> length a"
    and "\<forall>i. lo < i \<and> i < hi \<longrightarrow> cmp (a ! i) (a ! (i - 1)) < 0"
  shows "sorted_wrt (\<lambda>x y. cmp y x < 0) (slice a lo hi)"
proof -
  have tr: "transp (\<lambda>x y. cmp y x < 0)"
    using total_order_less_trans[OF assms(1)] by (auto simp: transp_def)
  have "\<forall>i. Suc i < length (slice a lo hi) \<longrightarrow> cmp (slice a lo hi ! Suc i) (slice a lo hi ! i) < 0"
  proof (intro allI impI)
    fix i assume "Suc i < length (slice a lo hi)"
    then have i: "Suc i < hi - lo" using assms(2) by (simp add: length_slice)
    then have "cmp (a ! (lo + Suc i)) (a ! (lo + i)) < 0"
      using assms(3)[rule_format, of "lo + Suc i"] by simp
    then show "cmp (slice a lo hi ! Suc i) (slice a lo hi ! i) < 0"
      using i assms(2) by (simp add: nth_slice)
  qed
  then show ?thesis
    using sorted_wrt_iff_nth_Suc_transp[OF tr] by blast
qed

lemma descending_equals_short:
  assumes "total_order cmp" "sorted_wrt (\<lambda>x y. cmp y x < 0) xs"
  shows "length (filter (\<lambda>y. cmp x y = 0) xs) \<le> 1"
  using assms(2)
proof (induction xs)
  case Nil
  then show ?case by simp
next
  case (Cons z zs)
  show ?case
  proof (cases "cmp x z = 0")
    case False
    then show ?thesis using Cons by simp
  next
    case True
    have "filter (\<lambda>y. cmp x y = 0) zs = []"
    proof (rule ccontr)
      assume "filter (\<lambda>y. cmp x y = 0) zs \<noteq> []"
      then obtain w where w: "w \<in> set zs" "cmp x w = 0"
        by (auto simp: filter_empty_conv)
      then have wz: "cmp w z < 0" using Cons.prems by simp
      have "cmp z x \<le> 0" using True total_order_flip[OF assms(1), of x z] by simp
      moreover have "cmp x w \<le> 0" using w by simp
      ultimately have "cmp z w \<le> 0" using total_order_trans[OF assms(1)] by blast
      then have "0 \<le> cmp w z" using total_order_flip[OF assms(1), of w z] by simp
      with wz show False by simp
    qed
    then show ?thesis using True by simp
  qed
qed

lemma rev_short: "length xs \<le> 1 \<Longrightarrow> rev xs = xs"
  by (cases xs) auto

lemma descending_rev:
  assumes "total_order cmp" "sorted_wrt (\<lambda>x y. cmp y x < 0) xs"
  shows "nondecreasing cmp (rev xs)" "equals_keep_order cmp xs (rev xs)"
proof -
  have "sorted_wrt (\<lambda>x y. cmp x y < 0) (rev xs)"
    using assms(2) by (simp add: sorted_wrt_rev)
  then show "nondecreasing cmp (rev xs)"
    unfolding nondecreasing_def by (rule sorted_wrt_mono_rel[rotated]) simp
  show "equals_keep_order cmp xs (rev xs)"
    unfolding equals_keep_order_def
    using descending_equals_short[OF assms] by (simp add: rev_filter[symmetric] rev_short)
qed

lemma countRun_cases:
  assumes "lo < hi" "hi \<le> length a"
  shows "\<exists>r tr'. 1 \<le> r \<and> lo + r \<le> hi \<and>
     (countRunAndMakeAscending u cmp a lo hi tr = (a, r, tr') \<and>
        (\<forall>i. lo < i \<and> i < lo + r \<longrightarrow> 0 \<le> cmp (a ! i) (a ! (i - 1))) \<and>
        (lo + r < hi \<longrightarrow> cmp (a ! (lo + r)) (a ! (lo + r - 1)) < 0) \<and>
        tr' = tr @ map (\<lambda>i. Compare RunDetection (a ! i) (a ! (i - 1)))
                     [lo + 1 ..< (if lo + r < hi then lo + r + 1 else lo + r)]
      \<or>
      countRunAndMakeAscending u cmp a lo hi tr =
          (take lo a @ rev (slice a lo (lo + r)) @ drop (lo + r) a, r, tr') \<and>
        2 \<le> r \<and>
        (\<forall>i. lo < i \<and> i < lo + r \<longrightarrow> cmp (a ! i) (a ! (i - 1)) < 0) \<and>
        tr' = tr @ map (\<lambda>i. Compare RunDetection (a ! i) (a ! (i - 1)))
                     [lo + 1 ..< (if lo + r < hi then lo + r + 1 else lo + r)]
                 @ [Reverse lo (lo + r)])"
proof (cases "lo + 1 = hi")
  case True
  then have "countRunAndMakeAscending u cmp a lo hi tr = (a, 1, tr)"
    by (simp add: countRunAndMakeAscending_def)
  then show ?thesis using True
    by (intro exI[of _ 1] exI[of _ tr]) simp
next
  case False
  with assms have lt: "lo + 1 < hi" by simp
  let ?f = "\<lambda>i. Compare RunDetection (a ! i) (a ! (i - 1))"
  let ?tr1 = "tr @ [?f (lo + 1)]"
  have in1: "lo + 1 < length a" "lo < length a" using lt assms by auto
  show ?thesis
  proof (cases "cmp (a ! (lo + 1)) (a ! lo) < 0")
    case True
    from descending_loop_spec[of "lo + 2" hi a u cmp ?tr1] lt assms
    obtain r0 tr' where r0: "descending_loop u cmp a hi (lo + 2) ?tr1 = (r0, tr')"
      "lo + 2 \<le> r0" "r0 \<le> hi"
      "\<forall>i. lo + 2 \<le> i \<and> i < r0 \<longrightarrow> cmp (a ! i) (a ! (i - 1)) < 0"
      "tr' = ?tr1 @ map ?f [lo + 2 ..< (if r0 < hi then r0 + 1 else r0)]"
      by auto
    define r where "r = r0 - lo"
    have r: "r0 = lo + r" "2 \<le> r" "1 \<le> r" "lo + r \<le> hi" using r0(2,3) by (auto simp: r_def)
    have eq: "countRunAndMakeAscending u cmp a lo hi tr =
        (reverseRange u a lo r0, r0 - lo, tr' @ [Reverse lo r0])"
      using False True in1 r0(1)
      by (simp add: countRunAndMakeAscending_def Let_def)
    have rev: "reverseRange u a lo r0 = take lo a @ rev (slice a lo r0) @ drop r0 a"
      using r0 assms by (intro reverseRange_in) auto
    have all: "\<forall>i. lo < i \<and> i < lo + r \<longrightarrow> cmp (a ! i) (a ! (i - 1)) < 0"
    proof (intro allI impI)
      fix i assume i: "lo < i \<and> i < lo + r"
      show "cmp (a ! i) (a ! (i - 1)) < 0"
      proof (cases "i = lo + 1")
        case True
        then show ?thesis using \<open>cmp (a ! (lo + 1)) (a ! lo) < 0\<close> by simp
      next
        case False
        then show ?thesis using i r0(4) r(1) by simp
      qed
    qed
    have trace: "tr' = tr @ map ?f [lo + 1 ..< (if lo + r < hi then lo + r + 1 else lo + r)]"
      using r0(5) r0(2) unfolding r(1) by (simp add: upt_conv_Cons)
    have eq': "countRunAndMakeAscending u cmp a lo hi tr =
          (take lo a @ rev (slice a lo (lo + r)) @ drop (lo + r) a, r,
           tr @ map ?f [lo + 1 ..< (if lo + r < hi then lo + r + 1 else lo + r)] @ [Reverse lo (lo + r)])"
      using eq rev trace unfolding r(1) by simp
    show ?thesis
      using eq' all r(2,3,4) by blast
  next
    case ge: False
    from ascending_loop_spec[of "lo + 2" hi a u cmp ?tr1] lt assms
    obtain r0 tr' where r0: "ascending_loop u cmp a hi (lo + 2) ?tr1 = (r0, tr')"
      "lo + 2 \<le> r0" "r0 \<le> hi"
      "\<forall>i. lo + 2 \<le> i \<and> i < r0 \<longrightarrow> 0 \<le> cmp (a ! i) (a ! (i - 1))"
      "r0 < hi \<longrightarrow> cmp (a ! r0) (a ! (r0 - 1)) < 0"
      "tr' = ?tr1 @ map ?f [lo + 2 ..< (if r0 < hi then r0 + 1 else r0)]"
      by auto
    define r where "r = r0 - lo"
    have r: "r0 = lo + r" "2 \<le> r" "1 \<le> r" "lo + r \<le> hi" using r0(2,3) by (auto simp: r_def)
    have eq: "countRunAndMakeAscending u cmp a lo hi tr = (a, r0 - lo, tr')"
      using False ge in1 r0(1)
      by (simp add: countRunAndMakeAscending_def Let_def)
    have all: "\<forall>i. lo < i \<and> i < lo + r \<longrightarrow> 0 \<le> cmp (a ! i) (a ! (i - 1))"
    proof (intro allI impI)
      fix i assume i: "lo < i \<and> i < lo + r"
      show "0 \<le> cmp (a ! i) (a ! (i - 1))"
      proof (cases "i = lo + 1")
        case True
        then show ?thesis using ge by simp
      next
        case False
        then show ?thesis using i r0(4) r(1) by simp
      qed
    qed
    have trace: "tr' = tr @ map ?f [lo + 1 ..< (if lo + r < hi then lo + r + 1 else lo + r)]"
      using r0(6) r0(2) unfolding r(1) by (simp add: upt_conv_Cons)
    have eq': "countRunAndMakeAscending u cmp a lo hi tr = (a, r,
           tr @ map ?f [lo + 1 ..< (if lo + r < hi then lo + r + 1 else lo + r)])"
      using eq trace unfolding r(1) by simp
    have stop: "lo + r < hi \<longrightarrow> cmp (a ! (lo + r)) (a ! (lo + r - 1)) < 0"
      using r0(5) unfolding r(1) .
    show ?thesis
      using eq' all stop r(3,4) by blast
  qed
qed

lemma slice_mid:
  "length pre = lo \<Longrightarrow> length xs = r \<Longrightarrow> slice (pre @ xs @ post) lo (lo + r) = xs"
  by (simp add: slice_def)

lemma split3: "lo \<le> hi \<Longrightarrow> hi \<le> length a \<Longrightarrow> a = take lo a @ slice a lo hi @ drop hi a"
proof -
  assume h: "lo \<le> hi" "hi \<le> length a"
  have "take hi a = take lo a @ slice a lo hi"
    using h by (simp add: slice_def) (metis le_add_diff_inverse take_add)
  then show ?thesis
    by (metis append.assoc append_take_drop_id)
qed

lemma countRun_sorted:
  assumes "total_order cmp" "lo < hi" "hi \<le> length a"
    and "countRunAndMakeAscending u cmp a lo hi tr = (a', r, tr')"
  shows "1 \<le> r \<and> lo + r \<le> hi \<and> length a' = length a \<and> take lo a' = take lo a \<and>
         drop (lo + r) a' = drop (lo + r) a \<and>
         nondecreasing cmp (slice a' lo (lo + r)) \<and>
         mset (slice a' lo (lo + r)) = mset (slice a lo (lo + r)) \<and>
         equals_keep_order cmp (slice a lo (lo + r)) (slice a' lo (lo + r))"
proof -
  from countRun_cases[OF assms(2,3), of u cmp tr]
  obtain r1 tr1 where c: "1 \<le> r1" "lo + r1 \<le> hi"
     "countRunAndMakeAscending u cmp a lo hi tr = (a, r1, tr1) \<and>
        (\<forall>i. lo < i \<and> i < lo + r1 \<longrightarrow> 0 \<le> cmp (a ! i) (a ! (i - 1)))
      \<or>
      countRunAndMakeAscending u cmp a lo hi tr =
          (take lo a @ rev (slice a lo (lo + r1)) @ drop (lo + r1) a, r1, tr1) \<and>
        (\<forall>i. lo < i \<and> i < lo + r1 \<longrightarrow> cmp (a ! i) (a ! (i - 1)) < 0)"
    by blast
  have r1: "r1 = r" using c(3) assms(4) by auto
  have len: "lo + r \<le> length a" using c(2) assms(3) r1 by simp
  from c(3) show ?thesis
  proof
    assume asc: "countRunAndMakeAscending u cmp a lo hi tr = (a, r1, tr1) \<and>
        (\<forall>i. lo < i \<and> i < lo + r1 \<longrightarrow> 0 \<le> cmp (a ! i) (a ! (i - 1)))"
    then have a': "a' = a" using assms(4) by simp
    have "nondecreasing cmp (slice a lo (lo + r))"
      using adjacent_nondecreasing[OF assms(1) len, of lo] asc r1 by simp
    then show ?thesis using a' c(1,2) r1 by (simp add: equals_keep_order_def)
  next
    assume desc: "countRunAndMakeAscending u cmp a lo hi tr =
          (take lo a @ rev (slice a lo (lo + r1)) @ drop (lo + r1) a, r1, tr1) \<and>
        (\<forall>i. lo < i \<and> i < lo + r1 \<longrightarrow> cmp (a ! i) (a ! (i - 1)) < 0)"
    then have a': "a' = take lo a @ rev (slice a lo (lo + r)) @ drop (lo + r) a"
      using assms(4) r1 by simp
    have d: "sorted_wrt (\<lambda>x y. cmp y x < 0) (slice a lo (lo + r))"
      using adjacent_descending[OF assms(1) len, of lo] desc r1 by simp
    have sl: "slice a' lo (lo + r) = rev (slice a lo (lo + r))"
      unfolding a' using len by (intro slice_mid) (simp_all add: length_slice)
    have "length a' = length a" "take lo a' = take lo a" "drop (lo + r) a' = drop (lo + r) a"
      unfolding a' using len by (simp_all add: length_slice)
    then show ?thesis
      using c(1,2) r1 sl descending_rev[OF assms(1) d] by simp
  qed
qed

subsection \<open>Binary insertion\<close>

lemma ushr1_small: "x < 2 ^ 32 \<Longrightarrow> ushr1 x = x div 2"
  by (simp add: ushr1_def)

lemma binary_search_total:
  assumes "left \<le> right" "right \<le> 2 ^ 31"
  shows "\<exists>l ev. binary_search u cmp pivot a left right tr = Some (l, tr @ ev) \<and>
           left \<le> l \<and> l \<le> right \<and> (\<forall>e \<in> set ev. \<exists>y. e = Compare BinaryInsertion pivot y)"
  using assms
proof (induction "right - left" arbitrary: left right tr rule: less_induct)
  case less
  show ?case
  proof (cases "left < right")
    case False
    then have "binary_search u cmp pivot a left right tr = Some (left, tr @ [])"
      by (subst binary_search.simps) simp
    then show ?thesis using less.prems by (intro exI[of _ left] exI[of _ "[]"]) simp
  next
    case True
    have "left + right < 2 ^ 32" using True less.prems by simp
    then have mid: "ushr1 (left + right) = (left + right) div 2" by (rule ushr1_small)
    define mid where "mid = (left + right) div 2"
    have m: "left \<le> mid" "mid < right" using True by (auto simp: mid_def)
    define e where "e = Compare BinaryInsertion pivot (aget u a mid)"
    show ?thesis
    proof (cases "cmp pivot (aget u a mid) < 0")
      case lt: True
      have step: "binary_search u cmp pivot a left right tr = binary_search u cmp pivot a left mid (tr @ [e])"
        using True lt mid by (subst binary_search.simps) (simp add: Let_def mid_def e_def)
      have d: "mid - left < right - left" using m by simp
      from less.hyps[OF d, of "tr @ [e]"] m less.prems
      obtain l ev where l: "binary_search u cmp pivot a left mid (tr @ [e]) = Some (l, (tr @ [e]) @ ev)"
        "left \<le> l" "l \<le> mid" "\<forall>e \<in> set ev. \<exists>y. e = Compare BinaryInsertion pivot y"
        by auto
      show ?thesis
        unfolding step using l m
        by (intro exI[of _ l] exI[of _ "e # ev"]) (auto simp: e_def)
    next
      case ge: False
      have step: "binary_search u cmp pivot a left right tr = binary_search u cmp pivot a (mid + 1) right (tr @ [e])"
        using True ge mid by (subst binary_search.simps) (simp add: Let_def mid_def e_def)
      have d: "right - (mid + 1) < right - left" using m by simp
      from less.hyps[OF d, of "tr @ [e]"] m less.prems
      obtain l ev where l: "binary_search u cmp pivot a (mid + 1) right (tr @ [e]) = Some (l, (tr @ [e]) @ ev)"
        "mid + 1 \<le> l" "l \<le> right" "\<forall>e \<in> set ev. \<exists>y. e = Compare BinaryInsertion pivot y"
        by auto
      show ?thesis
        unfolding step using l m
        by (intro exI[of _ l] exI[of _ "e # ev"]) (auto simp: e_def)
    qed
  qed
qed

lemma nth_insert_at:
  assumes "left \<le> start" "start < length a" "i < length a"
  shows "insert_at a left start ! i =
     (if i < left then a ! i else if i = left then a ! start
      else if i \<le> start then a ! (i - 1) else a ! i)"
  using assms
  by (auto simp: insert_at_def nth_append slice_def nth_Cons' min_def
           intro!: arg_cong[where f="nth a"])

lemma length_insert_at:
  "left \<le> start \<Longrightarrow> start < length a \<Longrightarrow> length (insert_at a left start) = length a"
  by (simp add: insert_at_def slice_def)

lemma slide_insert:
  assumes "left \<le> start" "start < length a"
  shows "aset u (slide u a left (start - left)) left (a ! start) = insert_at a left start"
proof -
  define n where "n = start - left"
  have n: "left + n = start" using assms by (simp add: n_def)
  have len: "length (slide u a left n) = length a \<and>
     (\<forall>i < length a. slide u a left n ! i =
        (if left < i \<and> i \<le> start then a ! (i - 1) else a ! i))"
  proof (cases "n = 2")
    case True
    then show ?thesis using n assms
      by (auto simp: slide_def Let_def nth_list_update)
  next
    case n2: False
    show ?thesis
    proof (cases "n = 1")
      case True
      then show ?thesis using n assms
        by (auto simp: slide_def Let_def nth_list_update)
    next
      case False
      have "slide u a left n = arraycopy u a left a (left + 1) n"
        using n2 False by (simp add: slide_def)
      also have "\<dots> = take (left + 1) a @ slice a left (left + n) @ drop (left + 1 + n) a"
        using n assms by (intro arraycopy_in) auto
      finally have eq: "slide u a left n = take (left + 1) a @ slice a left start @ drop (start + 1) a"
        using n by (simp add: add.commute add.left_commute)
      show ?thesis
        unfolding eq using n assms
        by (auto simp: nth_append slice_def min_def intro!: arg_cong[where f="nth a"])
    qed
  qed
  show ?thesis
  proof (rule nth_equalityI)
    show "length (aset u (slide u a left (start - left)) left (a ! start)) = length (insert_at a left start)"
      using len assms by (simp add: n_def length_insert_at)
  next
    fix i assume "i < length (aset u (slide u a left (start - left)) left (a ! start))"
    then have i: "i < length a" using len assms by (simp add: n_def)
    show "aset u (slide u a left (start - left)) left (a ! start) ! i = insert_at a left start ! i"
      using len i assms nth_insert_at[OF assms i]
      by (auto simp: n_def nth_list_update)
  qed
qed

lemma slice_append:
  "lo \<le> mid \<Longrightarrow> mid \<le> hi \<Longrightarrow> hi \<le> length a \<Longrightarrow> slice a lo hi = slice a lo mid @ slice a mid hi"
proof -
  assume h: "lo \<le> mid" "mid \<le> hi" "hi \<le> length a"
  have "take (hi - lo) (drop lo a) = take (mid - lo) (drop lo a) @ take (hi - mid) (drop (mid - lo) (drop lo a))"
    using h by (metis add_diff_cancel_left' le_add_diff_inverse take_add diff_add_assoc2 add.commute diff_diff_cancel nat_le_iff_add)
  then show ?thesis using h by (simp add: slice_def)
qed

lemma slice_whole: "slice a 0 (length a) = a"
  by (simp add: slice_def)

lemma insert_at_frame:
  assumes "lo \<le> left" "left \<le> start" "start < hi" "hi \<le> length a"
  shows "length (insert_at a left start) = length a"
    "take lo (insert_at a left start) = take lo a"
    "drop hi (insert_at a left start) = drop hi a"
    "mset (insert_at a left start) = mset a"
    "slice (insert_at a left start) lo (Suc start) = slice a lo left @ a ! start # slice a left start"
    "slice (insert_at a left start) (Suc start) hi = slice a (Suc start) hi"
proof -
  have st: "start < length a" using assms by simp
  show len: "length (insert_at a left start) = length a"
    using assms by (simp add: length_insert_at)
  show "take lo (insert_at a left start) = take lo a"
    using assms by (simp add: insert_at_def min_def)
  have dec: "insert_at a left start = (take left a @ a ! start # slice a left start) @ drop (Suc start) a"
    by (simp add: insert_at_def)
  have l1: "length (take left a @ a ! start # slice a left start) = Suc start"
    using assms by (simp add: slice_def)
  have dr: "drop (Suc start) (insert_at a left start) = drop (Suc start) a"
    by (metis dec l1 append_eq_conv_conj)
  have "drop hi (insert_at a left start) = drop (hi - Suc start) (drop (Suc start) (insert_at a left start))"
    using assms by simp
  also have "\<dots> = drop hi a" unfolding dr using assms by simp
  finally show "drop hi (insert_at a left start) = drop hi a" .
  have a: "a = take left a @ slice a left start @ a ! start # drop (Suc start) a"
    using split3[of left start a] assms st by (simp add: Cons_nth_drop_Suc)
  have "mset a = mset (take left a) + mset (slice a left start) + {#a ! start#} + mset (drop (Suc start) a)"
    by (subst a) simp
  then show "mset (insert_at a left start) = mset a"
    by (simp add: insert_at_def)
  have tl: "take left a = take lo a @ slice a lo left"
    using assms by (simp add: slice_def) (metis le_add_diff_inverse take_add)
  define M where "M = slice a lo left @ a ! start # slice a left start"
  have ia: "insert_at a left start = take lo a @ M @ drop (Suc start) a"
    by (simp add: insert_at_def tl M_def)
  have lM: "length M = Suc start - lo"
    using assms by (simp add: slice_def M_def)
  have llo: "length (take lo a) = lo" using assms by simp
  have "slice (take lo a @ M @ drop (Suc start) a) lo (lo + (Suc start - lo)) = M"
    using llo lM by (rule slice_mid)
  moreover have "lo + (Suc start - lo) = Suc start" using assms by simp
  ultimately show "slice (insert_at a left start) lo (Suc start) = slice a lo left @ a ! start # slice a left start"
    unfolding ia M_def by simp
  show "slice (insert_at a left start) (Suc start) hi = slice a (Suc start) hi"
    by (simp add: slice_def dr)
qed

lemma insert_sorted:
  assumes "nondecreasing cmp (S1 @ S2)" "\<forall>x\<in>set S1. cmp x p \<le> 0" "\<forall>y\<in>set S2. cmp p y \<le> 0"
  shows "nondecreasing cmp (S1 @ p # S2)"
  using assms by (simp add: nondecreasing_def sorted_wrt_append)

lemma insert_stable:
  assumes "total_order cmp" "\<forall>y\<in>set S2. cmp p y < 0"
  shows "equals_keep_order cmp (S1 @ S2 @ p # R) (S1 @ p # S2 @ R)"
  unfolding equals_keep_order_def
proof
  fix x
  show "filter (\<lambda>y. cmp x y = 0) (S1 @ p # S2 @ R) = filter (\<lambda>y. cmp x y = 0) (S1 @ S2 @ p # R)"
  proof (cases "cmp x p = 0")
    case False
    then show ?thesis by simp
  next
    case True
    have "\<forall>y\<in>set S2. cmp x y \<noteq> 0"
    proof
      fix y assume "y \<in> set S2"
      then have "cmp p y < 0" using assms(2) by simp
      then have "cmp x y < 0" using total_order_le_less_trans[OF assms(1), of x p y] True by simp
      then show "cmp x y \<noteq> 0" by simp
    qed
    then have "filter (\<lambda>y. cmp x y = 0) S2 = []" by (simp add: filter_empty_conv)
    then show ?thesis by simp
  qed
qed

lemma equals_keep_order_trans:
  "equals_keep_order cmp xs ys \<Longrightarrow> equals_keep_order cmp ys zs \<Longrightarrow> equals_keep_order cmp xs zs"
  by (simp add: equals_keep_order_def)

lemma equals_keep_order_refl: "equals_keep_order cmp xs xs"
  by (simp add: equals_keep_order_def)

lemma binarySort_loop_stop:
  "\<not> start < hi \<Longrightarrow> binarySort_loop u cmp a lo hi start tr = Some (a, tr)"
  by (subst binarySort_loop.simps) simp

lemma binarySort_loop_step:
  assumes "start < hi" "start < length a"
    and "binary_search u cmp (a ! start) a lo start tr = Some (left, tr1)" "left \<le> start"
  shows "binarySort_loop u cmp a lo hi start tr =
         binarySort_loop u cmp (insert_at a left start) lo hi (start + 1) tr1"
  using assms
  by (subst binarySort_loop.simps) (simp add: Let_def slide_insert)

lemma binarySort_loop_total:
  assumes "lo \<le> start" "hi \<le> length a" "hi \<le> 2 ^ 31"
  shows "\<exists>a' ev. binarySort_loop u cmp a lo hi start tr = Some (a', tr @ ev) \<and>
           length a' = length a \<and> take lo a' = take lo a \<and> drop hi a' = drop hi a \<and>
           mset a' = mset a \<and>
           (\<forall>e \<in> set ev. \<exists>x y. e = Compare BinaryInsertion x y) \<and>
           (hi \<le> start \<longrightarrow> a' = a \<and> ev = [])"
  using assms
proof (induction "hi - start" arbitrary: a start tr rule: less_induct)
  case less
  show ?case
  proof (cases "start < hi")
    case False
    then show ?thesis
      by (intro exI[of _ a] exI[of _ "[]"]) (simp add: binarySort_loop_stop)
  next
    case True
    have st: "start < length a" "start \<le> 2 ^ 31" using True less.prems by auto
    from binary_search_total[OF less.prems(1) st(2), of u cmp "a ! start" a tr]
    obtain l ev1 where l: "binary_search u cmp (a ! start) a lo start tr = Some (l, tr @ ev1)"
      "lo \<le> l" "l \<le> start" "\<forall>e \<in> set ev1. \<exists>y. e = Compare BinaryInsertion (a ! start) y"
      by blast
    let ?a2 = "insert_at a l start"
    note fr = insert_at_frame[OF l(2,3) True less.prems(2)]
    have step: "binarySort_loop u cmp a lo hi start tr = binarySort_loop u cmp ?a2 lo hi (start + 1) (tr @ ev1)"
      using True st(1) l(1,3) by (rule binarySort_loop_step)
    have d: "hi - (start + 1) < hi - start" using True by simp
    from less.hyps[OF d, of ?a2 "tr @ ev1"] less.prems fr(1)
    obtain a' ev2 where a': "binarySort_loop u cmp ?a2 lo hi (start + 1) (tr @ ev1) = Some (a', (tr @ ev1) @ ev2)"
      "length a' = length ?a2" "take lo a' = take lo ?a2" "drop hi a' = drop hi ?a2"
      "mset a' = mset ?a2" "\<forall>e \<in> set ev2. \<exists>x y. e = Compare BinaryInsertion x y"
      by auto
    show ?thesis
      unfolding step using a' fr l(4) True
      by (intro exI[of _ a'] exI[of _ "ev1 @ ev2"]) auto
  qed
qed

lemma nondecreasing_slice_nth:
  assumes "nondecreasing cmp (slice a lo hi)" "hi \<le> length a" "lo \<le> i" "i < j" "j < hi"
  shows "cmp (a ! i) (a ! j) \<le> 0"
proof -
  have "i - lo < j - lo" "j - lo < length (slice a lo hi)"
    using assms by (auto simp: length_slice)
  then have "cmp (slice a lo hi ! (i - lo)) (slice a lo hi ! (j - lo)) \<le> 0"
    using assms(1) unfolding nondecreasing_def by (simp add: sorted_wrt_iff_nth_less)
  then show ?thesis using assms by (simp add: nth_slice)
qed

lemma set_slice_nth:
  assumes "x \<in> set (slice a lo hi)" "hi \<le> length a"
  shows "\<exists>i. lo \<le> i \<and> i < hi \<and> x = a ! i"
proof -
  from assms(1) obtain k where k: "k < length (slice a lo hi)" "x = slice a lo hi ! k"
    by (auto simp: in_set_conv_nth)
  then have "k < hi - lo" using assms(2) by (simp add: length_slice)
  then show ?thesis using k assms(2) by (intro exI[of _ "lo + k"]) (simp add: nth_slice)
qed

subsection \<open>The driver\<close>

lemma mergeCollapse_stop: "\<not> 1 < stackSize st \<Longrightarrow> mergeCollapse u a st tr = (st, tr)"
  by (subst mergeCollapse.simps) simp

lemma mergeForceCollapse_stop:
  "\<not> 1 < stackSize st \<Longrightarrow> mergeForceCollapse u a st tr = (st, tr)"
  by (subst mergeForceCollapse.simps) simp

lemma sort_loop_once:
  assumes "countRunAndMakeAscending u cmp a 0 hi [] = (a1, r, tr1)"
    and "r < n + 1"
    and "binarySort u cmp a1 0 n r tr1 = Some (a2, tr2)"
  shows "sort_loop u cmp hi (n + 1) a 0 n empty_stack [] =
     Some \<lparr>global_a = a2, stack = one_run n, trace = tr2 @ [PushRun 0 n]\<rparr>"
  using assms
  by (subst sort_loop.simps)
     (simp add: pushRun_def empty_stack_def one_run_def mergeCollapse_stop aset_def)

lemma countRun_frame:
  assumes "lo < hi" "hi \<le> length a"
    and "countRunAndMakeAscending u cmp a lo hi tr = (a', r, tr')"
  shows "1 \<le> r \<and> lo + r \<le> hi \<and> length a' = length a \<and> mset a' = mset a \<and>
     (\<exists>ev. tr' = tr @ ev \<and>
        (\<forall>e\<in>set ev. (\<exists>x y. e = Compare RunDetection x y) \<or>
            (\<exists>l h. e = Reverse l h \<and> (\<forall>i. l < i \<and> i < h \<longrightarrow> cmp (a ! i) (a ! (i - 1)) < 0))))"
proof -
  let ?f = "\<lambda>i. Compare RunDetection (a ! i) (a ! (i - 1))"
  from countRun_cases[OF assms(1,2), of u cmp tr]
  obtain r1 tr1 where c: "1 \<le> r1" "lo + r1 \<le> hi"
     "countRunAndMakeAscending u cmp a lo hi tr = (a, r1, tr1) \<and>
        tr1 = tr @ map ?f [lo + 1 ..< (if lo + r1 < hi then lo + r1 + 1 else lo + r1)]
      \<or>
      countRunAndMakeAscending u cmp a lo hi tr =
          (take lo a @ rev (slice a lo (lo + r1)) @ drop (lo + r1) a, r1, tr1) \<and>
        (\<forall>i. lo < i \<and> i < lo + r1 \<longrightarrow> cmp (a ! i) (a ! (i - 1)) < 0) \<and>
        tr1 = tr @ map ?f [lo + 1 ..< (if lo + r1 < hi then lo + r1 + 1 else lo + r1)]
                 @ [Reverse lo (lo + r1)]"
    by blast
  have r1: "r1 = r" "tr1 = tr'" using c(3) assms(3) by auto
  have len: "lo + r \<le> length a" using c(2) assms(2) r1 by simp
  from c(3) show ?thesis
  proof
    assume asc: "countRunAndMakeAscending u cmp a lo hi tr = (a, r1, tr1) \<and>
        tr1 = tr @ map ?f [lo + 1 ..< (if lo + r1 < hi then lo + r1 + 1 else lo + r1)]"
    then have "a' = a" using assms(3) by simp
    moreover have "\<exists>ev. tr' = tr @ ev \<and>
        (\<forall>e\<in>set ev. (\<exists>x y. e = Compare RunDetection x y) \<or>
            (\<exists>l h. e = Reverse l h \<and> (\<forall>i. l < i \<and> i < h \<longrightarrow> cmp (a ! i) (a ! (i - 1)) < 0)))"
      using asc r1 by (intro exI[of _ "map ?f [lo + 1 ..< (if lo + r1 < hi then lo + r1 + 1 else lo + r1)]"]) auto
    ultimately show ?thesis using c(1,2) r1 by simp
  next
    assume desc: "countRunAndMakeAscending u cmp a lo hi tr =
          (take lo a @ rev (slice a lo (lo + r1)) @ drop (lo + r1) a, r1, tr1) \<and>
        (\<forall>i. lo < i \<and> i < lo + r1 \<longrightarrow> cmp (a ! i) (a ! (i - 1)) < 0) \<and>
        tr1 = tr @ map ?f [lo + 1 ..< (if lo + r1 < hi then lo + r1 + 1 else lo + r1)]
                 @ [Reverse lo (lo + r1)]"
    then have a': "a' = take lo a @ rev (slice a lo (lo + r)) @ drop (lo + r) a"
      using assms(3) r1 by simp
    have "mset a = mset (take lo a) + mset (slice a lo (lo + r)) + mset (drop (lo + r) a)"
      by (subst split3[of lo "lo + r" a]) (use len in simp_all)
    then have m: "mset a' = mset a" unfolding a' by simp
    then have l: "length a' = length a" by (metis size_mset)
    have "\<exists>ev. tr' = tr @ ev \<and>
        (\<forall>e\<in>set ev. (\<exists>x y. e = Compare RunDetection x y) \<or>
            (\<exists>l h. e = Reverse l h \<and> (\<forall>i. l < i \<and> i < h \<longrightarrow> cmp (a ! i) (a ! (i - 1)) < 0)))"
      using desc r1
      by (intro exI[of _ "map ?f [lo + 1 ..< (if lo + r1 < hi then lo + r1 + 1 else lo + r1)] @ [Reverse lo (lo + r1)]"]) auto
    then show ?thesis using c(1,2) r1 m l by simp
  qed
qed

text \<open>The engine runs one run detection and one binary insertion sort, whatever the length.\<close>

lemma timsort_unfold:
  assumes "2 \<le> length xs"
    and "countRunAndMakeAscending u cmp xs 0 (length xs) [] = (a1, r, tr1)"
    and "1 \<le> r" "r \<le> length xs"
    and "binarySort_loop u cmp a1 0 (length xs) r tr1 = Some (a2, tr2)"
  shows "timsort u cmp xs = Some (Inr \<lparr>global_a = a2,
        stack = (if length xs < 32 then empty_stack else one_run (length xs)),
        trace = tr2 @ (if length xs < 32 then [] else [PushRun 0 (length xs)])\<rparr>)"
proof -
  let ?n = "length xs"
  have bs': "binarySort u cmp a1 0 ?n r tr1 = Some (a2, tr2)"
    using assms(3,5) by (simp add: binarySort_def)
  show ?thesis
  proof (cases "?n < 32")
    case True
    then show ?thesis using assms(1,2) bs'
      by (simp add: timsort_def sort_range_def rangeCheck_def MIN_MERGE_def empty_stack_def)
  next
    case False
    have "sort_loop u cmp ?n (?n + 1) xs 0 ?n empty_stack [] =
       Some \<lparr>global_a = a2, stack = one_run ?n, trace = tr2 @ [PushRun 0 ?n]\<rparr>"
      using assms(2) _ bs' by (rule sort_loop_once) (use assms(4) in simp)
    then show ?thesis using False assms(1)
      by (simp add: timsort_def sort_range_def rangeCheck_def MIN_MERGE_def minRunLength_def
          empty_stack_def[symmetric] mergeForceCollapse_stop one_run_def Let_def)
  qed
qed

lemma timsort_shape:
  assumes "2 \<le> length xs" "length xs \<le> 2 ^ 31"
  shows "\<exists>a1 r tr1 a2 ev.
     countRunAndMakeAscending u cmp xs 0 (length xs) [] = (a1, r, tr1) \<and>
     1 \<le> r \<and> r \<le> length xs \<and> length a1 = length xs \<and>
     binarySort_loop u cmp a1 0 (length xs) r tr1 = Some (a2, tr1 @ ev) \<and>
     timsort u cmp xs = Some (Inr \<lparr>global_a = a2,
        stack = (if length xs < 32 then empty_stack else one_run (length xs)),
        trace = tr1 @ ev @ (if length xs < 32 then [] else [PushRun 0 (length xs)])\<rparr>)"
proof -
  let ?n = "length xs"
  obtain a1 r tr1 where cr: "countRunAndMakeAscending u cmp xs 0 ?n [] = (a1, r, tr1)"
    by (metis prod_cases3)
  have pos: "0 < ?n" using assms(1) by (cases xs) auto
  have fr: "1 \<le> r" "r \<le> ?n" "length a1 = ?n"
    using countRun_frame[OF pos le_refl cr] by auto
  from binarySort_loop_total[of 0 r ?n a1 u cmp tr1] fr assms
  obtain a2 ev where bs: "binarySort_loop u cmp a1 0 ?n r tr1 = Some (a2, tr1 @ ev)"
    by auto
  show ?thesis
    using timsort_unfold[OF assms(1) cr fr(1,2) bs] cr fr bs by simp
qed

lemma timsort_short:
  "length xs < 2 \<Longrightarrow>
   timsort u cmp xs = Some (Inr \<lparr>global_a = xs, stack = empty_stack, trace = []\<rparr>)"
  by (simp add: timsort_def sort_range_def rangeCheck_def empty_stack_def)

lemma equals_keep_order_prefix:
  assumes "equals_keep_order cmp (slice a lo hi) (slice a' lo hi)"
    "take lo a' = take lo a" "drop hi a' = drop hi a" "length a' = length a"
    "lo \<le> hi" "hi \<le> length a"
  shows "equals_keep_order cmp a a'"
proof -
  have "a = take lo a @ slice a lo hi @ drop hi a" using assms by (intro split3) auto
  moreover have "a' = take lo a @ slice a' lo hi @ drop hi a"
    using split3[of lo hi a'] assms by simp
  ultimately show ?thesis
    using assms(1) unfolding equals_keep_order_def
    by (metis filter_append)
qed

lemma timsort_of_sorted:
  assumes to: "total_order cmp" and n: "2 \<le> length xs" and srt: "nondecreasing cmp xs"
  shows "timsort u cmp xs = Some (Inr \<lparr>global_a = xs,
        stack = (if length xs < 32 then empty_stack else one_run (length xs)),
        trace = run_detection_pass xs @ (if length xs < 32 then [] else [PushRun 0 (length xs)])\<rparr>)"
proof -
  let ?n = "length xs"
  let ?f = "\<lambda>i. Compare RunDetection (xs ! i) (xs ! (i - 1))"
  have pos: "0 < ?n" using n by (cases xs) auto
  have adj: "0 \<le> cmp (xs ! i) (xs ! (i - 1))" if "0 < i" "i < ?n" for i
  proof -
    have "cmp (xs ! (i - 1)) (xs ! i) \<le> 0"
      using srt that unfolding nondecreasing_def by (simp add: sorted_wrt_iff_nth_less)
    then show ?thesis using total_order_flip[OF to, of "xs ! i" "xs ! (i - 1)"] by simp
  qed
  from countRun_cases[OF pos le_refl, of u cmp "[]"]
  obtain r tr' where c: "1 \<le> r" "0 + r \<le> ?n"
     "countRunAndMakeAscending u cmp xs 0 ?n [] = (xs, r, tr') \<and>
        (0 + r < ?n \<longrightarrow> cmp (xs ! (0 + r)) (xs ! (0 + r - 1)) < 0) \<and>
        tr' = [] @ map ?f [0 + 1 ..< (if 0 + r < ?n then 0 + r + 1 else 0 + r)]
      \<or>
      2 \<le> r \<and> (\<forall>i. 0 < i \<and> i < 0 + r \<longrightarrow> cmp (xs ! i) (xs ! (i - 1)) < 0)"
    by blast
  have nodesc: "\<not> (2 \<le> r \<and> (\<forall>i. 0 < i \<and> i < 0 + r \<longrightarrow> cmp (xs ! i) (xs ! (i - 1)) < 0))"
  proof
    assume d: "2 \<le> r \<and> (\<forall>i. 0 < i \<and> i < 0 + r \<longrightarrow> cmp (xs ! i) (xs ! (i - 1)) < 0)"
    then have "0 < (1::nat) \<and> 1 < 0 + r \<longrightarrow> cmp (xs ! 1) (xs ! (1 - 1)) < 0" by blast
    with d have "cmp (xs ! 1) (xs ! (1 - 1)) < 0" by simp
    moreover have "0 \<le> cmp (xs ! 1) (xs ! (1 - 1))" using adj[of 1] n by simp
    ultimately show False by simp
  qed
  with c(3) have asc: "countRunAndMakeAscending u cmp xs 0 ?n [] = (xs, r, tr')"
    "0 + r < ?n \<longrightarrow> cmp (xs ! (0 + r)) (xs ! (0 + r - 1)) < 0"
    "tr' = [] @ map ?f [0 + 1 ..< (if 0 + r < ?n then 0 + r + 1 else 0 + r)]"
    by blast+
  have r: "r = ?n"
  proof (rule ccontr)
    assume "r \<noteq> ?n"
    then have lt: "r < ?n" using c(2) by simp
    then have "cmp (xs ! r) (xs ! (r - 1)) < 0" using asc(2) by simp
    moreover have "0 \<le> cmp (xs ! r) (xs ! (r - 1))" using adj[of r] lt c(1) by simp
    ultimately show False by simp
  qed
  have tr': "tr' = run_detection_pass xs"
    using asc(3) r by (simp add: run_detection_pass_def)
  have bs: "binarySort_loop u cmp xs 0 ?n r tr' = Some (xs, tr')"
    using r by (simp add: binarySort_loop_stop)
  show ?thesis
    using timsort_unfold[OF n asc(1) c(1) _ bs] r tr' by simp
qed

lemma length_comparisons_run_detection_pass:
  "length (comparisons (run_detection_pass xs @ tr)) = length xs - 1 + length (comparisons tr)"
  by (simp add: comparisons_def run_detection_pass_def length_concat comp_def sum_list_triv)

subsection \<open>The comparator is consulted on elements of the input only\<close>

lemma ascending_loop_cong:
  assumes "\<forall>x\<in>set a. \<forall>y\<in>set a. cmp' x y = cmp x y" "0 < runHi" "hi \<le> length a"
  shows "ascending_loop u cmp' a hi runHi tr = ascending_loop u cmp a hi runHi tr"
  using assms
proof (induction "hi - runHi" arbitrary: runHi tr rule: less_induct)
  case less
  show ?case
  proof (cases "runHi < hi")
    case False
    then show ?thesis by (simp add: ascending_loop.simps[of _ _ _ hi runHi])
  next
    case True
    then have in1: "runHi < length a" "runHi - 1 < length a" using less.prems by auto
    then have eq: "cmp' (a ! runHi) (a ! (runHi - 1)) = cmp (a ! runHi) (a ! (runHi - 1))"
      using less.prems(1) by simp
    have d: "hi - (runHi + 1) < hi - runHi" using True by simp
    note IH = less.hyps[OF d less.prems(1) _ less.prems(3)]
    show ?thesis
      using True in1 eq IH
      by (subst ascending_loop.simps, subst (2) ascending_loop.simps) (simp add: Let_def)
  qed
qed

lemma descending_loop_cong:
  assumes "\<forall>x\<in>set a. \<forall>y\<in>set a. cmp' x y = cmp x y" "0 < runHi" "hi \<le> length a"
  shows "descending_loop u cmp' a hi runHi tr = descending_loop u cmp a hi runHi tr"
  using assms
proof (induction "hi - runHi" arbitrary: runHi tr rule: less_induct)
  case less
  show ?case
  proof (cases "runHi < hi")
    case False
    then show ?thesis by (simp add: descending_loop.simps[of _ _ _ hi runHi])
  next
    case True
    then have in1: "runHi < length a" "runHi - 1 < length a" using less.prems by auto
    then have eq: "cmp' (a ! runHi) (a ! (runHi - 1)) = cmp (a ! runHi) (a ! (runHi - 1))"
      using less.prems(1) by simp
    have d: "hi - (runHi + 1) < hi - runHi" using True by simp
    note IH = less.hyps[OF d less.prems(1) _ less.prems(3)]
    show ?thesis
      using True in1 eq IH
      by (subst descending_loop.simps, subst (2) descending_loop.simps) (simp add: Let_def)
  qed
qed

lemma countRun_cong:
  assumes "\<forall>x\<in>set a. \<forall>y\<in>set a. cmp' x y = cmp x y" "lo < hi" "hi \<le> length a"
  shows "countRunAndMakeAscending u cmp' a lo hi tr = countRunAndMakeAscending u cmp a lo hi tr"
proof (cases "lo + 1 = hi")
  case True
  then show ?thesis by (simp add: countRunAndMakeAscending_def)
next
  case False
  then have in1: "lo + 1 < length a" "lo < length a" using assms by auto
  then have eq: "cmp' (a ! (lo + 1)) (a ! lo) = cmp (a ! (lo + 1)) (a ! lo)"
    using assms(1) by simp
  show ?thesis
    using False in1 eq
      ascending_loop_cong[OF assms(1) _ assms(3), of "lo + 2"]
      descending_loop_cong[OF assms(1) _ assms(3), of "lo + 2"]
    by (simp add: countRunAndMakeAscending_def Let_def)
qed

subsection \<open>Galloping\<close>

lemma aget_i_in [simp]: "0 \<le> i \<Longrightarrow> i < int (length a) \<Longrightarrow> aget_i u a i = a ! nat i"
  by (simp add: aget_i_def)

lemma gallop_loop_spec:
  assumes rng: "\<forall>k. 0 < k \<and> k < maxOfs \<longrightarrow> 0 \<le> idx + dir * k \<and> idx + dir * k < int (length a)"
    and "0 \<le> lastOfs" "lastOfs < ofs" "ofs < 2 ^ 31 \<or> maxOfs \<le> ofs" "lastOfs < maxOfs"
  shows "\<exists>l' o' ev. gallop_loop u cmp cont key a idx dir maxOfs lastOfs ofs tr = (l', o', tr @ ev) \<and>
           lastOfs \<le> l' \<and> l' < o' \<and> l' < maxOfs \<and>
           (l' = lastOfs \<or> cont (cmp key (a ! nat (idx + dir * l')))) \<and>
           (o' < maxOfs \<longrightarrow> \<not> cont (cmp key (a ! nat (idx + dir * o')))) \<and>
           (\<forall>e\<in>set ev. \<exists>y. e = Compare Galloping key y)"
  using assms(2-)
proof (induction "gallop_measure maxOfs ofs" arbitrary: lastOfs ofs tr rule: less_induct)
  case less
  show ?case
  proof (cases "ofs < maxOfs")
    case False
    then have "gallop_loop u cmp cont key a idx dir maxOfs lastOfs ofs tr = (lastOfs, ofs, tr @ [])"
      by (subst gallop_loop.simps) simp
    then show ?thesis using less.prems False by fastforce
  next
    case True
    then have pos: "0 < ofs" "ofs < 2 ^ 31" using less.prems by auto
    then have inr: "0 \<le> idx + dir * ofs" "idx + dir * ofs < int (length a)"
      using rng True by auto
    define y where "y = a ! nat (idx + dir * ofs)"
    define e where "e = Compare Galloping key y"
    show ?thesis
    proof (cases "cont (cmp key y)")
      case False
      then have "gallop_loop u cmp cont key a idx dir maxOfs lastOfs ofs tr = (lastOfs, ofs, tr @ [e])"
        using True inr by (subst gallop_loop.simps) (simp add: Let_def y_def e_def)
      then show ?thesis using less.prems True False
        by (intro exI[of _ lastOfs] exI[of _ ofs] exI[of _ "[e]"]) (simp add: y_def e_def)
    next
      case c: True
      define ofs2 where "ofs2 = (if shl1 ofs + 1 \<le> 0 then maxOfs else shl1 ofs + 1)"
      have step: "gallop_loop u cmp cont key a idx dir maxOfs lastOfs ofs tr =
          gallop_loop u cmp cont key a idx dir maxOfs ofs ofs2 (tr @ [e])"
        using True inr c by (subst gallop_loop.simps) (simp add: Let_def y_def e_def ofs2_def)
      have m: "gallop_measure maxOfs ofs2 < gallop_measure maxOfs ofs"
        unfolding ofs2_def using True by (rule gallop_measure_step)
      have gt: "ofs < ofs2 \<and> (ofs2 < 2 ^ 31 \<or> maxOfs \<le> ofs2)"
      proof (cases "shl1 ofs + 1 \<le> 0")
        case True
        then show ?thesis using \<open>ofs < maxOfs\<close> by (simp add: ofs2_def)
      next
        case False
        have "ofs < 2 ^ 30"
        proof (rule ccontr)
          assume "\<not> ofs < 2 ^ 30"
          then have "shl1 ofs < 0" using pos by (intro shl1_big) simp_all
          with False show False by simp
        qed
        then have "shl1 ofs = 2 * ofs" using pos by (intro shl1_small) simp_all
        then show ?thesis using False pos shl1_next[of ofs] by (simp add: ofs2_def)
      qed
      from less.hyps[OF m, of ofs "tr @ [e]"] gt pos True
      obtain l' o' ev where r: "gallop_loop u cmp cont key a idx dir maxOfs ofs ofs2 (tr @ [e]) = (l', o', (tr @ [e]) @ ev)"
        "ofs \<le> l'" "l' < o'" "l' < maxOfs"
        "l' = ofs \<or> cont (cmp key (a ! nat (idx + dir * l')))"
        "o' < maxOfs \<longrightarrow> \<not> cont (cmp key (a ! nat (idx + dir * o')))"
        "\<forall>e\<in>set ev. \<exists>y. e = Compare Galloping key y"
        by auto
      have "cont (cmp key (a ! nat (idx + dir * l')))"
        using r(5) c by (auto simp: y_def)
      then show ?thesis
        unfolding step using r less.prems
        by (intro exI[of _ l'] exI[of _ o'] exI[of _ "e # ev"]) (auto simp: e_def)
    qed
  qed
qed

lemma gallop_search_spec:
  assumes rng: "0 \<le> base" "base + len \<le> int (length a)"
    and mono: "\<forall>j j'. 0 \<le> j \<and> j \<le> j' \<and> j' < len \<and> R j' \<longrightarrow> R j"
    and R: "\<forall>j. 0 \<le> j \<and> j < len \<longrightarrow> right_of (cmp key (a ! nat (base + j))) = R j"
    and pre: "0 \<le> lo" "lo \<le> hi" "hi \<le> len"
      "\<forall>j. 0 \<le> j \<and> j < lo \<longrightarrow> R j" "\<forall>j. hi \<le> j \<and> j < len \<longrightarrow> \<not> R j"
  shows "\<exists>k ev. gallop_search u cmp right_of key a base lo hi tr = (k, tr @ ev) \<and>
           lo \<le> k \<and> k \<le> hi \<and>
           (\<forall>j. 0 \<le> j \<and> j < k \<longrightarrow> R j) \<and> (\<forall>j. k \<le> j \<and> j < len \<longrightarrow> \<not> R j) \<and>
           (\<forall>e\<in>set ev. \<exists>y. e = Compare Galloping key y)"
  using pre
proof (induction "nat (hi - lo)" arbitrary: lo hi tr rule: less_induct)
  case less
  show ?case
  proof (cases "lo < hi")
    case False
    then have "gallop_search u cmp right_of key a base lo hi tr = (hi, tr @ [])"
      by (subst gallop_search.simps) simp
    moreover have "lo = hi" using False less.prems by simp
    ultimately show ?thesis using less.prems by fastforce
  next
    case True
    define m where "m = lo + ushr1_i (hi - lo)"
    have mb: "lo \<le> m" "m < hi" using ushr1_i_bounds[of "hi - lo"] True by (auto simp: m_def)
    then have inr: "0 \<le> base + m" "base + m < int (length a)" "0 \<le> m" "m < len"
      using rng less.prems by auto
    define y where "y = a ! nat (base + m)"
    define e where "e = Compare Galloping key y"
    have Rm: "right_of (cmp key y) = R m" using R inr by (simp add: y_def)
    show ?thesis
    proof (cases "R m")
      case True
      have step: "gallop_search u cmp right_of key a base lo hi tr =
          gallop_search u cmp right_of key a base (m + 1) hi (tr @ [e])"
        using \<open>lo < hi\<close> inr True Rm
        by (subst gallop_search.simps) (simp add: Let_def m_def[symmetric] y_def e_def)
      have inv: "\<forall>j. 0 \<le> j \<and> j < m + 1 \<longrightarrow> R j"
        using mono True inr by (metis zle_add1_eq_le zless_add1_eq)
      have d: "nat (hi - (m + 1)) < nat (hi - lo)" using mb by simp
      from less.hyps[OF d, of "tr @ [e]"] inv less.prems mb inr
      obtain k ev where r: "gallop_search u cmp right_of key a base (m + 1) hi (tr @ [e]) = (k, (tr @ [e]) @ ev)"
        "m + 1 \<le> k" "k \<le> hi" "\<forall>j. 0 \<le> j \<and> j < k \<longrightarrow> R j" "\<forall>j. k \<le> j \<and> j < len \<longrightarrow> \<not> R j"
        "\<forall>e\<in>set ev. \<exists>y. e = Compare Galloping key y"
        by auto
      show ?thesis
        unfolding step using r mb
        by (intro exI[of _ k] exI[of _ "e # ev"]) (auto simp: e_def)
    next
      case False
      have step: "gallop_search u cmp right_of key a base lo hi tr =
          gallop_search u cmp right_of key a base lo m (tr @ [e])"
        using \<open>lo < hi\<close> inr False Rm
        by (subst gallop_search.simps) (simp add: Let_def m_def[symmetric] y_def e_def)
      have inv: "\<forall>j. m \<le> j \<and> j < len \<longrightarrow> \<not> R j"
        using mono False inr by blast
      have d: "nat (m - lo) < nat (hi - lo)" using mb by simp
      from less.hyps[OF d, of "tr @ [e]"] inv less.prems mb inr
      obtain k ev where r: "gallop_search u cmp right_of key a base lo m (tr @ [e]) = (k, (tr @ [e]) @ ev)"
        "lo \<le> k" "k \<le> m" "\<forall>j. 0 \<le> j \<and> j < k \<longrightarrow> R j" "\<forall>j. k \<le> j \<and> j < len \<longrightarrow> \<not> R j"
        "\<forall>e\<in>set ev. \<exists>y. e = Compare Galloping key y"
        by auto
      show ?thesis
        unfolding step using r mb
        by (intro exI[of _ k] exI[of _ "e # ev"]) (auto simp: e_def)
    qed
  qed
qed


lemma gallop_branch_right:
  assumes rng: "0 \<le> base" "base + len \<le> int (length a)" and h: "0 \<le> hint" "hint < len"
    and mono: "\<forall>j j'. 0 \<le> j \<and> j \<le> j' \<and> j' < len \<and> R j' \<longrightarrow> R j"
    and Rc: "\<forall>j. 0 \<le> j \<and> j < len \<longrightarrow> cont (cmp key (a ! nat (base + j))) = R j"
    and Rs: "\<forall>j. 0 \<le> j \<and> j < len \<longrightarrow> right_of (cmp key (a ! nat (base + j))) = R j"
    and Rh: "R hint"
    and loop: "gallop_loop u cmp cont key a (base + hint) 1 (len - hint) 0 1 tr1 = (l, ofs, tr2)"
  shows "\<exists>k ev. gallop_search u cmp right_of key a base (l + hint + 1)
           ((if ofs > len - hint then len - hint else ofs) + hint) tr2 = (k, tr1 @ ev) \<and>
           0 \<le> k \<and> k \<le> len \<and>
           (\<forall>j. 0 \<le> j \<and> j < k \<longrightarrow> R j) \<and> (\<forall>j. k \<le> j \<and> j < len \<longrightarrow> \<not> R j) \<and>
           (\<forall>e\<in>set ev. \<exists>y. e = Compare Galloping key y)"
proof -
  let ?maxOfs = "len - hint"
  have r: "\<forall>k. 0 < k \<and> k < ?maxOfs \<longrightarrow> 0 \<le> base + hint + 1 * k \<and> base + hint + 1 * k < int (length a)"
    using rng h by auto
  from gallop_loop_spec[OF r, of 0 1 u cmp cont key tr1] h loop
  obtain ev1 where g: "tr2 = tr1 @ ev1" "0 \<le> l" "l < ofs" "l < ?maxOfs"
    "l = 0 \<or> cont (cmp key (a ! nat (base + hint + 1 * l)))"
    "ofs < ?maxOfs \<longrightarrow> \<not> cont (cmp key (a ! nat (base + hint + 1 * ofs)))"
    "\<forall>e\<in>set ev1. \<exists>y. e = Compare Galloping key y"
    by auto
  define Hi where "Hi = (if ofs > ?maxOfs then ?maxOfs else ofs) + hint"
  define Lo where "Lo = l + hint"
  have LH: "0 \<le> Lo" "Lo < Hi" "Hi \<le> len" "Lo < len" using g h by (auto simp: Hi_def Lo_def)
  have RL: "R Lo"
  proof (cases "l = 0")
    case True
    then show ?thesis using Rh by (simp add: Lo_def)
  next
    case False
    have e: "base + Lo = base + hint + 1 * l" by (simp add: Lo_def)
    have "cont (cmp key (a ! nat (base + Lo)))" unfolding e using g(5) False by blast
    then show ?thesis using Rc LH by simp
  qed
  have RH: "Hi < len \<longrightarrow> \<not> R Hi"
  proof
    assume "Hi < len"
    then have lt: "ofs < ?maxOfs" "Hi = ofs + hint" by (auto simp: Hi_def split: if_splits)
    have e: "base + Hi = base + hint + 1 * ofs" using lt by simp
    have "\<not> cont (cmp key (a ! nat (base + Hi)))" unfolding e using g(6) lt by blast
    then show "\<not> R Hi" using Rc LH \<open>Hi < len\<close> by simp
  qed
  have inv1: "\<forall>j. 0 \<le> j \<and> j < Lo + 1 \<longrightarrow> R j"
  proof (intro allI impI)
    fix j assume j: "0 \<le> j \<and> j < Lo + 1"
    then have "j \<le> Lo" by simp
    then show "R j" using mono RL j LH(4) by blast
  qed
  have inv2: "\<forall>j. Hi \<le> j \<and> j < len \<longrightarrow> \<not> R j"
  proof (intro allI impI)
    fix j assume j: "Hi \<le> j \<and> j < len"
    then have "Hi < len" "0 \<le> Hi" using LH by auto
    then show "\<not> R j" using mono RH j by blast
  qed
  have b: "0 \<le> Lo + 1" "Lo + 1 \<le> Hi" using LH by auto
  from gallop_search_spec[where R=R and right_of=right_of and cmp=cmp and key=key and a=a
      and base=base and len=len and lo="Lo + 1" and hi=Hi and u=u and tr=tr2,
      OF rng mono Rs b LH(3) inv1 inv2]
  obtain k ev where s: "gallop_search u cmp right_of key a base (Lo + 1) Hi tr2 = (k, tr2 @ ev)"
    "Lo + 1 \<le> k" "k \<le> Hi" "\<forall>j. 0 \<le> j \<and> j < k \<longrightarrow> R j" "\<forall>j. k \<le> j \<and> j < len \<longrightarrow> \<not> R j"
    "\<forall>e\<in>set ev. \<exists>y. e = Compare Galloping key y"
    by blast
  have "gallop_search u cmp right_of key a base (l + hint + 1)
           ((if ofs > len - hint then len - hint else ofs) + hint) tr2 = (k, tr1 @ (ev1 @ ev))"
    using s(1) g(1) unfolding Hi_def Lo_def by simp
  moreover have "0 \<le> k" "k \<le> len" using s(2,3) LH by auto
  moreover have "\<forall>e\<in>set (ev1 @ ev). \<exists>y. e = Compare Galloping key y"
    using g(7) s(6) by auto
  ultimately show ?thesis using s(4,5) by blast
qed

lemma gallop_branch_left:
  assumes rng: "0 \<le> base" "base + len \<le> int (length a)" and h: "0 \<le> hint" "hint < len"
    and mono: "\<forall>j j'. 0 \<le> j \<and> j \<le> j' \<and> j' < len \<and> R j' \<longrightarrow> R j"
    and Rc: "\<forall>j. 0 \<le> j \<and> j < len \<longrightarrow> cont (cmp key (a ! nat (base + j))) = (\<not> R j)"
    and Rs: "\<forall>j. 0 \<le> j \<and> j < len \<longrightarrow> right_of (cmp key (a ! nat (base + j))) = R j"
    and Rh: "\<not> R hint"
    and loop: "gallop_loop u cmp cont key a (base + hint) (- 1) (hint + 1) 0 1 tr1 = (l, ofs, tr2)"
  shows "\<exists>k ev. gallop_search u cmp right_of key a base
           (hint - (if ofs > hint + 1 then hint + 1 else ofs) + 1) (hint - l) tr2 = (k, tr1 @ ev) \<and>
           0 \<le> k \<and> k \<le> len \<and>
           (\<forall>j. 0 \<le> j \<and> j < k \<longrightarrow> R j) \<and> (\<forall>j. k \<le> j \<and> j < len \<longrightarrow> \<not> R j) \<and>
           (\<forall>e\<in>set ev. \<exists>y. e = Compare Galloping key y)"
proof -
  let ?maxOfs = "hint + 1"
  have r: "\<forall>k. 0 < k \<and> k < ?maxOfs \<longrightarrow> 0 \<le> base + hint + - 1 * k \<and> base + hint + - 1 * k < int (length a)"
    using rng h by auto
  from gallop_loop_spec[OF r, of 0 1 u cmp cont key tr1] h loop
  obtain ev1 where g: "tr2 = tr1 @ ev1" "0 \<le> l" "l < ofs" "l < ?maxOfs"
    "l = 0 \<or> cont (cmp key (a ! nat (base + hint + - 1 * l)))"
    "ofs < ?maxOfs \<longrightarrow> \<not> cont (cmp key (a ! nat (base + hint + - 1 * ofs)))"
    "\<forall>e\<in>set ev1. \<exists>y. e = Compare Galloping key y"
    by auto
  define Lo where "Lo = hint - (if ofs > ?maxOfs then ?maxOfs else ofs)"
  define Hi where "Hi = hint - l"
  have LH: "- 1 \<le> Lo" "Lo < Hi" "Hi \<le> hint" "0 \<le> Hi" "Hi < len" using g h by (auto simp: Hi_def Lo_def)
  have RH: "\<not> R Hi"
  proof (cases "l = 0")
    case True
    then show ?thesis using Rh by (simp add: Hi_def)
  next
    case False
    have e: "base + Hi = base + hint + - 1 * l" by (simp add: Hi_def)
    have "cont (cmp key (a ! nat (base + Hi)))" unfolding e using g(5) False by blast
    then show ?thesis using Rc LH by simp
  qed
  have RL: "0 \<le> Lo \<longrightarrow> R Lo"
  proof
    assume "0 \<le> Lo"
    then have lt: "ofs < ?maxOfs" "Lo = hint - ofs" by (auto simp: Lo_def split: if_splits)
    have e: "base + Lo = base + hint + - 1 * ofs" using lt by simp
    have "\<not> cont (cmp key (a ! nat (base + Lo)))" unfolding e using g(6) lt by blast
    then show "R Lo" using Rc LH \<open>0 \<le> Lo\<close> by simp
  qed
  have inv1: "\<forall>j. 0 \<le> j \<and> j < Lo + 1 \<longrightarrow> R j"
  proof (intro allI impI)
    fix j assume j: "0 \<le> j \<and> j < Lo + 1"
    then have "0 \<le> Lo" "j \<le> Lo" "Lo < len" using LH by auto
    then show "R j" using mono RL j by blast
  qed
  have inv2: "\<forall>j. Hi \<le> j \<and> j < len \<longrightarrow> \<not> R j"
    using mono RH LH by blast
  have b: "0 \<le> Lo + 1" "Lo + 1 \<le> Hi" "Hi \<le> len" using LH by auto
  from gallop_search_spec[where R=R and right_of=right_of and cmp=cmp and key=key and a=a
      and base=base and len=len and lo="Lo + 1" and hi=Hi and u=u and tr=tr2,
      OF rng mono Rs b inv1 inv2]
  obtain k ev where s: "gallop_search u cmp right_of key a base (Lo + 1) Hi tr2 = (k, tr2 @ ev)"
    "Lo + 1 \<le> k" "k \<le> Hi" "\<forall>j. 0 \<le> j \<and> j < k \<longrightarrow> R j" "\<forall>j. k \<le> j \<and> j < len \<longrightarrow> \<not> R j"
    "\<forall>e\<in>set ev. \<exists>y. e = Compare Galloping key y"
    by blast
  have "gallop_search u cmp right_of key a base
           (hint - (if ofs > hint + 1 then hint + 1 else ofs) + 1) (hint - l) tr2 = (k, tr1 @ (ev1 @ ev))"
    using s(1) g(1) unfolding Hi_def Lo_def by simp
  moreover have "0 \<le> k" "k \<le> len" using s(2,3) LH by auto
  moreover have "\<forall>e\<in>set (ev1 @ ev). \<exists>y. e = Compare Galloping key y"
    using g(7) s(6) by auto
  ultimately show ?thesis using s(4,5) by blast
qed

lemma sorted_range_nth:
  assumes "nondecreasing cmp (slice a (nat base) (nat (base + len)))"
    "0 \<le> base" "base + len \<le> int (length a)" "0 \<le> i" "i < j" "j < len"
  shows "cmp (a ! nat (base + i)) (a ! nat (base + j)) \<le> 0"
proof -
  have "nat (base + len) \<le> length a" "nat base \<le> nat (base + i)"
    "nat (base + i) < nat (base + j)" "nat (base + j) < nat (base + len)"
    using assms by auto
  then show ?thesis using nondecreasing_slice_nth[OF assms(1)] by blast
qed

lemma gallopLeft_spec:
  assumes to: "total_order cmp"
    and rng: "0 \<le> base" "base + len \<le> int (length a)" and h: "0 \<le> hint" "hint < len"
    and srt: "nondecreasing cmp (slice a (nat base) (nat (base + len)))"
  shows "\<exists>k ev. gallopLeft u cmp key a base len hint tr = (k, tr @ ev) \<and> 0 \<le> k \<and> k \<le> len \<and>
           (\<forall>j. 0 \<le> j \<and> j < k \<longrightarrow> 0 < cmp key (a ! nat (base + j))) \<and>
           (\<forall>j. k \<le> j \<and> j < len \<longrightarrow> cmp key (a ! nat (base + j)) \<le> 0) \<and>
           (\<forall>e\<in>set ev. \<exists>y. e = Compare Galloping key y)"
proof -
  define R where "R j = (0 < cmp key (a ! nat (base + j)))" for j
  have mono: "\<forall>j j'. 0 \<le> j \<and> j \<le> j' \<and> j' < len \<and> R j' \<longrightarrow> R j"
  proof (intro allI impI)
    fix j j' assume a: "0 \<le> j \<and> j \<le> j' \<and> j' < len \<and> R j'"
    show "R j"
    proof (cases "j = j'")
      case True
      then show ?thesis using a by simp
    next
      case False
      then have "cmp (a ! nat (base + j)) (a ! nat (base + j')) \<le> 0"
        using sorted_range_nth[OF srt rng, of j j'] a by simp
      moreover have "cmp (a ! nat (base + j')) key < 0"
        using a total_order_flip_less[OF to, of "a ! nat (base + j')" key] by (simp add: R_def)
      ultimately have "cmp (a ! nat (base + j)) key < 0"
        using total_order_le_less_trans[OF to] by blast
      then show ?thesis
        using total_order_flip_less[OF to, of "a ! nat (base + j)" key] by (simp add: R_def)
    qed
  qed
  have Rs: "\<forall>j. 0 \<le> j \<and> j < len \<longrightarrow> (\<lambda>c. c > 0) (cmp key (a ! nat (base + j))) = R j"
    by (simp add: R_def)
  have Rc: "\<forall>j. 0 \<le> j \<and> j < len \<longrightarrow> (\<lambda>c. c \<le> 0) (cmp key (a ! nat (base + j))) = (\<not> R j)"
    by (auto simp: R_def)
  have inr: "0 \<le> base + hint" "base + hint < int (length a)" using rng h by auto
  let ?y = "a ! nat (base + hint)"
  let ?tr1 = "tr @ [Compare Galloping key ?y]"
  have "\<exists>k ev. gallopLeft u cmp key a base len hint tr = (k, ?tr1 @ ev) \<and> 0 \<le> k \<and> k \<le> len \<and>
           (\<forall>j. 0 \<le> j \<and> j < k \<longrightarrow> R j) \<and> (\<forall>j. k \<le> j \<and> j < len \<longrightarrow> \<not> R j) \<and>
           (\<forall>e\<in>set ev. \<exists>y. e = Compare Galloping key y)"
  proof (cases "cmp key ?y > 0")
    case True
    obtain l ofs tr2 where loop:
      "gallop_loop u cmp (\<lambda>c. c > 0) key a (base + hint) 1 (len - hint) 0 1 ?tr1 = (l, ofs, tr2)"
      by (metis prod_cases3)
    have Rh: "R hint" using True by (simp add: R_def)
    have eq: "gallopLeft u cmp key a base len hint tr =
        gallop_search u cmp (\<lambda>c. c > 0) key a base (l + hint + 1)
           ((if ofs > len - hint then len - hint else ofs) + hint) tr2"
      using True inr loop by (simp add: gallopLeft_def Let_def)
    show ?thesis
      unfolding eq
      by (rule gallop_branch_right[where R=R and cont="\<lambda>c. c > 0", OF rng h mono Rs Rs Rh loop])
  next
    case False
    obtain l ofs tr2 where loop:
      "gallop_loop u cmp (\<lambda>c. c \<le> 0) key a (base + hint) (- 1) (hint + 1) 0 1 ?tr1 = (l, ofs, tr2)"
      by (metis prod_cases3)
    have Rh: "\<not> R hint" using False by (simp add: R_def)
    have eq: "gallopLeft u cmp key a base len hint tr =
        gallop_search u cmp (\<lambda>c. c > 0) key a base
           (hint - (if ofs > hint + 1 then hint + 1 else ofs) + 1) (hint - l) tr2"
      using False inr loop by (simp add: gallopLeft_def Let_def)
    show ?thesis
      unfolding eq
      by (rule gallop_branch_left[where R=R and cont="\<lambda>c. c \<le> 0", OF rng h mono Rc Rs Rh loop])
  qed
  then obtain k ev where r: "gallopLeft u cmp key a base len hint tr = (k, ?tr1 @ ev)"
    "0 \<le> k" "k \<le> len" "\<forall>j. 0 \<le> j \<and> j < k \<longrightarrow> R j" "\<forall>j. k \<le> j \<and> j < len \<longrightarrow> \<not> R j"
    "\<forall>e\<in>set ev. \<exists>y. e = Compare Galloping key y"
    by blast
  have "gallopLeft u cmp key a base len hint tr = (k, tr @ (Compare Galloping key ?y # ev))"
    using r(1) by simp
  moreover have "\<forall>e\<in>set (Compare Galloping key ?y # ev). \<exists>y. e = Compare Galloping key y"
    using r(6) by simp
  moreover have "\<forall>j. 0 \<le> j \<and> j < k \<longrightarrow> 0 < cmp key (a ! nat (base + j))"
    using r(4) by (simp add: R_def)
  moreover have "\<forall>j. k \<le> j \<and> j < len \<longrightarrow> cmp key (a ! nat (base + j)) \<le> 0"
    using r(5) by (simp add: R_def not_less)
  ultimately show ?thesis using r(2,3) by blast
qed

lemma gallopRight_spec:
  assumes to: "total_order cmp"
    and rng: "0 \<le> base" "base + len \<le> int (length a)" and h: "0 \<le> hint" "hint < len"
    and srt: "nondecreasing cmp (slice a (nat base) (nat (base + len)))"
  shows "\<exists>k ev. gallopRight u cmp key a base len hint tr = (k, tr @ ev) \<and> 0 \<le> k \<and> k \<le> len \<and>
           (\<forall>j. 0 \<le> j \<and> j < k \<longrightarrow> 0 \<le> cmp key (a ! nat (base + j))) \<and>
           (\<forall>j. k \<le> j \<and> j < len \<longrightarrow> cmp key (a ! nat (base + j)) < 0) \<and>
           (\<forall>e\<in>set ev. \<exists>y. e = Compare Galloping key y)"
proof -
  define R where "R j = (0 \<le> cmp key (a ! nat (base + j)))" for j
  have mono: "\<forall>j j'. 0 \<le> j \<and> j \<le> j' \<and> j' < len \<and> R j' \<longrightarrow> R j"
  proof (intro allI impI)
    fix j j' assume a: "0 \<le> j \<and> j \<le> j' \<and> j' < len \<and> R j'"
    show "R j"
    proof (cases "j = j'")
      case True
      then show ?thesis using a by simp
    next
      case False
      then have "cmp (a ! nat (base + j)) (a ! nat (base + j')) \<le> 0"
        using sorted_range_nth[OF srt rng, of j j'] a by simp
      moreover have "cmp (a ! nat (base + j')) key \<le> 0"
        using a total_order_flip[OF to, of key "a ! nat (base + j')"] by (simp add: R_def)
      ultimately have "cmp (a ! nat (base + j)) key \<le> 0"
        using total_order_trans[OF to] by blast
      then show ?thesis
        using total_order_flip[OF to, of key "a ! nat (base + j)"] by (simp add: R_def)
    qed
  qed
  have Rs: "\<forall>j. 0 \<le> j \<and> j < len \<longrightarrow> (\<lambda>c. \<not> c < 0) (cmp key (a ! nat (base + j))) = R j"
    by (auto simp: R_def)
  have Rr: "\<forall>j. 0 \<le> j \<and> j < len \<longrightarrow> (\<lambda>c. c \<ge> 0) (cmp key (a ! nat (base + j))) = R j"
    by (simp add: R_def)
  have Rc: "\<forall>j. 0 \<le> j \<and> j < len \<longrightarrow> (\<lambda>c. c < 0) (cmp key (a ! nat (base + j))) = (\<not> R j)"
    by (auto simp: R_def)
  have inr: "0 \<le> base + hint" "base + hint < int (length a)" using rng h by auto
  let ?y = "a ! nat (base + hint)"
  let ?tr1 = "tr @ [Compare Galloping key ?y]"
  have "\<exists>k ev. gallopRight u cmp key a base len hint tr = (k, ?tr1 @ ev) \<and> 0 \<le> k \<and> k \<le> len \<and>
           (\<forall>j. 0 \<le> j \<and> j < k \<longrightarrow> R j) \<and> (\<forall>j. k \<le> j \<and> j < len \<longrightarrow> \<not> R j) \<and>
           (\<forall>e\<in>set ev. \<exists>y. e = Compare Galloping key y)"
  proof (cases "cmp key ?y < 0")
    case False
    obtain l ofs tr2 where loop:
      "gallop_loop u cmp (\<lambda>c. c \<ge> 0) key a (base + hint) 1 (len - hint) 0 1 ?tr1 = (l, ofs, tr2)"
      by (metis prod_cases3)
    have Rh: "R hint" using False by (simp add: R_def)
    have eq: "gallopRight u cmp key a base len hint tr =
        gallop_search u cmp (\<lambda>c. \<not> c < 0) key a base (l + hint + 1)
           ((if ofs > len - hint then len - hint else ofs) + hint) tr2"
      using False inr loop by (simp add: gallopRight_def Let_def)
    show ?thesis
      unfolding eq
      by (rule gallop_branch_right[where R=R and cont="\<lambda>c. c \<ge> 0", OF rng h mono Rr Rs Rh loop])
  next
    case True
    obtain l ofs tr2 where loop:
      "gallop_loop u cmp (\<lambda>c. c < 0) key a (base + hint) (- 1) (hint + 1) 0 1 ?tr1 = (l, ofs, tr2)"
      by (metis prod_cases3)
    have Rh: "\<not> R hint" using True by (simp add: R_def)
    have eq: "gallopRight u cmp key a base len hint tr =
        gallop_search u cmp (\<lambda>c. \<not> c < 0) key a base
           (hint - (if ofs > hint + 1 then hint + 1 else ofs) + 1) (hint - l) tr2"
      using True inr loop by (simp add: gallopRight_def Let_def)
    show ?thesis
      unfolding eq
      by (rule gallop_branch_left[where R=R and cont="\<lambda>c. c < 0", OF rng h mono Rc Rs Rh loop])
  qed
  then obtain k ev where r: "gallopRight u cmp key a base len hint tr = (k, ?tr1 @ ev)"
    "0 \<le> k" "k \<le> len" "\<forall>j. 0 \<le> j \<and> j < k \<longrightarrow> R j" "\<forall>j. k \<le> j \<and> j < len \<longrightarrow> \<not> R j"
    "\<forall>e\<in>set ev. \<exists>y. e = Compare Galloping key y"
    by blast
  have "gallopRight u cmp key a base len hint tr = (k, tr @ (Compare Galloping key ?y # ev))"
    using r(1) by simp
  moreover have "\<forall>e\<in>set (Compare Galloping key ?y # ev). \<exists>y. e = Compare Galloping key y"
    using r(6) by simp
  moreover have "\<forall>j. 0 \<le> j \<and> j < k \<longrightarrow> 0 \<le> cmp key (a ! nat (base + j))"
    using r(4) by (simp add: R_def)
  moreover have "\<forall>j. k \<le> j \<and> j < len \<longrightarrow> cmp key (a ! nat (base + j)) < 0"
    using r(5) by (simp add: R_def not_le)
  ultimately show ?thesis using r(2,3) by blast
qed

lemma gallop_loop_range:
  assumes "0 \<le> lastOfs" "lastOfs < ofs" "ofs < 2 ^ 31 \<or> maxOfs \<le> ofs" "lastOfs < maxOfs"
  shows "\<exists>l' o' ev. gallop_loop u cmp cont key a idx dir maxOfs lastOfs ofs tr = (l', o', tr @ ev) \<and>
           lastOfs \<le> l' \<and> l' < o' \<and> l' < maxOfs \<and>
           (\<forall>e\<in>set ev. \<exists>y. e = Compare Galloping key y)"
  using assms
proof (induction "gallop_measure maxOfs ofs" arbitrary: lastOfs ofs tr rule: less_induct)
  case less
  show ?case
  proof (cases "ofs < maxOfs")
    case False
    then have "gallop_loop u cmp cont key a idx dir maxOfs lastOfs ofs tr = (lastOfs, ofs, tr @ [])"
      by (subst gallop_loop.simps) simp
    then show ?thesis using less.prems False by fastforce
  next
    case True
    then have pos: "0 < ofs" "ofs < 2 ^ 31" using less.prems by auto
    define y where "y = aget_i u a (idx + dir * ofs)"
    define e where "e = Compare Galloping key y"
    show ?thesis
    proof (cases "cont (cmp key y)")
      case False
      then have "gallop_loop u cmp cont key a idx dir maxOfs lastOfs ofs tr = (lastOfs, ofs, tr @ [e])"
        using True by (subst gallop_loop.simps) (simp add: Let_def y_def e_def)
      then show ?thesis using less.prems True
        by (intro exI[of _ lastOfs] exI[of _ ofs] exI[of _ "[e]"]) (simp add: e_def)
    next
      case c: True
      define ofs2 where "ofs2 = (if shl1 ofs + 1 \<le> 0 then maxOfs else shl1 ofs + 1)"
      have step: "gallop_loop u cmp cont key a idx dir maxOfs lastOfs ofs tr =
          gallop_loop u cmp cont key a idx dir maxOfs ofs ofs2 (tr @ [e])"
        using True c by (subst gallop_loop.simps) (simp add: Let_def y_def e_def ofs2_def)
      have m: "gallop_measure maxOfs ofs2 < gallop_measure maxOfs ofs"
        unfolding ofs2_def using True by (rule gallop_measure_step)
      have gt: "ofs < ofs2 \<and> (ofs2 < 2 ^ 31 \<or> maxOfs \<le> ofs2)"
      proof (cases "shl1 ofs + 1 \<le> 0")
        case True
        then show ?thesis using \<open>ofs < maxOfs\<close> by (simp add: ofs2_def)
      next
        case False
        have "ofs < 2 ^ 30"
        proof (rule ccontr)
          assume "\<not> ofs < 2 ^ 30"
          then have "shl1 ofs < 0" using pos by (intro shl1_big) simp_all
          with False show False by simp
        qed
        then have "shl1 ofs = 2 * ofs" using pos by (intro shl1_small) simp_all
        then show ?thesis using False pos shl1_next[of ofs] by (simp add: ofs2_def)
      qed
      from less.hyps[OF m, of ofs "tr @ [e]"] gt pos True
      obtain l' o' ev where r: "gallop_loop u cmp cont key a idx dir maxOfs ofs ofs2 (tr @ [e]) = (l', o', (tr @ [e]) @ ev)"
        "ofs \<le> l'" "l' < o'" "l' < maxOfs"
        "\<forall>e\<in>set ev. \<exists>y. e = Compare Galloping key y"
        by auto
      show ?thesis
        unfolding step using r less.prems
        by (intro exI[of _ l'] exI[of _ o'] exI[of _ "e # ev"]) (auto simp: e_def)
    qed
  qed
qed

lemma gallop_search_range:
  assumes "lo \<le> hi"
  shows "\<exists>k ev. gallop_search u cmp right_of key a base lo hi tr = (k, tr @ ev) \<and>
           lo \<le> k \<and> k \<le> hi \<and> (\<forall>e\<in>set ev. \<exists>y. e = Compare Galloping key y)"
  using assms
proof (induction "nat (hi - lo)" arbitrary: lo hi tr rule: less_induct)
  case less
  show ?case
  proof (cases "lo < hi")
    case False
    then have "gallop_search u cmp right_of key a base lo hi tr = (hi, tr @ [])"
      by (subst gallop_search.simps) simp
    then show ?thesis using less.prems False by fastforce
  next
    case True
    define m where "m = lo + ushr1_i (hi - lo)"
    have mb: "lo \<le> m" "m < hi" using ushr1_i_bounds[of "hi - lo"] True by (auto simp: m_def)
    define y where "y = aget_i u a (base + m)"
    define e where "e = Compare Galloping key y"
    show ?thesis
    proof (cases "right_of (cmp key y)")
      case True
      have step: "gallop_search u cmp right_of key a base lo hi tr =
          gallop_search u cmp right_of key a base (m + 1) hi (tr @ [e])"
        using \<open>lo < hi\<close> True
        by (subst gallop_search.simps) (simp add: Let_def m_def[symmetric] y_def e_def)
      have d: "nat (hi - (m + 1)) < nat (hi - lo)" using mb by simp
      from less.hyps[OF d, of "tr @ [e]"] mb
      obtain k ev where r: "gallop_search u cmp right_of key a base (m + 1) hi (tr @ [e]) = (k, (tr @ [e]) @ ev)"
        "m + 1 \<le> k" "k \<le> hi" "\<forall>e\<in>set ev. \<exists>y. e = Compare Galloping key y"
        by auto
      show ?thesis
        unfolding step using r mb
        by (intro exI[of _ k] exI[of _ "e # ev"]) (auto simp: e_def)
    next
      case False
      have step: "gallop_search u cmp right_of key a base lo hi tr =
          gallop_search u cmp right_of key a base lo m (tr @ [e])"
        using \<open>lo < hi\<close> False
        by (subst gallop_search.simps) (simp add: Let_def m_def[symmetric] y_def e_def)
      have d: "nat (m - lo) < nat (hi - lo)" using mb by simp
      from less.hyps[OF d, of "tr @ [e]"] mb
      obtain k ev where r: "gallop_search u cmp right_of key a base lo m (tr @ [e]) = (k, (tr @ [e]) @ ev)"
        "lo \<le> k" "k \<le> m" "\<forall>e\<in>set ev. \<exists>y. e = Compare Galloping key y"
        by auto
      show ?thesis
        unfolding step using r mb
        by (intro exI[of _ k] exI[of _ "e # ev"]) (auto simp: e_def)
    qed
  qed
qed

text \<open>The two branches of a gallop, for any comparator: the result lies in the range.\<close>

lemma gallop_finish_right:
  assumes h: "0 \<le> hint" "hint < len"
    and loop: "gallop_loop u cmp cont key a idx 1 (len - hint) 0 1 tr1 = (l, ofs, tr2)"
  shows "\<exists>k ev. gallop_search u cmp right_of key a base (l + hint + 1)
           ((if ofs > len - hint then len - hint else ofs) + hint) tr2 = (k, tr1 @ ev) \<and>
           0 \<le> k \<and> k \<le> len \<and> (\<forall>e\<in>set ev. \<exists>y. e = Compare Galloping key y)"
proof -
  from gallop_loop_range[of 0 1 "len - hint" u cmp cont key a idx 1 tr1] h loop
  obtain ev1 where g: "tr2 = tr1 @ ev1" "0 \<le> l" "l < ofs" "l < len - hint"
    "\<forall>e\<in>set ev1. \<exists>y. e = Compare Galloping key y"
    by auto
  define Hi where "Hi = (if ofs > len - hint then len - hint else ofs) + hint"
  have b: "l + hint + 1 \<le> Hi" "Hi \<le> len" "0 \<le> l + hint + 1" using g h by (auto simp: Hi_def)
  from gallop_search_range[OF b(1), of u cmp right_of key a base tr2]
  obtain k ev where s: "gallop_search u cmp right_of key a base (l + hint + 1) Hi tr2 = (k, tr2 @ ev)"
    "l + hint + 1 \<le> k" "k \<le> Hi" "\<forall>e\<in>set ev. \<exists>y. e = Compare Galloping key y"
    by blast
  have "gallop_search u cmp right_of key a base (l + hint + 1)
           ((if ofs > len - hint then len - hint else ofs) + hint) tr2 = (k, tr1 @ (ev1 @ ev))"
    using s(1) g(1) unfolding Hi_def by simp
  moreover have "0 \<le> k" "k \<le> len" using s(2,3) b by auto
  moreover have "\<forall>e\<in>set (ev1 @ ev). \<exists>y. e = Compare Galloping key y"
    using g(5) s(4) by auto
  ultimately show ?thesis by blast
qed

lemma gallop_finish_left:
  assumes h: "0 \<le> hint" "hint < len"
    and loop: "gallop_loop u cmp cont key a idx (- 1) (hint + 1) 0 1 tr1 = (l, ofs, tr2)"
  shows "\<exists>k ev. gallop_search u cmp right_of key a base
           (hint - (if ofs > hint + 1 then hint + 1 else ofs) + 1) (hint - l) tr2 = (k, tr1 @ ev) \<and>
           0 \<le> k \<and> k \<le> len \<and> (\<forall>e\<in>set ev. \<exists>y. e = Compare Galloping key y)"
proof -
  from gallop_loop_range[of 0 1 "hint + 1" u cmp cont key a idx "- 1" tr1] h loop
  obtain ev1 where g: "tr2 = tr1 @ ev1" "0 \<le> l" "l < ofs" "l < hint + 1"
    "\<forall>e\<in>set ev1. \<exists>y. e = Compare Galloping key y"
    by auto
  define Lo where "Lo = hint - (if ofs > hint + 1 then hint + 1 else ofs) + 1"
  have b: "Lo \<le> hint - l" "hint - l \<le> len" "0 \<le> Lo" using g h by (auto simp: Lo_def)
  from gallop_search_range[OF b(1), of u cmp right_of key a base tr2]
  obtain k ev where s: "gallop_search u cmp right_of key a base Lo (hint - l) tr2 = (k, tr2 @ ev)"
    "Lo \<le> k" "k \<le> hint - l" "\<forall>e\<in>set ev. \<exists>y. e = Compare Galloping key y"
    by blast
  have "gallop_search u cmp right_of key a base
           (hint - (if ofs > hint + 1 then hint + 1 else ofs) + 1) (hint - l) tr2 = (k, tr1 @ (ev1 @ ev))"
    using s(1) g(1) unfolding Lo_def by simp
  moreover have "0 \<le> k" "k \<le> len" using s(2,3) b by auto
  moreover have "\<forall>e\<in>set (ev1 @ ev). \<exists>y. e = Compare Galloping key y"
    using g(5) s(4) by auto
  ultimately show ?thesis by blast
qed

lemma gallopLeft_range:
  assumes h: "0 \<le> hint" "hint < len"
  shows "\<exists>k ev. gallopLeft u cmp key a base len hint tr = (k, tr @ ev) \<and> 0 \<le> k \<and> k \<le> len \<and>
           (\<forall>e\<in>set ev. \<exists>x y. e = Compare Galloping x y)"
proof -
  let ?y = "aget_i u a (base + hint)"
  let ?tr1 = "tr @ [Compare Galloping key ?y]"
  have "\<exists>k ev. gallopLeft u cmp key a base len hint tr = (k, ?tr1 @ ev) \<and> 0 \<le> k \<and> k \<le> len \<and>
           (\<forall>e\<in>set ev. \<exists>y. e = Compare Galloping key y)"
  proof (cases "cmp key ?y > 0")
    case True
    obtain l ofs tr2 where loop:
      "gallop_loop u cmp (\<lambda>c. c > 0) key a (base + hint) 1 (len - hint) 0 1 ?tr1 = (l, ofs, tr2)"
      by (metis prod_cases3)
    have eq: "gallopLeft u cmp key a base len hint tr =
        gallop_search u cmp (\<lambda>c. c > 0) key a base (l + hint + 1)
           ((if ofs > len - hint then len - hint else ofs) + hint) tr2"
      using True loop by (simp add: gallopLeft_def Let_def)
    show ?thesis unfolding eq by (rule gallop_finish_right[OF h loop])
  next
    case False
    obtain l ofs tr2 where loop:
      "gallop_loop u cmp (\<lambda>c. c \<le> 0) key a (base + hint) (- 1) (hint + 1) 0 1 ?tr1 = (l, ofs, tr2)"
      by (metis prod_cases3)
    have eq: "gallopLeft u cmp key a base len hint tr =
        gallop_search u cmp (\<lambda>c. c > 0) key a base
           (hint - (if ofs > hint + 1 then hint + 1 else ofs) + 1) (hint - l) tr2"
      using False loop by (simp add: gallopLeft_def Let_def)
    show ?thesis unfolding eq by (rule gallop_finish_left[OF h loop])
  qed
  then obtain k ev where r: "gallopLeft u cmp key a base len hint tr = (k, ?tr1 @ ev)"
    "0 \<le> k" "k \<le> len" "\<forall>e\<in>set ev. \<exists>y. e = Compare Galloping key y"
    by blast
  have "gallopLeft u cmp key a base len hint tr = (k, tr @ (Compare Galloping key ?y # ev))"
    using r(1) by simp
  moreover have "\<forall>e\<in>set (Compare Galloping key ?y # ev). \<exists>x y. e = Compare Galloping x y"
    using r(4) by auto
  ultimately show ?thesis using r(2,3) by blast
qed

lemma gallopRight_range:
  assumes h: "0 \<le> hint" "hint < len"
  shows "\<exists>k ev. gallopRight u cmp key a base len hint tr = (k, tr @ ev) \<and> 0 \<le> k \<and> k \<le> len \<and>
           (\<forall>e\<in>set ev. \<exists>x y. e = Compare Galloping x y)"
proof -
  let ?y = "aget_i u a (base + hint)"
  let ?tr1 = "tr @ [Compare Galloping key ?y]"
  have "\<exists>k ev. gallopRight u cmp key a base len hint tr = (k, ?tr1 @ ev) \<and> 0 \<le> k \<and> k \<le> len \<and>
           (\<forall>e\<in>set ev. \<exists>y. e = Compare Galloping key y)"
  proof (cases "cmp key ?y < 0")
    case False
    obtain l ofs tr2 where loop:
      "gallop_loop u cmp (\<lambda>c. c \<ge> 0) key a (base + hint) 1 (len - hint) 0 1 ?tr1 = (l, ofs, tr2)"
      by (metis prod_cases3)
    have eq: "gallopRight u cmp key a base len hint tr =
        gallop_search u cmp (\<lambda>c. \<not> c < 0) key a base (l + hint + 1)
           ((if ofs > len - hint then len - hint else ofs) + hint) tr2"
      using False loop by (simp add: gallopRight_def Let_def)
    show ?thesis unfolding eq by (rule gallop_finish_right[OF h loop])
  next
    case True
    obtain l ofs tr2 where loop:
      "gallop_loop u cmp (\<lambda>c. c < 0) key a (base + hint) (- 1) (hint + 1) 0 1 ?tr1 = (l, ofs, tr2)"
      by (metis prod_cases3)
    have eq: "gallopRight u cmp key a base len hint tr =
        gallop_search u cmp (\<lambda>c. \<not> c < 0) key a base
           (hint - (if ofs > hint + 1 then hint + 1 else ofs) + 1) (hint - l) tr2"
      using True loop by (simp add: gallopRight_def Let_def)
    show ?thesis unfolding eq by (rule gallop_finish_left[OF h loop])
  qed
  then obtain k ev where r: "gallopRight u cmp key a base len hint tr = (k, ?tr1 @ ev)"
    "0 \<le> k" "k \<le> len" "\<forall>e\<in>set ev. \<exists>y. e = Compare Galloping key y"
    by blast
  have "gallopRight u cmp key a base len hint tr = (k, tr @ (Compare Galloping key ?y # ev))"
    using r(1) by simp
  moreover have "\<forall>e\<in>set (Compare Galloping key ?y # ev). \<exists>x y. e = Compare Galloping x y"
    using r(4) by auto
  ultimately show ?thesis using r(2,3) by blast
qed

subsection \<open>Merging\<close>

lemma aset_i_in: "0 \<le> i \<Longrightarrow> i < int (length a) \<Longrightarrow> aset_i u a i v = a[nat i := v]"
  by (simp add: aset_i_def)

lemma copy_down_i_nat: "0 \<le> dpos \<Longrightarrow> copy_down_i u t d dpos n = copy_down u t d (nat dpos) n"
  by (induction n arbitrary: d) (simp_all add: aset_i_def nat_add_distrib)

lemma slice_i_in:
  "0 \<le> b \<Longrightarrow> b \<le> e \<Longrightarrow> e \<le> int (length s) \<Longrightarrow> slice_i s b e = slice s (nat b) (nat e)"
  by (simp add: slice_i_def slice_def Let_def min_def nat_diff_distrib)

lemma arraycopy_i_in:
  assumes "0 \<le> spos" "0 \<le> len" "spos + len \<le> int (length s)" "0 \<le> dpos"
    "dpos + len \<le> int (length d)"
  shows "arraycopy_i u s spos d dpos len =
     Some (take (nat dpos) d @ take (nat len) (drop (nat spos) s) @ drop (nat dpos + nat len) d)"
proof -
  have sl: "slice_i s spos (spos + len) = take (nat len) (drop (nat spos) s)"
    using assms by (simp add: slice_i_in slice_def nat_add_distrib)
  have l: "nat len \<le> length (take (nat len) (drop (nat spos) s))"
    using assms by simp
  have d: "nat dpos + nat len \<le> length d" using assms by linarith
  show ?thesis
    using assms(2,4) copy_down_in[OF l d, of u]
    by (simp add: arraycopy_i_def sl copy_down_i_nat)
qed

lemma arraycopy_i_parts:
  assumes "d = X @ Y @ Z" "int (length X) = dpos" "int (length Y) = len"
    and "s = S1 @ B @ S3" "int (length S1) = spos" "int (length B) = len"
  shows "arraycopy_i u s spos d dpos len = Some (X @ B @ Z)"
proof -
  have "arraycopy_i u s spos d dpos len =
     Some (take (nat dpos) d @ take (nat len) (drop (nat spos) s) @ drop (nat dpos + nat len) d)"
    using assms by (intro arraycopy_i_in) auto
  moreover have "take (nat dpos) d = X" using assms by auto
  moreover have "take (nat len) (drop (nat spos) s) = B" using assms by auto
  moreover have "drop (nat dpos + nat len) d = Z" using assms by auto
  ultimately show ?thesis by simp
qed

lemma aget_i_parts: "a = X @ x # Y \<Longrightarrow> int (length X) = i \<Longrightarrow> aget_i u a i = x"
  by (auto simp: aget_i_def)

lemma aset_i_parts: "a = X @ x # Y \<Longrightarrow> int (length X) = i \<Longrightarrow> aset_i u a i v = X @ v # Y"
  by (auto simp: aset_i_def aset_def)

lemma follow_append:
  "follow g (xs @ ys) = (case follow g xs of None \<Rightarrow> None | Some g' \<Rightarrow> follow g' ys)"
proof (induction xs arbitrary: g)
  case Nil
  then show ?case by simp
next
  case (Cons e es)
  then show ?case by (cases e) auto
qed

lemma follow_compares:
  "\<forall>e\<in>set ev. \<exists>s x y. e = Compare s x y \<Longrightarrow> follow g ev = Some g"
  by (induction ev) auto

lemma walks_refl: "walks st st"
  by (auto simp: walks_def)

lemma walks_trans: "walks st s \<Longrightarrow> walks s s' \<Longrightarrow> walks st s'"
  by (auto simp: walks_def follow_append)

lemma walks_compares:
  assumes "events s = events st @ ev" "\<forall>e\<in>set ev. \<exists>s x y. e = Compare s x y"
    "minGallop s = minGallop st"
  shows "walks st s"
  using assms follow_compares[of ev "minGallop st"] by (auto simp: walks_def)

lemma lo_inv_parts:
  assumes "lo_inv P T M R2 tmp st"
  obtains D G S2 where "arr st = P @ D @ G @ S2 @ T"
    "dest st = int (length P) + int (length D)"
    "len1 st = int (length G)" "len2 st = int (length S2)"
    "cursor2 st = int (length P) + int (length D) + int (length G)"
    "0 \<le> cursor1 st" "cursor1 st + int (length G) = int (length tmp)"
    "mset D + mset (drop (nat (cursor1 st)) tmp) + mset S2 = M" "set S2 \<subseteq> R2"
  using assms unfolding lo_inv_def by auto

lemma lo_invI:
  assumes "arr st = P @ D @ G @ S2 @ T"
    "dest st = int (length P) + int (length D)"
    "len1 st = int (length G)" "len2 st = int (length S2)"
    "cursor2 st = int (length P) + int (length D) + int (length G)"
    "0 \<le> cursor1 st" "cursor1 st + int (length G) = int (length tmp)"
    "mset D + mset (drop (nat (cursor1 st)) tmp) + mset S2 = M" "set S2 \<subseteq> R2"
  shows "lo_inv P T M R2 tmp st"
  unfolding lo_inv_def
  apply (rule exI[of _ D], rule exI[of _ G], rule exI[of _ S2])
  using assms by simp

lemma drop_split:
  assumes "0 \<le> c" "0 \<le> n"
  shows "drop (nat c) xs = take (nat n) (drop (nat c) xs) @ drop (nat (c + n)) xs"
proof -
  have "drop (nat (c + n)) xs = drop (nat n) (drop (nat c) xs)"
    using assms by (simp add: nat_add_distrib add.commute)
  then show ?thesis by (metis append_take_drop_id)
qed

lemma lo_inv_take2:
  assumes "lo_inv P T M R2 tmp st" "1 \<le> len1 st" "1 \<le> len2 st"
  shows "lo_inv P T M R2 tmp ((lo_take2 u st)\<lparr>len2 := len2 st - 1\<rparr>)"
    and "aget_i u (arr st) (cursor2 st) \<in> R2"
proof -
  from assms(1) obtain D G S2 where i: "arr st = P @ D @ G @ S2 @ T"
    "dest st = int (length P) + int (length D)"
    "len1 st = int (length G)" "len2 st = int (length S2)"
    "cursor2 st = int (length P) + int (length D) + int (length G)"
    "0 \<le> cursor1 st" "cursor1 st + int (length G) = int (length tmp)"
    "mset D + mset (drop (nat (cursor1 st)) tmp) + mset S2 = M" "set S2 \<subseteq> R2"
    by (rule lo_inv_parts)
  obtain g G' where G: "G = g # G'" using assms(2) i(3) by (cases G) auto
  obtain x S2' where S: "S2 = x # S2'" using assms(3) i(4) by (cases S2) auto
  have rd: "aget_i u (arr st) (cursor2 st) = x"
    by (rule aget_i_parts[of _ "P @ D @ G" _ "S2' @ T"]) (simp_all add: i S)
  show "aget_i u (arr st) (cursor2 st) \<in> R2" using rd i(9) S by simp
  have wr: "aset_i u (arr st) (dest st) x = (P @ D) @ x # (G' @ x # S2' @ T)"
    by (rule aset_i_parts[of _ _ g]) (simp_all add: i G S)
  let ?s = "(lo_take2 u st)\<lparr>len2 := len2 st - 1\<rparr>"
  have f: "arr ?s = P @ (D @ [x]) @ (G' @ [x]) @ S2' @ T"
    "dest ?s = dest st + 1" "cursor2 ?s = cursor2 st + 1" "cursor1 ?s = cursor1 st"
    "len1 ?s = len1 st" "len2 ?s = len2 st - 1"
    using rd wr by (simp_all add: lo_take2_def)
  show "lo_inv P T M R2 tmp ?s"
  proof (rule lo_invI[of _ _ "D @ [x]" "G' @ [x]" S2'])
    show "arr ?s = P @ (D @ [x]) @ (G' @ [x]) @ S2' @ T" by (rule f(1))
    show "dest ?s = int (length P) + int (length (D @ [x]))" using f(2) i(2) by simp
    show "len1 ?s = int (length (G' @ [x]))" using f(5) i(3) G by simp
    show "len2 ?s = int (length S2')" using f(6) i(4) S by simp
    show "cursor2 ?s = int (length P) + int (length (D @ [x])) + int (length (G' @ [x]))"
      using f(3) i(5) G by simp
    show "0 \<le> cursor1 ?s" using f(4) i(6) by simp
    show "cursor1 ?s + int (length (G' @ [x])) = int (length tmp)" using f(4) i(7) G by simp
    show "mset (D @ [x]) + mset (drop (nat (cursor1 ?s)) tmp) + mset S2' = M"
      using f(4) i(8) S by simp
    show "set S2' \<subseteq> R2" using i(9) S by simp
  qed
qed

lemma lo_inv_take1:
  assumes "lo_inv P T M R2 tmp st" "1 \<le> len1 st"
  shows "lo_inv P T M R2 tmp ((lo_take1 u tmp st)\<lparr>len1 := len1 st - 1\<rparr>)"
proof -
  from assms(1) obtain D G S2 where i: "arr st = P @ D @ G @ S2 @ T"
    "dest st = int (length P) + int (length D)"
    "len1 st = int (length G)" "len2 st = int (length S2)"
    "cursor2 st = int (length P) + int (length D) + int (length G)"
    "0 \<le> cursor1 st" "cursor1 st + int (length G) = int (length tmp)"
    "mset D + mset (drop (nat (cursor1 st)) tmp) + mset S2 = M" "set S2 \<subseteq> R2"
    by (rule lo_inv_parts)
  obtain g G' where G: "G = g # G'" using assms(2) i(3) by (cases G) auto
  have c: "cursor1 st < int (length tmp)" using assms(2) i(3,7) by linarith
  define t where "t = tmp ! nat (cursor1 st)"
  have rd: "aget_i u tmp (cursor1 st) = t" using c i(6) by (simp add: aget_i_def t_def)
  have "drop (nat (cursor1 st)) tmp = t # drop (Suc (nat (cursor1 st))) tmp"
    using c i(6) by (simp add: t_def Cons_nth_drop_Suc)
  moreover have "Suc (nat (cursor1 st)) = nat (cursor1 st + 1)" using i(6) by simp
  ultimately have dr: "drop (nat (cursor1 st)) tmp = t # drop (nat (cursor1 st + 1)) tmp"
    by simp
  have wr: "aset_i u (arr st) (dest st) t = (P @ D) @ t # (G' @ S2 @ T)"
    by (rule aset_i_parts[of _ _ g]) (simp_all add: i G)
  let ?s = "(lo_take1 u tmp st)\<lparr>len1 := len1 st - 1\<rparr>"
  have f: "arr ?s = P @ (D @ [t]) @ G' @ S2 @ T"
    "dest ?s = dest st + 1" "cursor2 ?s = cursor2 st" "cursor1 ?s = cursor1 st + 1"
    "len1 ?s = len1 st - 1" "len2 ?s = len2 st"
    using rd wr by (simp_all add: lo_take1_def)
  show ?thesis
  proof (rule lo_invI[of _ _ "D @ [t]" G' S2])
    show "arr ?s = P @ (D @ [t]) @ G' @ S2 @ T" by (rule f(1))
    show "dest ?s = int (length P) + int (length (D @ [t]))" using f(2) i(2) by simp
    show "len1 ?s = int (length G')" using f(5) i(3) G by simp
    show "len2 ?s = int (length S2)" using f(6) i(4) by simp
    show "cursor2 ?s = int (length P) + int (length (D @ [t])) + int (length G')"
      using f(3) i(5) G by simp
    show "0 \<le> cursor1 ?s" using f(4) i(6) by simp
    show "cursor1 ?s + int (length G') = int (length tmp)" using f(4) i(7) G by simp
    show "mset (D @ [t]) + mset (drop (nat (cursor1 ?s)) tmp) + mset S2 = M"
      using i(8) unfolding f(4) dr by simp
    show "set S2 \<subseteq> R2" by (rule i(9))
  qed
qed

lemma lo_inv_block1:
  assumes "lo_inv P T M R2 tmp st" "0 < n" "n \<le> len1 st"
  shows "\<exists>a. arraycopy_i u tmp (cursor1 st) (arr st) (dest st) n = Some a \<and>
           lo_inv P T M R2 tmp (st\<lparr>arr := a, dest := dest st + n, cursor1 := cursor1 st + n,
              len1 := len1 st - n, events := tr\<rparr>)"
proof -
  from assms(1) obtain D G S2 where i: "arr st = P @ D @ G @ S2 @ T"
    "dest st = int (length P) + int (length D)"
    "len1 st = int (length G)" "len2 st = int (length S2)"
    "cursor2 st = int (length P) + int (length D) + int (length G)"
    "0 \<le> cursor1 st" "cursor1 st + int (length G) = int (length tmp)"
    "mset D + mset (drop (nat (cursor1 st)) tmp) + mset S2 = M" "set S2 \<subseteq> R2"
    by (rule lo_inv_parts)
  define G1 where "G1 = take (nat n) G"
  define G2 where "G2 = drop (nat n) G"
  have G: "G = G1 @ G2" by (simp add: G1_def G2_def)
  have lG: "int (length G1) = n" "int (length G2) = int (length G) - n"
    using assms(2,3) i(3) by (auto simp: G1_def G2_def)
  define B where "B = take (nat n) (drop (nat (cursor1 st)) tmp)"
  have lB: "int (length B) = n" using assms(2,3) i(3,6,7) by (auto simp: B_def)
  have dr: "drop (nat (cursor1 st)) tmp = B @ drop (nat (cursor1 st + n)) tmp"
    unfolding B_def using i(6) assms(2) by (intro drop_split) simp_all
  have tmp: "tmp = take (nat (cursor1 st)) tmp @ B @ drop (nat (cursor1 st + n)) tmp"
    using dr by (metis append_take_drop_id)
  have lt: "int (length (take (nat (cursor1 st)) tmp)) = cursor1 st"
    using i(6,7) by auto
  have cp: "arraycopy_i u tmp (cursor1 st) (arr st) (dest st) n = Some ((P @ D) @ B @ (G2 @ S2 @ T))"
  proof (rule arraycopy_i_parts[of _ _ G1 _ _ _ _ "take (nat (cursor1 st)) tmp" _ "drop (nat (cursor1 st + n)) tmp"])
    show "arr st = (P @ D) @ G1 @ G2 @ S2 @ T" using i(1) G by simp
    show "int (length (P @ D)) = dest st" using i(2) by simp
    show "int (length G1) = n" by (rule lG(1))
    show "tmp = take (nat (cursor1 st)) tmp @ B @ drop (nat (cursor1 st + n)) tmp" by (rule tmp)
    show "int (length (take (nat (cursor1 st)) tmp)) = cursor1 st" by (rule lt)
    show "int (length B) = n" by (rule lB)
  qed
  let ?s = "st\<lparr>arr := (P @ D) @ B @ (G2 @ S2 @ T), dest := dest st + n,
          cursor1 := cursor1 st + n, len1 := len1 st - n, events := tr\<rparr>"
  have "lo_inv P T M R2 tmp ?s"
  proof (rule lo_invI[of _ _ "D @ B" G2 S2])
    show "arr ?s = P @ (D @ B) @ G2 @ S2 @ T" by simp
    show "dest ?s = int (length P) + int (length (D @ B))" using i(2) lB by simp
    show "len1 ?s = int (length G2)" using i(3) lG by simp
    show "len2 ?s = int (length S2)" using i(4) by simp
    show "cursor2 ?s = int (length P) + int (length (D @ B)) + int (length G2)"
      using i(5) lB lG by simp
    show "0 \<le> cursor1 ?s" using i(6) assms(2) by simp
    show "cursor1 ?s + int (length G2) = int (length tmp)" using i(7) lG by simp
    have "mset (drop (nat (cursor1 st)) tmp) = mset B + mset (drop (nat (cursor1 st + n)) tmp)"
      by (subst dr) simp
    then show "mset (D @ B) + mset (drop (nat (cursor1 ?s)) tmp) + mset S2 = M"
      using i(8) by (simp add: ac_simps)
    show "set S2 \<subseteq> R2" by (rule i(9))
  qed
  then show ?thesis using cp by simp
qed

lemma lo_inv_block2:
  assumes "lo_inv P T M R2 tmp st" "0 < n" "n \<le> len2 st"
  shows "\<exists>a. arraycopy_i u (arr st) (cursor2 st) (arr st) (dest st) n = Some a \<and>
           lo_inv P T M R2 tmp (st\<lparr>arr := a, dest := dest st + n, cursor2 := cursor2 st + n,
              len2 := len2 st - n, events := tr\<rparr>)"
proof -
  from assms(1) obtain D G S2 where i: "arr st = P @ D @ G @ S2 @ T"
    "dest st = int (length P) + int (length D)"
    "len1 st = int (length G)" "len2 st = int (length S2)"
    "cursor2 st = int (length P) + int (length D) + int (length G)"
    "0 \<le> cursor1 st" "cursor1 st + int (length G) = int (length tmp)"
    "mset D + mset (drop (nat (cursor1 st)) tmp) + mset S2 = M" "set S2 \<subseteq> R2"
    by (rule lo_inv_parts)
  define B where "B = take (nat n) S2"
  define S2' where "S2' = drop (nat n) S2"
  have S: "S2 = B @ S2'" by (simp add: B_def S2'_def)
  have lS: "int (length B) = n" "int (length S2') = int (length S2) - n"
    using assms(2,3) i(4) by (auto simp: B_def S2'_def)
  define Y where "Y = take (nat n) (G @ B)"
  define G' where "G' = drop (nat n) (G @ B)"
  have Y: "G @ B = Y @ G'" by (simp only: Y_def G'_def append_take_drop_id)
  have lY: "int (length Y) = n" "int (length G') = int (length G)"
    using assms(2) lS(1) by (auto simp: Y_def G'_def)
  have cp: "arraycopy_i u (arr st) (cursor2 st) (arr st) (dest st) n = Some ((P @ D) @ B @ (G' @ S2' @ T))"
  proof (rule arraycopy_i_parts[of _ _ Y _ _ _ _ "P @ D @ G" _ "S2' @ T"])
    have "arr st = (P @ D) @ (G @ B) @ S2' @ T" using i(1) S by simp
    then show "arr st = (P @ D) @ Y @ G' @ S2' @ T" unfolding Y by simp
    show "int (length (P @ D)) = dest st" using i(2) by simp
    show "int (length Y) = n" by (rule lY(1))
    show "arr st = (P @ D @ G) @ B @ S2' @ T" using i(1) S by simp
    show "int (length (P @ D @ G)) = cursor2 st" using i(5) by simp
    show "int (length B) = n" by (rule lS(1))
  qed
  let ?s = "st\<lparr>arr := (P @ D) @ B @ (G' @ S2' @ T), dest := dest st + n,
          cursor2 := cursor2 st + n, len2 := len2 st - n, events := tr\<rparr>"
  have "lo_inv P T M R2 tmp ?s"
  proof (rule lo_invI[of _ _ "D @ B" G' S2'])
    show "arr ?s = P @ (D @ B) @ G' @ S2' @ T" by simp
    show "dest ?s = int (length P) + int (length (D @ B))" using i(2) lS by simp
    show "len1 ?s = int (length G')" using i(3) lY by simp
    show "len2 ?s = int (length S2')" using i(4) lS by simp
    show "cursor2 ?s = int (length P) + int (length (D @ B)) + int (length G')"
      using i(5) lS lY by simp
    show "0 \<le> cursor1 ?s" using i(6) by simp
    show "cursor1 ?s + int (length G') = int (length tmp)" using i(7) lY by simp
    have "mset S2 = mset B + mset S2'" by (subst S) simp
    then show "mset (D @ B) + mset (drop (nat (cursor1 ?s)) tmp) + mset S2' = M"
      using i(8) by (simp add: ac_simps)
    show "set S2' \<subseteq> R2" using i(9) S by auto
  qed
  then show ?thesis using cp by simp
qed

lemma lo_inv_other [simp]:
  "lo_inv P T M R2 tmp (st\<lparr>events := tr\<rparr>) = lo_inv P T M R2 tmp st"
  "lo_inv P T M R2 tmp (st\<lparr>minGallop := g\<rparr>) = lo_inv P T M R2 tmp st"
  by (simp_all add: lo_inv_def)

lemma lo_post_later:
  assumes "lo_post P T M R2 tmp cmp s1 r" "walks st s1"
    "len1 s1 + len2 s1 \<le> len1 st + len2 st"
  shows "lo_post P T M R2 tmp cmp st r"
proof (cases r)
  case (BreakOuter s)
  then show ?thesis using assms walks_trans[OF assms(2)] by (auto simp: lo_post_def)
next
  case (Fallthrough s)
  then show ?thesis using assms walks_trans[OF assms(2)] by (auto simp: lo_post_def)
qed

lemma walks_event:
  "minGallop s = minGallop st \<Longrightarrow> events s = events st @ [Compare w x y] \<Longrightarrow> walks st s"
  by (rule walks_compares[of _ _ "[Compare w x y]"]) auto

lemma mergeLo_straight_post:
  assumes "lo_inv P T M R2 tmp st" "2 \<le> len1 st" "1 \<le> len2 st"
  shows "\<exists>r. mergeLo_straight u cmp tmp st c1 c2 = Some r \<and> lo_post P T M R2 tmp cmp st r"
  using assms
proof (induction "nat (len1 st + len2 st)" arbitrary: st c1 c2 rule: less_induct)
  case less
  define x where "x = aget_i u (arr st) (cursor2 st)"
  define y where "y = aget_i u tmp (cursor1 st)"
  define st0 where "st0 = st\<lparr>events := events st @ [Compare Merging x y]\<rparr>"
  have inv0: "lo_inv P T M R2 tmp st0" using less.prems(1) by (simp add: st0_def)
  have f0: "len1 st0 = len1 st" "len2 st0 = len2 st" "minGallop st0 = minGallop st"
    "events st0 = events st @ [Compare Merging x y]"
    by (simp_all add: st0_def)
  show ?case
  proof (cases "cmp x y < 0")
    case True
    define s1 where "s1 = (lo_take2 u st0)\<lparr>len2 := len2 st0 - 1\<rparr>"
    have step: "mergeLo_straight u cmp tmp st c1 c2 =
        (if len2 s1 = 0 then Some (BreakOuter s1)
         else if or32 0 (c2 + 1) < minGallop s1 then mergeLo_straight u cmp tmp s1 0 (c2 + 1)
         else Some (Fallthrough s1))"
      using True
      by (subst mergeLo_straight.simps)
         (simp add: Let_def x_def y_def st0_def s1_def lo_take2_def)
    have inv1: "lo_inv P T M R2 tmp s1"
      unfolding s1_def using inv0 less.prems f0 by (intro lo_inv_take2) simp_all
    have f1: "len1 s1 = len1 st" "len2 s1 = len2 st - 1" "minGallop s1 = minGallop st"
      "events s1 = events st @ [Compare Merging x y]"
      by (simp_all add: s1_def st0_def lo_take2_def)
    have w1: "walks st s1" using f1 by (intro walks_event) simp_all
    show ?thesis
    proof (cases "len2 s1 = 0")
      case True
      then show ?thesis
        unfolding step using inv1 f1 w1 less.prems by (simp add: lo_post_def)
    next
      case False
      then have l2: "1 \<le> len2 s1" using f1 less.prems by simp
      show ?thesis
      proof (cases "or32 0 (c2 + 1) < minGallop s1")
        case True
        have d: "nat (len1 s1 + len2 s1) < nat (len1 st + len2 st)"
          using f1 less.prems by simp
        from less.hyps[OF d inv1 _ l2, of 0 "c2 + 1"] f1 less.prems
        obtain r where r: "mergeLo_straight u cmp tmp s1 0 (c2 + 1) = Some r"
          "lo_post P T M R2 tmp cmp s1 r" by auto
        have "lo_post P T M R2 tmp cmp st r"
          using r(2) w1 by (rule lo_post_later) (simp add: f1)
        then show ?thesis unfolding step using False True r(1) by simp
      next
        case nf: False
        show ?thesis
          unfolding step using False nf inv1 f1 w1 l2 less.prems by (simp add: lo_post_def)
      qed
    qed
  next
    case ge: False
    define s1 where "s1 = (lo_take1 u tmp st0)\<lparr>len1 := len1 st0 - 1\<rparr>"
    have step: "mergeLo_straight u cmp tmp st c1 c2 =
        (if len1 s1 = 1 then Some (BreakOuter s1)
         else if or32 (c1 + 1) 0 < minGallop s1 then mergeLo_straight u cmp tmp s1 (c1 + 1) 0
         else Some (Fallthrough s1))"
      using ge
      by (subst mergeLo_straight.simps)
         (simp add: Let_def x_def y_def st0_def s1_def lo_take1_def)
    have inv1: "lo_inv P T M R2 tmp s1"
      unfolding s1_def using inv0 less.prems f0 by (intro lo_inv_take1) simp_all
    have f1: "len1 s1 = len1 st - 1" "len2 s1 = len2 st" "minGallop s1 = minGallop st"
      "events s1 = events st @ [Compare Merging x y]"
      by (simp_all add: s1_def st0_def lo_take1_def)
    have w1: "walks st s1" using f1 by (intro walks_event) simp_all
    show ?thesis
    proof (cases "len1 s1 = 1")
      case True
      then show ?thesis
        unfolding step using inv1 f1 w1 less.prems by (simp add: lo_post_def)
    next
      case False
      then have l1: "2 \<le> len1 s1" using f1 less.prems by simp
      show ?thesis
      proof (cases "or32 (c1 + 1) 0 < minGallop s1")
        case True
        have d: "nat (len1 s1 + len2 s1) < nat (len1 st + len2 st)"
          using f1 less.prems by simp
        from less.hyps[OF d inv1 l1, of "c1 + 1" 0] f1 less.prems
        obtain r where r: "mergeLo_straight u cmp tmp s1 (c1 + 1) 0 = Some r"
          "lo_post P T M R2 tmp cmp s1 r" by auto
        have "lo_post P T M R2 tmp cmp st r"
          using r(2) w1 by (rule lo_post_later) (simp add: f1)
        then show ?thesis unfolding step using False True r(1) by simp
      next
        case nf: False
        show ?thesis
          unfolding step using False nf inv1 f1 w1 l1 less.prems by (simp add: lo_post_def)
      qed
    qed
  qed
qed

lemma nondecreasing_slice: "nondecreasing cmp xs \<Longrightarrow> nondecreasing cmp (slice xs i j)"
  by (simp add: nondecreasing_def slice_def sorted_wrt_take sorted_wrt_drop)

lemma lo_gallop1_post:
  assumes inv: "lo_inv P T M R2 tmp st" and l: "2 \<le> len1 st" "1 \<le> len2 st"
  shows "\<exists>c s. lo_gallop1 u cmp tmp st = Some (c, s) \<and> 0 \<le> c \<and> c \<le> len1 st \<and>
           lo_inv P T M R2 tmp s \<and> len1 s = len1 st - c \<and> len2 s = len2 st \<and>
           walks st s \<and> (lo_ordered cmp tmp R2 \<longrightarrow> c < len1 st)"
proof -
  define key where "key = aget_i u (arr st) (cursor2 st)"
  have key: "key \<in> R2"
    unfolding key_def using inv l by (intro lo_inv_take2(2)[of P T M R2 tmp st]) simp_all
  from gallopRight_range[of 0 "len1 st" u cmp key tmp "cursor1 st" "events st"] l
  obtain k ev where g: "gallopRight u cmp key tmp (cursor1 st) (len1 st) 0 (events st) = (k, events st @ ev)"
    and k: "0 \<le> k" "k \<le> len1 st" and ev: "\<forall>e\<in>set ev. \<exists>x y. e = Compare Galloping x y"
    by auto
  have ord: "k < len1 st" if o: "lo_ordered cmp tmp R2"
  proof -
    have p: "0 \<le> cursor1 st" "cursor1 st + len1 st = int (length tmp)"
      using inv by (auto simp: lo_inv_def)
    have to: "total_order cmp" and srt: "nondecreasing cmp tmp" and ne: "tmp \<noteq> []"
      and big: "cmp key (last tmp) < 0"
      using o key by (auto simp: lo_ordered_def)
    from gallopRight_spec[OF to p(1), of "len1 st" tmp 0 u key "events st"] p l
      nondecreasing_slice[OF srt]
    obtain k' ev' where g': "gallopRight u cmp key tmp (cursor1 st) (len1 st) 0 (events st) = (k', events st @ ev')"
      and lo: "\<forall>j. 0 \<le> j \<and> j < k' \<longrightarrow> 0 \<le> cmp key (tmp ! nat (cursor1 st + j))"
      by auto
    have kk: "k' = k" using g g' by simp
    show ?thesis
    proof (rule ccontr)
      assume "\<not> k < len1 st"
      then have e: "k = len1 st" using k by simp
      have "0 \<le> cmp key (tmp ! nat (cursor1 st + (len1 st - 1)))"
        using lo kk e l by simp
      moreover have "nat (cursor1 st + (len1 st - 1)) = length tmp - 1"
        using p by simp
      ultimately show False using big ne by (simp add: last_conv_nth)
    qed
  qed
  have w: "walks st (s\<lparr>events := events st @ ev\<rparr>)" if "events s = events st" "minGallop s = minGallop st" for s :: "'a merge_state"
    using ev that by (intro walks_compares[of _ _ ev]) auto
  show ?thesis
  proof (cases "k = 0")
    case True
    have "lo_gallop1 u cmp tmp st = Some (k, st\<lparr>events := events st @ ev\<rparr>)"
      using g True by (simp add: lo_gallop1_def key_def[symmetric])
    moreover have "walks st (st\<lparr>events := events st @ ev\<rparr>)" by (rule w) simp_all
    ultimately show ?thesis using inv k l ord True by auto
  next
    case False
    then have kp: "0 < k" using k by simp
    from lo_inv_block1[OF inv kp k(2), of u "events st @ ev"]
    obtain a where a: "arraycopy_i u tmp (cursor1 st) (arr st) (dest st) k = Some a"
      and inv': "lo_inv P T M R2 tmp (st\<lparr>arr := a, dest := dest st + k, cursor1 := cursor1 st + k,
              len1 := len1 st - k, events := events st @ ev\<rparr>)"
      by auto
    define s where "s = st\<lparr>arr := a, dest := dest st + k, cursor1 := cursor1 st + k,
              len1 := len1 st - k, events := events st @ ev\<rparr>"
    have "lo_gallop1 u cmp tmp st = Some (k, s)"
      using g False a by (simp add: lo_gallop1_def key_def[symmetric] s_def)
    moreover have "walks st s"
      using ev by (intro walks_compares[of _ _ ev]) (auto simp: s_def)
    moreover have "len1 s = len1 st - k" "len2 s = len2 st" by (simp_all add: s_def)
    ultimately show ?thesis using inv' k ord unfolding s_def[symmetric] by blast
  qed
qed

lemma lo_gallop2_post:
  assumes inv: "lo_inv P T M R2 tmp st" and l: "1 \<le> len2 st"
  shows "\<exists>c s. lo_gallop2 u cmp tmp st = Some (c, s) \<and> 0 \<le> c \<and> c \<le> len2 st \<and>
           lo_inv P T M R2 tmp s \<and> len1 s = len1 st \<and> len2 s = len2 st - c \<and> walks st s"
proof -
  define key where "key = aget_i u tmp (cursor1 st)"
  from gallopLeft_range[of 0 "len2 st" u cmp key "arr st" "cursor2 st" "events st"] l
  obtain k ev where g: "gallopLeft u cmp key (arr st) (cursor2 st) (len2 st) 0 (events st) = (k, events st @ ev)"
    and k: "0 \<le> k" "k \<le> len2 st" and ev: "\<forall>e\<in>set ev. \<exists>x y. e = Compare Galloping x y"
    by auto
  show ?thesis
  proof (cases "k = 0")
    case True
    have "lo_gallop2 u cmp tmp st = Some (k, st\<lparr>events := events st @ ev\<rparr>)"
      using g True by (simp add: lo_gallop2_def key_def[symmetric])
    moreover have "walks st (st\<lparr>events := events st @ ev\<rparr>)"
      using ev by (intro walks_compares[of _ _ ev]) auto
    ultimately show ?thesis using inv k l True by auto
  next
    case False
    then have kp: "0 < k" using k by simp
    from lo_inv_block2[OF inv kp k(2), of u "events st @ ev"]
    obtain a where a: "arraycopy_i u (arr st) (cursor2 st) (arr st) (dest st) k = Some a"
      and inv': "lo_inv P T M R2 tmp (st\<lparr>arr := a, dest := dest st + k, cursor2 := cursor2 st + k,
              len2 := len2 st - k, events := events st @ ev\<rparr>)"
      by auto
    define s where "s = st\<lparr>arr := a, dest := dest st + k, cursor2 := cursor2 st + k,
              len2 := len2 st - k, events := events st @ ev\<rparr>"
    have "lo_gallop2 u cmp tmp st = Some (k, s)"
      using g False a by (simp add: lo_gallop2_def key_def[symmetric] s_def)
    moreover have "walks st s"
      using ev by (intro walks_compares[of _ _ ev]) (auto simp: s_def)
    moreover have "len1 s = len1 st" "len2 s = len2 st - k" by (simp_all add: s_def)
    ultimately show ?thesis using inv' k unfolding s_def[symmetric] by blast
  qed
qed

lemma walks_same:
  "minGallop s = minGallop st \<Longrightarrow> events s = events st \<Longrightarrow> walks st s"
  by (rule walks_compares[of _ _ "[]"]) auto

lemma walks_gallop_won: "walks st (observe GallopIteration st (gallop_won st))"
  unfolding walks_def
  by (rule exI[of _ "[GallopIteration (minGallop st) (minGallop st - 1)]"])
     (simp add: gallop_won_def observe_def)

lemma walks_gallop_penalty: "walks st (observe GallopExit st (gallop_penalty st))"
  unfolding walks_def
  by (rule exI[of _ "[GallopExit (minGallop st) ((if minGallop st < 0 then 0 else minGallop st) + 2)]"])
     (simp add: gallop_penalty_def observe_def Let_def)

lemma lo_inv_gallop_won [simp]:
  "lo_inv P T M R2 tmp (observe ev st0 (gallop_won st)) = lo_inv P T M R2 tmp st"
  by (simp add: gallop_won_def observe_def)

lemma lo_inv_gallop_penalty [simp]:
  "lo_inv P T M R2 tmp (observe ev st0 (gallop_penalty st)) = lo_inv P T M R2 tmp st"
  by (simp add: gallop_penalty_def observe_def Let_def)

lemma len_gallop_won [simp]:
  "len1 (observe ev st0 (gallop_won st)) = len1 st"
  "len2 (observe ev st0 (gallop_won st)) = len2 st"
  by (simp_all add: gallop_won_def observe_def)

lemma len_gallop_penalty [simp]:
  "len1 (observe ev st0 (gallop_penalty st)) = len1 st"
  "len2 (observe ev st0 (gallop_penalty st)) = len2 st"
  by (simp_all add: gallop_penalty_def observe_def Let_def)

lemma lo_take2_fields [simp]:
  "len1 (lo_take2 u st) = len1 st" "len2 (lo_take2 u st) = len2 st"
  "minGallop (lo_take2 u st) = minGallop st" "events (lo_take2 u st) = events st"
  by (simp_all add: lo_take2_def)

lemma lo_take1_fields [simp]:
  "len1 (lo_take1 u tmp st) = len1 st" "len2 (lo_take1 u tmp st) = len2 st"
  "minGallop (lo_take1 u tmp st) = minGallop st" "events (lo_take1 u tmp st) = events st"
  by (simp_all add: lo_take1_def)

lemma mergeLo_gallop_post:
  assumes "lo_inv P T M R2 tmp st" "2 \<le> len1 st" "1 \<le> len2 st"
  shows "\<exists>r. mergeLo_gallop u cmp tmp st = Some r \<and> lo_post P T M R2 tmp cmp st r"
  using assms
proof (induction "nat (len1 st + len2 st)" arbitrary: st rule: less_induct)
  case less
  from lo_gallop1_post[OF less.prems, of u cmp]
  obtain c1 s1 where g1: "lo_gallop1 u cmp tmp st = Some (c1, s1)"
    and c1: "0 \<le> c1" "c1 \<le> len1 st" and inv1: "lo_inv P T M R2 tmp s1"
    and f1: "len1 s1 = len1 st - c1" "len2 s1 = len2 st" and w1: "walks st s1"
    and o1: "lo_ordered cmp tmp R2 \<longrightarrow> c1 < len1 st"
    by blast
  show ?case
  proof (cases "c1 \<noteq> 0 \<and> len1 s1 \<le> 1")
    case True
    have "mergeLo_gallop u cmp tmp st = Some (BreakOuter s1)"
      by (subst mergeLo_gallop.simps) (simp only: g1 option.case prod.case if_P[OF True])
    moreover have "lo_post P T M R2 tmp cmp st (BreakOuter s1)"
      using inv1 True f1 w1 o1 less.prems by (auto simp: lo_post_def)
    ultimately show ?thesis by simp
  next
    case n1: False
    then have l1: "2 \<le> len1 s1" using f1 c1 less.prems by auto
    define s2 where "s2 = (lo_take2 u s1)\<lparr>len2 := len2 (lo_take2 u s1) - 1\<rparr>"
    have e2: "s2 = (lo_take2 u s1)\<lparr>len2 := len2 s1 - 1\<rparr>" by (simp add: s2_def)
    have inv2: "lo_inv P T M R2 tmp s2"
      unfolding e2 using inv1 l1 f1 less.prems by (intro lo_inv_take2) simp_all
    have f2: "len1 s2 = len1 s1" "len2 s2 = len2 st - 1"
      "minGallop s2 = minGallop s1" "events s2 = events s1"
      by (simp_all add: s2_def f1)
    have w2: "walks st s2" using w1 f2 by (intro walks_trans[OF w1] walks_same) simp_all
    show ?thesis
    proof (cases "len2 s2 = 0")
      case True
      have "mergeLo_gallop u cmp tmp st = Some (BreakOuter s2)"
        by (subst mergeLo_gallop.simps)
           (simp only: g1 option.case prod.case if_not_P[OF n1] Let_def s2_def[symmetric]
              if_P[OF True])
      moreover have "lo_post P T M R2 tmp cmp st (BreakOuter s2)"
        using inv2 True f2 w2 l1 by (simp add: lo_post_def)
      ultimately show ?thesis by simp
    next
      case n2: False
      then have l2: "1 \<le> len2 s2" using f2 less.prems by simp
      from lo_gallop2_post[OF inv2 l2, of u cmp]
      obtain c2 s3 where g2: "lo_gallop2 u cmp tmp s2 = Some (c2, s3)"
        and c2: "0 \<le> c2" "c2 \<le> len2 s2" and inv3: "lo_inv P T M R2 tmp s3"
        and f3: "len1 s3 = len1 s2" "len2 s3 = len2 s2 - c2" and w3: "walks s2 s3"
        by blast
      have w3': "walks st s3" using w2 w3 by (rule walks_trans)
      show ?thesis
      proof (cases "c2 \<noteq> 0 \<and> len2 s3 = 0")
        case True
        have "mergeLo_gallop u cmp tmp st = Some (BreakOuter s3)"
          by (subst mergeLo_gallop.simps)
             (simp only: g1 option.case prod.case if_not_P[OF n1] Let_def s2_def[symmetric]
                if_not_P[OF n2] g2 if_P[OF True])
        moreover have "lo_post P T M R2 tmp cmp st (BreakOuter s3)"
          using inv3 True f3 f2 w3' l1 by (simp add: lo_post_def)
        ultimately show ?thesis by simp
      next
        case n3: False
        then have l3: "1 \<le> len2 s3" using f3 c2 l2 by auto
        define s4 where "s4 = (lo_take1 u tmp s3)\<lparr>len1 := len1 (lo_take1 u tmp s3) - 1\<rparr>"
        have e4: "s4 = (lo_take1 u tmp s3)\<lparr>len1 := len1 s3 - 1\<rparr>" by (simp add: s4_def)
        have inv4: "lo_inv P T M R2 tmp s4"
          unfolding e4 using inv3 l1 f3 f2 by (intro lo_inv_take1) simp_all
        have f4: "len1 s4 = len1 s1 - 1" "len2 s4 = len2 s3"
          "minGallop s4 = minGallop s3" "events s4 = events s3"
          by (simp_all add: s4_def f3 f2)
        have w4: "walks st s4" by (intro walks_trans[OF w3'] walks_same) (simp_all add: f4)
        show ?thesis
        proof (cases "len1 s4 = 1")
          case True
          have "mergeLo_gallop u cmp tmp st = Some (BreakOuter s4)"
            by (subst mergeLo_gallop.simps)
               (simp only: g1 option.case prod.case if_not_P[OF n1] Let_def s2_def[symmetric]
                  if_not_P[OF n2] g2 if_not_P[OF n3] s4_def[symmetric] if_P[OF True])
          moreover have "lo_post P T M R2 tmp cmp st (BreakOuter s4)"
            using inv4 True f4 w4 l3 by (simp add: lo_post_def)
          ultimately show ?thesis by simp
        next
          case n4: False
          then have l4: "2 \<le> len1 s4" using f4 l1 by simp
          define s5 where "s5 = observe GallopIteration s4 (gallop_won s4)"
          have inv5: "lo_inv P T M R2 tmp s5" using inv4 by (simp add: s5_def)
          have f5: "len1 s5 = len1 s4" "len2 s5 = len2 s4" by (simp_all add: s5_def)
          have w5: "walks st s5"
            unfolding s5_def by (rule walks_trans[OF w4 walks_gallop_won])
          have dec: "len1 s5 + len2 s5 < len1 st + len2 st"
            using f5 f4 f3 f2 f1 c1 c2 by simp
          show ?thesis
          proof (cases "c1 \<ge> MIN_GALLOP \<or> c2 \<ge> MIN_GALLOP")
            case True
            have step: "mergeLo_gallop u cmp tmp st = mergeLo_gallop u cmp tmp s5"
              by (subst mergeLo_gallop.simps)
                 (simp only: g1 option.case prod.case if_not_P[OF n1] Let_def s2_def[symmetric]
                    if_not_P[OF n2] g2 if_not_P[OF n3] s4_def[symmetric] if_not_P[OF n4]
                    s5_def[symmetric] if_P[OF True])
            have d: "nat (len1 s5 + len2 s5) < nat (len1 st + len2 st)"
              using dec l4 l3 f5 f4 by simp
            from less.hyps[OF d inv5] l4 l3 f5 f4
            obtain r where r: "mergeLo_gallop u cmp tmp s5 = Some r"
              "lo_post P T M R2 tmp cmp s5 r" by auto
            have "lo_post P T M R2 tmp cmp st r"
              using r(2) w5 by (rule lo_post_later) (use dec in simp)
            then show ?thesis unfolding step using r(1) by simp
          next
            case n5: False
            have "mergeLo_gallop u cmp tmp st = Some (Fallthrough s5)"
              by (subst mergeLo_gallop.simps)
                 (simp only: g1 option.case prod.case if_not_P[OF n1] Let_def s2_def[symmetric]
                    if_not_P[OF n2] g2 if_not_P[OF n3] s4_def[symmetric] if_not_P[OF n4]
                    s5_def[symmetric] if_not_P[OF n5])
            moreover have "lo_post P T M R2 tmp cmp st (Fallthrough s5)"
              using inv5 l4 l3 f5 f4 dec w5 by (simp add: lo_post_def)
            ultimately show ?thesis by simp
          qed
        qed
      qed
    qed
  qed
qed

lemma mergeLo_outer_post:
  assumes "lo_inv P T M R2 tmp st" "2 \<le> len1 st" "1 \<le> len2 st"
  shows "\<exists>s. mergeLo_outer u cmp tmp st = Some s \<and> lo_post P T M R2 tmp cmp st (BreakOuter s)"
  using assms
proof (induction "nat (len1 st + len2 st)" arbitrary: st rule: less_induct)
  case less
  from mergeLo_straight_post[OF less.prems, of u cmp 0 0]
  obtain r1 where r1: "mergeLo_straight u cmp tmp st 0 0 = Some r1"
    "lo_post P T M R2 tmp cmp st r1" by blast
  show ?case
  proof (cases r1)
    case (BreakOuter s)
    then show ?thesis using r1 by (subst mergeLo_outer.simps) simp
  next
    case (Fallthrough s1)
    then have p1: "lo_inv P T M R2 tmp s1" "2 \<le> len1 s1" "1 \<le> len2 s1"
      "len1 s1 + len2 s1 < len1 st + len2 st" "walks st s1"
      using r1(2) by (simp_all add: lo_post_def)
    from mergeLo_gallop_post[OF p1(1-3), of u cmp]
    obtain r2 where r2: "mergeLo_gallop u cmp tmp s1 = Some r2"
      "lo_post P T M R2 tmp cmp s1 r2" by blast
    have post2: "lo_post P T M R2 tmp cmp st r2"
      using r2(2) p1(5) by (rule lo_post_later) (use p1(4) in simp)
    show ?thesis
    proof (cases r2)
      case (BreakOuter s)
      then show ?thesis
        using r1(1) Fallthrough r2(1) post2 by (subst mergeLo_outer.simps) simp
    next
      case f2: (Fallthrough s2)
      then have p2: "lo_inv P T M R2 tmp s2" "2 \<le> len1 s2" "1 \<le> len2 s2"
        "len1 s2 + len2 s2 < len1 st + len2 st" "walks st s2"
        using post2 by (simp_all add: lo_post_def)
      define s3 where "s3 = observe GallopExit s2 (gallop_penalty s2)"
      have step: "mergeLo_outer u cmp tmp st = mergeLo_outer u cmp tmp s3"
        using r1(1) Fallthrough r2(1) f2 by (subst mergeLo_outer.simps) (simp add: s3_def)
      have d: "nat (len1 s3 + len2 s3) < nat (len1 st + len2 st)"
        using p2 by (simp add: s3_def)
      have inv3: "lo_inv P T M R2 tmp s3" using p2(1) by (simp add: s3_def)
      from less.hyps[OF d inv3] p2
      obtain s where s: "mergeLo_outer u cmp tmp s3 = Some s"
        "lo_post P T M R2 tmp cmp s3 (BreakOuter s)" by (auto simp: s3_def)
      have w3: "walks st s3"
        unfolding s3_def by (rule walks_trans[OF p2(5) walks_gallop_penalty])
      have "lo_post P T M R2 tmp cmp st (BreakOuter s)"
        using s(2) w3 by (rule lo_post_later) (use p2(4) in \<open>simp add: s3_def\<close>)
      then show ?thesis unfolding step using s(1) by simp
    qed
  qed
qed

lemma lo_inv_final:
  assumes "lo_inv P T M R2 tmp s" "len1 s = 0" "len2 s = 0"
  shows "\<exists>D. arr s = P @ D @ T \<and> mset D = M"
proof -
  from assms(1) obtain D G S2 where p: "arr s = P @ D @ G @ S2 @ T"
    "len1 s = int (length G)" "len2 s = int (length S2)"
    "0 \<le> cursor1 s" "cursor1 s + int (length G) = int (length tmp)"
    "mset D + mset (drop (nat (cursor1 s)) tmp) + mset S2 = M"
    by (rule lo_inv_parts)
  have "G = []" "S2 = []" using p assms by simp_all
  moreover have "drop (nat (cursor1 s)) tmp = []" using p \<open>G = []\<close> by simp
  ultimately show ?thesis using p by simp
qed

lemma lo_inv_lens: "lo_inv P T M R2 tmp s \<Longrightarrow> 0 \<le> len1 s \<and> 0 \<le> len2 s"
  by (auto simp: lo_inv_def)

lemma lo_tail_run1:
  assumes inv: "lo_inv P T M R2 tmp s" and l: "len2 s = 0" "1 \<le> len1 s"
  shows "\<exists>a D. arraycopy_i u tmp (cursor1 s) (arr s) (dest s) (len1 s) = Some a \<and>
           a = P @ D @ T \<and> mset D = M"
proof -
  have n: "0 < len1 s" "len1 s \<le> len1 s" using l by simp_all
  from lo_inv_block1[OF inv n, of u "events s"]
  obtain a where a: "arraycopy_i u tmp (cursor1 s) (arr s) (dest s) (len1 s) = Some a"
    and inv': "lo_inv P T M R2 tmp (s\<lparr>arr := a, dest := dest s + len1 s,
       cursor1 := cursor1 s + len1 s, len1 := len1 s - len1 s, events := events s\<rparr>)"
    by blast
  from lo_inv_final[OF inv'] l obtain D where "a = P @ D @ T" "mset D = M" by auto
  then show ?thesis using a by simp
qed

lemma lo_tail_run2:
  assumes inv: "lo_inv P T M R2 tmp s" and l: "len1 s = 1" "1 \<le> len2 s"
  shows "\<exists>a D. arraycopy_i u (arr s) (cursor2 s) (arr s) (dest s) (len2 s) = Some a \<and>
           aset_i u a (dest s + len2 s) (aget_i u tmp (cursor1 s)) = P @ D @ T \<and> mset D = M"
proof -
  have n: "0 < len2 s" "len2 s \<le> len2 s" using l by simp_all
  define s' where "s' = (\<lambda>a. s\<lparr>arr := a, dest := dest s + len2 s,
       cursor2 := cursor2 s + len2 s, len2 := len2 s - len2 s, events := events s\<rparr>)"
  from lo_inv_block2[OF inv n, of u "events s"]
  obtain a where a: "arraycopy_i u (arr s) (cursor2 s) (arr s) (dest s) (len2 s) = Some a"
    and inv': "lo_inv P T M R2 tmp (s' a)"
    unfolding s'_def by blast
  have f: "len1 (s' a) = 1" "len2 (s' a) = 0" "arr (s' a) = a" "dest (s' a) = dest s + len2 s"
    "cursor1 (s' a) = cursor1 s"
    using l by (simp_all add: s'_def)
  have "lo_inv P T M R2 tmp ((lo_take1 u tmp (s' a))\<lparr>len1 := len1 (s' a) - 1\<rparr>)"
    using inv' f by (intro lo_inv_take1) simp_all
  from lo_inv_final[OF this] f
  obtain D where "arr (lo_take1 u tmp (s' a)) = P @ D @ T" "mset D = M" by auto
  then show ?thesis using a f by (auto simp: lo_take1_def)
qed

lemma mergeLo_finish_post:
  assumes "lo_post P T M R2 tmp cmp st (BreakOuter s)"
  shows "\<exists>r. mergeLo_finish u tmp s = Some r \<and>
           (r = Inl ComparatorContractViolation \<longleftrightarrow> len1 s = 0) \<and>
           (len1 s \<noteq> 0 \<longrightarrow> (\<exists>D. r = Inr (P @ D @ T, events s) \<and> mset D = M)) \<and>
           (lo_ordered cmp tmp R2 \<longrightarrow> len1 s \<noteq> 0)"
proof -
  from assms have inv: "lo_inv P T M R2 tmp s"
    and shape: "(len2 s = 0 \<and> 2 \<le> len1 s) \<or> (len1 s \<le> 1 \<and> 1 \<le> len2 s)"
    and ord: "lo_ordered cmp tmp R2 \<longrightarrow> len1 s \<noteq> 0"
    by (simp_all add: lo_post_def)
  note lens = lo_inv_lens[OF inv]
  consider "len1 s = 1" | "len1 s = 0" | "2 \<le> len1 s" using lens by linarith
  then show ?thesis
  proof cases
    case 1
    then have "1 \<le> len2 s" using shape by auto
    from lo_tail_run2[OF inv 1 this, of u]
    show ?thesis using 1 ord by (auto simp: mergeLo_finish_def Let_def)
  next
    case 2
    then show ?thesis using ord by (simp add: mergeLo_finish_def Let_def)
  next
    case 3
    then have "len2 s = 0" "1 \<le> len1 s" using shape by auto
    from lo_tail_run1[OF inv this, of u]
    show ?thesis using 3 ord by (auto simp: mergeLo_finish_def Let_def)
  qed
qed

lemma mergeLo_init_inv:
  assumes "a = P @ A @ B @ T" "base1 = int (length P)" "l1 = int (length A)"
    "base2 = base1 + l1" "l2 = int (length B)" "A \<noteq> []" "B \<noteq> []"
  shows "lo_inv P T (mset A + mset B) (set B) A (mergeLo_init u a base1 l1 base2 l2 tr)"
    and "len1 (mergeLo_init u a base1 l1 base2 l2 tr) = l1"
    and "len2 (mergeLo_init u a base1 l1 base2 l2 tr) = l2 - 1"
    and "events (mergeLo_init u a base1 l1 base2 l2 tr) = tr"
    and "minGallop (mergeLo_init u a base1 l1 base2 l2 tr) = MIN_GALLOP"
    and "slice_i a base1 (base1 + l1) = A"
proof -
  define i0 :: "'a merge_state" where "i0 = \<lparr>arr = a, cursor1 = 0, cursor2 = base2, dest = base1, len1 = l1, len2 = l2,
                 minGallop = MIN_GALLOP, events = tr\<rparr>"
  have e: "mergeLo_init u a base1 l1 base2 l2 tr = (lo_take2 u i0)\<lparr>len2 := len2 i0 - 1\<rparr>"
    by (simp add: mergeLo_init_def Let_def i0_def)
  have inv0: "lo_inv P T (mset A + mset B) (set B) A i0"
    by (rule lo_invI[of _ _ "[]" A B]) (use assms in \<open>simp_all add: i0_def\<close>)
  have l: "1 \<le> len1 i0" "1 \<le> len2 i0"
    using assms by (simp_all add: i0_def Suc_le_eq)
  show "lo_inv P T (mset A + mset B) (set B) A (mergeLo_init u a base1 l1 base2 l2 tr)"
    unfolding e using inv0 l by (rule lo_inv_take2)
  show "len1 (mergeLo_init u a base1 l1 base2 l2 tr) = l1"
    "len2 (mergeLo_init u a base1 l1 base2 l2 tr) = l2 - 1"
    "events (mergeLo_init u a base1 l1 base2 l2 tr) = tr"
    "minGallop (mergeLo_init u a base1 l1 base2 l2 tr) = MIN_GALLOP"
    unfolding e by (simp_all add: i0_def)
  show "slice_i a base1 (base1 + l1) = A"
    using assms by (simp add: slice_i_def Let_def)
qed

lemma mergeLo_parts:
  assumes "a = P @ A @ B @ T" "base1 = int (length P)" "l1 = int (length A)"
    "base2 = base1 + l1" "l2 = int (length B)" "A \<noteq> []" "B \<noteq> []"
  shows "\<exists>r. mergeLo u cmp a base1 l1 base2 l2 tr = Some r \<and>
           (\<forall>a' tr'. r = Inr (a', tr') \<longrightarrow> (\<exists>D. a' = P @ D @ T \<and> mset D = mset A + mset B)) \<and>
           (lo_ordered cmp A (set B) \<longrightarrow> (\<exists>a' tr'. r = Inr (a', tr'))) \<and>
           (\<forall>e. r = Inl e \<longleftrightarrow>
              e = ComparatorContractViolation \<and> l1 \<noteq> 1 \<and> l2 \<noteq> 1 \<and>
              (\<exists>s. mergeLo_outer u cmp A (mergeLo_init u a base1 l1 base2 l2 tr) = Some s \<and>
                   len1 s = 0))"
proof -
  define st0 where "st0 = mergeLo_init u a base1 l1 base2 l2 tr"
  have i: "lo_inv P T (mset A + mset B) (set B) A st0" "len1 st0 = l1" "len2 st0 = l2 - 1"
    "events st0 = tr" "minGallop st0 = MIN_GALLOP" "slice_i a base1 (base1 + l1) = A"
    unfolding st0_def by (rule mergeLo_init_inv[OF assms])+
  have m: "mergeLo u cmp a base1 l1 base2 l2 tr =
     (if len2 st0 = 0 then
           (case arraycopy_i u A (cursor1 st0) (arr st0) (dest st0) (len1 st0) of
              None \<Rightarrow> None
            | Some a \<Rightarrow> Some (Inr (a, events st0)))
         else if len1 st0 = 1 then
           (case arraycopy_i u (arr st0) (cursor2 st0) (arr st0) (dest st0) (len2 st0) of
              None \<Rightarrow> None
            | Some a \<Rightarrow>
                Some (Inr (aset_i u a (dest st0 + len2 st0) (aget_i u A (cursor1 st0)), events st0)))
         else
           (case mergeLo_outer u cmp A st0 of
              None \<Rightarrow> None
            | Some st \<Rightarrow> mergeLo_finish u A st))"
    by (simp only: mergeLo_def Let_def i(6) st0_def[symmetric])
  have l1: "1 \<le> len1 st0" using i(2) assms by (simp add: Suc_le_eq)
  have l2: "0 \<le> len2 st0" using i(3) assms by (simp add: Suc_le_eq)
  consider "len2 st0 = 0" | "len2 st0 \<noteq> 0" "len1 st0 = 1" | "1 \<le> len2 st0" "2 \<le> len1 st0"
    using l1 l2 by linarith
  then show ?thesis
  proof cases
    case 1
    from lo_tail_run1[OF i(1) 1 l1, of u] show ?thesis unfolding m using 1 i(3) by auto
  next
    case 2
    then have "1 \<le> len2 st0" using l2 by simp
    from lo_tail_run2[OF i(1) 2(2) this, of u] show ?thesis unfolding m using 2 i(2) by auto
  next
    case 3
    from mergeLo_outer_post[OF i(1) 3(2) 3(1), of u cmp]
    obtain s where s: "mergeLo_outer u cmp A st0 = Some s"
      "lo_post P T (mset A + mset B) (set B) A cmp st0 (BreakOuter s)" by blast
    from mergeLo_finish_post[OF s(2), of u]
    obtain r where r: "mergeLo_finish u A s = Some r"
      "r = Inl ComparatorContractViolation \<longleftrightarrow> len1 s = 0"
      "len1 s \<noteq> 0 \<longrightarrow> (\<exists>D. r = Inr (P @ D @ T, events s) \<and> mset D = mset A + mset B)"
      "lo_ordered cmp A (set B) \<longrightarrow> len1 s \<noteq> 0"
      by blast
    have e: "mergeLo u cmp a base1 l1 base2 l2 tr = Some r"
      unfolding m using 3 s(1) r(1) by simp
    have n: "l1 \<noteq> 1" "l2 \<noteq> 1" using 3 i(2,3) by simp_all
    have o: "mergeLo_outer u cmp A (mergeLo_init u a base1 l1 base2 l2 tr) = Some s"
      using s(1) by (simp add: st0_def)
    show ?thesis
    proof (cases "len1 s = 0")
      case True
      then show ?thesis using e r n o by auto
    next
      case False
      then show ?thesis using e r n o by auto
    qed
  qed
qed

lemma hi_inv_parts:
  assumes "hi_inv P T M R1 tmp st"
  obtains S1 G D where "arr st = P @ S1 @ G @ D @ T"
    "len1 st = int (length S1)" "len2 st = int (length G)"
    "cursor1 st = int (length P) + int (length S1) - 1"
    "dest st = int (length P) + int (length S1) + int (length G) - 1"
    "cursor2 st = int (length G) - 1" "int (length G) \<le> int (length tmp)"
    "mset S1 + mset (take (length G) tmp) + mset D = M" "set S1 \<subseteq> R1"
  using assms unfolding hi_inv_def by auto

lemma hi_invI:
  assumes "arr st = P @ S1 @ G @ D @ T"
    "len1 st = int (length S1)" "len2 st = int (length G)"
    "cursor1 st = int (length P) + int (length S1) - 1"
    "dest st = int (length P) + int (length S1) + int (length G) - 1"
    "cursor2 st = int (length G) - 1" "int (length G) \<le> int (length tmp)"
    "mset S1 + mset (take (length G) tmp) + mset D = M" "set S1 \<subseteq> R1"
  shows "hi_inv P T M R1 tmp st"
  unfolding hi_inv_def
  by (rule exI[of _ S1], rule exI[of _ G], rule exI[of _ D]) (use assms in simp)

lemma hi_inv_other [simp]:
  "hi_inv P T M R1 tmp (st\<lparr>events := tr\<rparr>) = hi_inv P T M R1 tmp st"
  "hi_inv P T M R1 tmp (st\<lparr>minGallop := g\<rparr>) = hi_inv P T M R1 tmp st"
  by (simp_all add: hi_inv_def)

lemma hi_inv_take1:
  assumes "hi_inv P T M R1 tmp st" "1 \<le> len1 st" "1 \<le> len2 st"
  shows "hi_inv P T M R1 tmp ((hi_take1 u st)\<lparr>len1 := len1 st - 1\<rparr>)"
    and "aget_i u (arr st) (cursor1 st) \<in> R1"
proof -
  from assms(1) obtain S1 G D where i: "arr st = P @ S1 @ G @ D @ T"
    "len1 st = int (length S1)" "len2 st = int (length G)"
    "cursor1 st = int (length P) + int (length S1) - 1"
    "dest st = int (length P) + int (length S1) + int (length G) - 1"
    "cursor2 st = int (length G) - 1" "int (length G) \<le> int (length tmp)"
    "mset S1 + mset (take (length G) tmp) + mset D = M" "set S1 \<subseteq> R1"
    by (rule hi_inv_parts)
  obtain S1' x where S: "S1 = S1' @ [x]" using assms(2) i(2) by (cases S1 rule: rev_cases) auto
  obtain G' g where G: "G = G' @ [g]" using assms(3) i(3) by (cases G rule: rev_cases) auto
  have rd: "aget_i u (arr st) (cursor1 st) = x"
    by (rule aget_i_parts[of _ "P @ S1'" _ "G @ D @ T"]) (simp_all add: i S)
  show "aget_i u (arr st) (cursor1 st) \<in> R1" using rd i(9) S by simp
  have wr: "aset_i u (arr st) (dest st) x = (P @ S1' @ [x] @ G') @ x # (D @ T)"
    by (rule aset_i_parts[of _ _ g]) (simp_all add: i G S)
  let ?s = "(hi_take1 u st)\<lparr>len1 := len1 st - 1\<rparr>"
  have f: "arr ?s = P @ S1' @ (x # G') @ (x # D) @ T"
    "dest ?s = dest st - 1" "cursor2 ?s = cursor2 st" "cursor1 ?s = cursor1 st - 1"
    "len1 ?s = len1 st - 1" "len2 ?s = len2 st"
    using rd wr by (simp_all add: hi_take1_def)
  show "hi_inv P T M R1 tmp ?s"
  proof (rule hi_invI[of _ _ S1' "x # G'" "x # D"])
    show "arr ?s = P @ S1' @ (x # G') @ (x # D) @ T" by (rule f(1))
    show "len1 ?s = int (length S1')" using f(5) i(2) S by simp
    show "len2 ?s = int (length (x # G'))" using f(6) i(3) G by simp
    show "cursor1 ?s = int (length P) + int (length S1') - 1" using f(4) i(4) S by simp
    show "dest ?s = int (length P) + int (length S1') + int (length (x # G')) - 1"
      using f(2) i(5) S G by simp
    show "cursor2 ?s = int (length (x # G')) - 1" using f(3) i(6) G by simp
    show "int (length (x # G')) \<le> int (length tmp)" using i(7) G by simp
    show "mset S1' + mset (take (length (x # G')) tmp) + mset (x # D) = M"
      using i(8) S G by simp
    show "set S1' \<subseteq> R1" using i(9) S by simp
  qed
qed

lemma hi_inv_take2:
  assumes "hi_inv P T M R1 tmp st" "1 \<le> len2 st"
  shows "hi_inv P T M R1 tmp ((hi_take2 u tmp st)\<lparr>len2 := len2 st - 1\<rparr>)"
proof -
  from assms(1) obtain S1 G D where i: "arr st = P @ S1 @ G @ D @ T"
    "len1 st = int (length S1)" "len2 st = int (length G)"
    "cursor1 st = int (length P) + int (length S1) - 1"
    "dest st = int (length P) + int (length S1) + int (length G) - 1"
    "cursor2 st = int (length G) - 1" "int (length G) \<le> int (length tmp)"
    "mset S1 + mset (take (length G) tmp) + mset D = M" "set S1 \<subseteq> R1"
    by (rule hi_inv_parts)
  obtain G' g where G: "G = G' @ [g]" using assms(2) i(3) by (cases G rule: rev_cases) auto
  have c: "length G' < length tmp" using i(7) G by simp
  define t where "t = tmp ! length G'"
  have rd: "aget_i u tmp (cursor2 st) = t" using c i(6) G by (simp add: aget_i_def t_def)
  have tk: "take (length G) tmp = take (length G') tmp @ [t]"
    using c G by (simp add: t_def take_Suc_conv_app_nth)
  have wr: "aset_i u (arr st) (dest st) t = (P @ S1 @ G') @ t # (D @ T)"
    by (rule aset_i_parts[of _ _ g]) (simp_all add: i G)
  let ?s = "(hi_take2 u tmp st)\<lparr>len2 := len2 st - 1\<rparr>"
  have f: "arr ?s = P @ S1 @ G' @ (t # D) @ T"
    "dest ?s = dest st - 1" "cursor2 ?s = cursor2 st - 1" "cursor1 ?s = cursor1 st"
    "len1 ?s = len1 st" "len2 ?s = len2 st - 1"
    using rd wr by (simp_all add: hi_take2_def)
  show ?thesis
  proof (rule hi_invI[of _ _ S1 G' "t # D"])
    show "arr ?s = P @ S1 @ G' @ (t # D) @ T" by (rule f(1))
    show "len1 ?s = int (length S1)" using f(5) i(2) by simp
    show "len2 ?s = int (length G')" using f(6) i(3) G by simp
    show "cursor1 ?s = int (length P) + int (length S1) - 1" using f(4) i(4) by simp
    show "dest ?s = int (length P) + int (length S1) + int (length G') - 1"
      using f(2) i(5) G by simp
    show "cursor2 ?s = int (length G') - 1" using f(3) i(6) G by simp
    show "int (length G') \<le> int (length tmp)" using i(7) G by simp
    show "mset S1 + mset (take (length G') tmp) + mset (t # D) = M"
      using i(8) unfolding tk by simp
    show "set S1 \<subseteq> R1" by (rule i(9))
  qed
qed

lemma hi_inv_block1:
  assumes "hi_inv P T M R1 tmp st" "0 < n" "n \<le> len1 st"
  shows "\<exists>a. arraycopy_i u (arr st) (cursor1 st - n + 1) (arr st) (dest st - n + 1) n = Some a \<and>
           hi_inv P T M R1 tmp (st\<lparr>arr := a, dest := dest st - n, cursor1 := cursor1 st - n,
              len1 := len1 st - n, events := tr\<rparr>)"
proof -
  from assms(1) obtain S1 G D where i: "arr st = P @ S1 @ G @ D @ T"
    "len1 st = int (length S1)" "len2 st = int (length G)"
    "cursor1 st = int (length P) + int (length S1) - 1"
    "dest st = int (length P) + int (length S1) + int (length G) - 1"
    "cursor2 st = int (length G) - 1" "int (length G) \<le> int (length tmp)"
    "mset S1 + mset (take (length G) tmp) + mset D = M" "set S1 \<subseteq> R1"
    by (rule hi_inv_parts)
  define k where "k = length S1 - nat n"
  define S1' where "S1' = take k S1"
  define B where "B = drop k S1"
  have S: "S1 = S1' @ B" by (simp add: S1'_def B_def)
  have lS: "int (length S1') = int (length S1) - n" "int (length B) = n"
    using assms(2,3) i(2) by (auto simp: S1'_def B_def k_def)
  define G' where "G' = take (length G) (B @ G)"
  define Y where "Y = drop (length G) (B @ G)"
  have BG: "B @ G = G' @ Y" by (simp only: G'_def Y_def append_take_drop_id)
  have lG: "length G' = length G" "int (length Y) = n"
    using lS by (auto simp: G'_def Y_def)
  have cp: "arraycopy_i u (arr st) (cursor1 st - n + 1) (arr st) (dest st - n + 1) n
      = Some ((P @ S1' @ G') @ B @ (D @ T))"
  proof (rule arraycopy_i_parts[of _ _ Y _ _ _ _ "P @ S1'" _ "G @ D @ T"])
    have "P @ S1 @ G @ D @ T = P @ S1' @ (B @ G) @ D @ T" using S by simp
    also have "\<dots> = (P @ S1' @ G') @ Y @ D @ T" unfolding BG by simp
    finally show "arr st = (P @ S1' @ G') @ Y @ D @ T" using i(1) by simp
    show "int (length (P @ S1' @ G')) = dest st - n + 1" using i(5) lS lG by simp
    show "int (length Y) = n" by (rule lG(2))
    show "arr st = (P @ S1') @ B @ G @ D @ T" using i(1) S by simp
    show "int (length (P @ S1')) = cursor1 st - n + 1" using i(4) lS by simp
    show "int (length B) = n" by (rule lS(2))
  qed
  let ?s = "st\<lparr>arr := (P @ S1' @ G') @ B @ (D @ T), dest := dest st - n,
          cursor1 := cursor1 st - n, len1 := len1 st - n, events := tr\<rparr>"
  have "hi_inv P T M R1 tmp ?s"
  proof (rule hi_invI[of _ _ S1' G' "B @ D"])
    show "arr ?s = P @ S1' @ G' @ (B @ D) @ T" by simp
    show "len1 ?s = int (length S1')" using i(2) lS by simp
    show "len2 ?s = int (length G')" using i(3) lG by simp
    show "cursor1 ?s = int (length P) + int (length S1') - 1" using i(4) lS by simp
    show "dest ?s = int (length P) + int (length S1') + int (length G') - 1"
      using i(5) lS lG by simp
    show "cursor2 ?s = int (length G') - 1" using i(6) lG by simp
    show "int (length G') \<le> int (length tmp)" using i(7) lG by simp
    have "mset S1 = mset S1' + mset B" by (subst S) simp
    then show "mset S1' + mset (take (length G') tmp) + mset (B @ D) = M"
      using i(8) lG by (simp add: ac_simps)
    show "set S1' \<subseteq> R1" using i(9) S by auto
  qed
  then show ?thesis using cp by simp
qed

lemma hi_inv_block2:
  assumes "hi_inv P T M R1 tmp st" "0 < n" "n \<le> len2 st"
  shows "\<exists>a. arraycopy_i u tmp (cursor2 st - n + 1) (arr st) (dest st - n + 1) n = Some a \<and>
           hi_inv P T M R1 tmp (st\<lparr>arr := a, dest := dest st - n, cursor2 := cursor2 st - n,
              len2 := len2 st - n, events := tr\<rparr>)"
proof -
  from assms(1) obtain S1 G D where i: "arr st = P @ S1 @ G @ D @ T"
    "len1 st = int (length S1)" "len2 st = int (length G)"
    "cursor1 st = int (length P) + int (length S1) - 1"
    "dest st = int (length P) + int (length S1) + int (length G) - 1"
    "cursor2 st = int (length G) - 1" "int (length G) \<le> int (length tmp)"
    "mset S1 + mset (take (length G) tmp) + mset D = M" "set S1 \<subseteq> R1"
    by (rule hi_inv_parts)
  define k where "k = length G - nat n"
  define G' where "G' = take k G"
  define Y where "Y = drop k G"
  have G: "G = G' @ Y" by (simp add: G'_def Y_def)
  have lG: "int (length G') = int (length G) - n" "int (length Y) = n" "length G' = k"
    using assms(2,3) i(3) by (auto simp: G'_def Y_def k_def)
  define B where "B = drop k (take (length G) tmp)"
  have lB: "int (length B) = n" using assms(2,3) i(3,7) by (auto simp: B_def k_def)
  have kl: "k \<le> length G" by (simp add: k_def)
  have tk: "take (length G) tmp = take k tmp @ B"
  proof -
    have "take (length G) tmp = take k (take (length G) tmp) @ drop k (take (length G) tmp)"
      by (simp only: append_take_drop_id)
    also have "take k (take (length G) tmp) = take k tmp" using kl by (simp add: min_def)
    finally show ?thesis by (simp add: B_def)
  qed
  have tmp: "tmp = take k tmp @ B @ drop (length G) tmp"
    using tk by (metis append.assoc append_take_drop_id)
  have cp: "arraycopy_i u tmp (cursor2 st - n + 1) (arr st) (dest st - n + 1) n
      = Some ((P @ S1 @ G') @ B @ (D @ T))"
  proof (rule arraycopy_i_parts[of _ _ Y _ _ _ _ "take k tmp" _ "drop (length G) tmp"])
    show "arr st = (P @ S1 @ G') @ Y @ D @ T" using i(1) G by simp
    show "int (length (P @ S1 @ G')) = dest st - n + 1" using i(5) lG by simp
    show "int (length Y) = n" by (rule lG(2))
    show "tmp = take k tmp @ B @ drop (length G) tmp" by (rule tmp)
    show "int (length (take k tmp)) = cursor2 st - n + 1"
      using i(6,7) lG kl by (simp add: min_def)
    show "int (length B) = n" by (rule lB)
  qed
  let ?s = "st\<lparr>arr := (P @ S1 @ G') @ B @ (D @ T), dest := dest st - n,
          cursor2 := cursor2 st - n, len2 := len2 st - n, events := tr\<rparr>"
  have "hi_inv P T M R1 tmp ?s"
  proof (rule hi_invI[of _ _ S1 G' "B @ D"])
    show "arr ?s = P @ S1 @ G' @ (B @ D) @ T" by simp
    show "len1 ?s = int (length S1)" using i(2) by simp
    show "len2 ?s = int (length G')" using i(3) lG by simp
    show "cursor1 ?s = int (length P) + int (length S1) - 1" using i(4) by simp
    show "dest ?s = int (length P) + int (length S1) + int (length G') - 1"
      using i(5) lG by simp
    show "cursor2 ?s = int (length G') - 1" using i(6) lG by simp
    show "int (length G') \<le> int (length tmp)" using i(7) lG assms(2) by simp
    have "mset (take (length G) tmp) = mset (take k tmp) + mset B" by (subst tk) simp
    then show "mset S1 + mset (take (length G') tmp) + mset (B @ D) = M"
      using i(8) lG(3) by (simp add: ac_simps)
    show "set S1 \<subseteq> R1" by (rule i(9))
  qed
  then show ?thesis using cp by simp
qed

lemma hi_post_later:
  assumes "hi_post P T M R1 tmp cmp s1 r" "walks st s1"
    "len1 s1 + len2 s1 \<le> len1 st + len2 st"
  shows "hi_post P T M R1 tmp cmp st r"
proof (cases r)
  case (BreakOuter s)
  then show ?thesis using assms walks_trans[OF assms(2)] by (auto simp: hi_post_def)
next
  case (Fallthrough s)
  then show ?thesis using assms walks_trans[OF assms(2)] by (auto simp: hi_post_def)
qed

lemma hi_take1_fields [simp]:
  "len1 (hi_take1 u st) = len1 st" "len2 (hi_take1 u st) = len2 st"
  "minGallop (hi_take1 u st) = minGallop st" "events (hi_take1 u st) = events st"
  by (simp_all add: hi_take1_def)

lemma hi_take2_fields [simp]:
  "len1 (hi_take2 u tmp st) = len1 st" "len2 (hi_take2 u tmp st) = len2 st"
  "minGallop (hi_take2 u tmp st) = minGallop st" "events (hi_take2 u tmp st) = events st"
  by (simp_all add: hi_take2_def)

lemma hi_inv_gallop_won [simp]:
  "hi_inv P T M R1 tmp (observe ev st0 (gallop_won st)) = hi_inv P T M R1 tmp st"
  by (simp add: gallop_won_def observe_def)

lemma hi_inv_gallop_penalty [simp]:
  "hi_inv P T M R1 tmp (observe ev st0 (gallop_penalty st)) = hi_inv P T M R1 tmp st"
  by (simp add: gallop_penalty_def observe_def Let_def)

lemma mergeHi_straight_post:
  assumes "hi_inv P T M R1 tmp st" "1 \<le> len1 st" "2 \<le> len2 st"
  shows "\<exists>r. mergeHi_straight u cmp tmp st c1 c2 = Some r \<and> hi_post P T M R1 tmp cmp st r"
  using assms
proof (induction "nat (len1 st + len2 st)" arbitrary: st c1 c2 rule: less_induct)
  case less
  define x where "x = aget_i u tmp (cursor2 st)"
  define y where "y = aget_i u (arr st) (cursor1 st)"
  define st0 where "st0 = st\<lparr>events := events st @ [Compare Merging x y]\<rparr>"
  have inv0: "hi_inv P T M R1 tmp st0" using less.prems(1) by (simp add: st0_def)
  have f0: "len1 st0 = len1 st" "len2 st0 = len2 st" "minGallop st0 = minGallop st"
    "events st0 = events st @ [Compare Merging x y]"
    by (simp_all add: st0_def)
  show ?case
  proof (cases "cmp x y < 0")
    case True
    define s1 where "s1 = (hi_take1 u st0)\<lparr>len1 := len1 st0 - 1\<rparr>"
    have step: "mergeHi_straight u cmp tmp st c1 c2 =
        (if len1 s1 = 0 then Some (BreakOuter s1)
         else if or32 (c1 + 1) 0 < minGallop s1 then mergeHi_straight u cmp tmp s1 (c1 + 1) 0
         else Some (Fallthrough s1))"
      using True
      by (subst mergeHi_straight.simps)
         (simp add: Let_def x_def y_def st0_def s1_def hi_take1_def)
    have inv1: "hi_inv P T M R1 tmp s1"
      unfolding s1_def using inv0 less.prems f0 by (intro hi_inv_take1) simp_all
    have f1: "len1 s1 = len1 st - 1" "len2 s1 = len2 st" "minGallop s1 = minGallop st"
      "events s1 = events st @ [Compare Merging x y]"
      by (simp_all add: s1_def st0_def)
    have w1: "walks st s1" using f1 by (intro walks_event) simp_all
    show ?thesis
    proof (cases "len1 s1 = 0")
      case True
      then show ?thesis
        unfolding step using inv1 f1 w1 less.prems by (simp add: hi_post_def)
    next
      case False
      then have l1: "1 \<le> len1 s1" using f1 less.prems by simp
      show ?thesis
      proof (cases "or32 (c1 + 1) 0 < minGallop s1")
        case True
        have d: "nat (len1 s1 + len2 s1) < nat (len1 st + len2 st)"
          using f1 less.prems by simp
        from less.hyps[OF d inv1 l1, of "c1 + 1" 0] f1 less.prems
        obtain r where r: "mergeHi_straight u cmp tmp s1 (c1 + 1) 0 = Some r"
          "hi_post P T M R1 tmp cmp s1 r" by auto
        have "hi_post P T M R1 tmp cmp st r"
          using r(2) w1 by (rule hi_post_later) (simp add: f1)
        then show ?thesis unfolding step using False True r(1) by simp
      next
        case nf: False
        show ?thesis
          unfolding step using False nf inv1 f1 w1 l1 less.prems by (simp add: hi_post_def)
      qed
    qed
  next
    case ge: False
    define s1 where "s1 = (hi_take2 u tmp st0)\<lparr>len2 := len2 st0 - 1\<rparr>"
    have step: "mergeHi_straight u cmp tmp st c1 c2 =
        (if len2 s1 = 1 then Some (BreakOuter s1)
         else if or32 0 (c2 + 1) < minGallop s1 then mergeHi_straight u cmp tmp s1 0 (c2 + 1)
         else Some (Fallthrough s1))"
      using ge
      by (subst mergeHi_straight.simps)
         (simp add: Let_def x_def y_def st0_def s1_def hi_take2_def)
    have inv1: "hi_inv P T M R1 tmp s1"
      unfolding s1_def using inv0 less.prems f0 by (intro hi_inv_take2) simp_all
    have f1: "len1 s1 = len1 st" "len2 s1 = len2 st - 1" "minGallop s1 = minGallop st"
      "events s1 = events st @ [Compare Merging x y]"
      by (simp_all add: s1_def st0_def)
    have w1: "walks st s1" using f1 by (intro walks_event) simp_all
    show ?thesis
    proof (cases "len2 s1 = 1")
      case True
      then show ?thesis
        unfolding step using inv1 f1 w1 less.prems by (simp add: hi_post_def)
    next
      case False
      then have l2: "2 \<le> len2 s1" using f1 less.prems by simp
      show ?thesis
      proof (cases "or32 0 (c2 + 1) < minGallop s1")
        case True
        have d: "nat (len1 s1 + len2 s1) < nat (len1 st + len2 st)"
          using f1 less.prems by simp
        from less.hyps[OF d inv1 _ l2, of 0 "c2 + 1"] f1 less.prems
        obtain r where r: "mergeHi_straight u cmp tmp s1 0 (c2 + 1) = Some r"
          "hi_post P T M R1 tmp cmp s1 r" by auto
        have "hi_post P T M R1 tmp cmp st r"
          using r(2) w1 by (rule hi_post_later) (simp add: f1)
        then show ?thesis unfolding step using False True r(1) by simp
      next
        case nf: False
        show ?thesis
          unfolding step using False nf inv1 f1 w1 l2 less.prems by (simp add: hi_post_def)
      qed
    qed
  qed
qed

lemma hi_gallop1_post:
  assumes inv: "hi_inv P T M R1 tmp st" and l: "1 \<le> len1 st"
  shows "\<exists>c s. hi_gallop1 u cmp tmp base1 st = Some (c, s) \<and> 0 \<le> c \<and> c \<le> len1 st \<and>
           hi_inv P T M R1 tmp s \<and> len1 s = len1 st - c \<and> len2 s = len2 st \<and> walks st s"
proof -
  define key where "key = aget_i u tmp (cursor2 st)"
  from gallopRight_range[of "len1 st - 1" "len1 st" u cmp key "arr st" base1 "events st"] l
  obtain k ev where g: "gallopRight u cmp key (arr st) base1 (len1 st) (len1 st - 1) (events st) = (k, events st @ ev)"
    and k: "0 \<le> k" "k \<le> len1 st" and ev: "\<forall>e\<in>set ev. \<exists>x y. e = Compare Galloping x y"
    by auto
  define c where "c = len1 st - k"
  have c: "0 \<le> c" "c \<le> len1 st" using k by (simp_all add: c_def)
  show ?thesis
  proof (cases "c = 0")
    case True
    have "k = len1 st" using True by (simp add: c_def)
    then have "hi_gallop1 u cmp tmp base1 st = Some (c, st\<lparr>events := events st @ ev\<rparr>)"
      using g True by (simp add: hi_gallop1_def key_def[symmetric] Let_def)
    moreover have "walks st (st\<lparr>events := events st @ ev\<rparr>)"
      using ev by (intro walks_compares[of _ _ ev]) auto
    ultimately show ?thesis using inv c True by auto
  next
    case False
    then have cp: "0 < c" using c by simp
    from hi_inv_block1[OF inv cp c(2), of u "events st @ ev"]
    obtain a where a: "arraycopy_i u (arr st) (cursor1 st - c + 1) (arr st) (dest st - c + 1) c = Some a"
      and inv': "hi_inv P T M R1 tmp (st\<lparr>arr := a, dest := dest st - c, cursor1 := cursor1 st - c,
              len1 := len1 st - c, events := events st @ ev\<rparr>)"
      by auto
    define s where "s = st\<lparr>arr := a, dest := dest st - c, cursor1 := cursor1 st - c,
              len1 := len1 st - c, events := events st @ ev\<rparr>"
    have "hi_gallop1 u cmp tmp base1 st = Some (c, s)"
      using g False a
      by (simp add: hi_gallop1_def key_def[symmetric] c_def Let_def s_def)
    moreover have "walks st s"
      using ev by (intro walks_compares[of _ _ ev]) (auto simp: s_def)
    moreover have "len1 s = len1 st - c" "len2 s = len2 st" by (simp_all add: s_def)
    ultimately show ?thesis using inv' c unfolding s_def[symmetric] by blast
  qed
qed

lemma hi_gallop2_post:
  assumes inv: "hi_inv P T M R1 tmp st" and l: "1 \<le> len1 st" "1 \<le> len2 st"
  shows "\<exists>c s. hi_gallop2 u cmp tmp st = Some (c, s) \<and> 0 \<le> c \<and> c \<le> len2 st \<and>
           hi_inv P T M R1 tmp s \<and> len1 s = len1 st \<and> len2 s = len2 st - c \<and> walks st s \<and>
           (hi_ordered cmp tmp R1 \<longrightarrow> c < len2 st)"
proof -
  define key where "key = aget_i u (arr st) (cursor1 st)"
  have key: "key \<in> R1"
    unfolding key_def using inv l by (intro hi_inv_take1(2)[of P T M R1 tmp st]) simp_all
  from gallopLeft_range[of "len2 st - 1" "len2 st" u cmp key tmp 0 "events st"] l
  obtain k ev where g: "gallopLeft u cmp key tmp 0 (len2 st) (len2 st - 1) (events st) = (k, events st @ ev)"
    and k: "0 \<le> k" "k \<le> len2 st" and ev: "\<forall>e\<in>set ev. \<exists>x y. e = Compare Galloping x y"
    by auto
  define c where "c = len2 st - k"
  have c: "0 \<le> c" "c \<le> len2 st" using k by (simp_all add: c_def)
  have ord: "c < len2 st" if o: "hi_ordered cmp tmp R1"
  proof -
    have p: "len2 st \<le> int (length tmp)" using inv by (auto simp: hi_inv_def)
    have to: "total_order cmp" and srt: "nondecreasing cmp tmp" and ne: "tmp \<noteq> []"
      and small: "cmp (hd tmp) key < 0"
      using o key by (auto simp: hi_ordered_def)
    from gallopLeft_spec[OF to, of 0 "len2 st" tmp "len2 st - 1" u key "events st"] p l
      nondecreasing_slice[OF srt]
    obtain k' ev' where g': "gallopLeft u cmp key tmp 0 (len2 st) (len2 st - 1) (events st) = (k', events st @ ev')"
      and hi: "\<forall>j. k' \<le> j \<and> j < len2 st \<longrightarrow> cmp key (tmp ! nat (0 + j)) \<le> 0"
      by auto
    have kk: "k' = k" using g g' by simp
    have "k \<noteq> 0"
    proof
      assume "k = 0"
      then have "cmp key (tmp ! 0) \<le> 0" using hi kk l by auto
      moreover have "0 < cmp key (hd tmp)" using small to by (simp add: total_order_def)
      ultimately show False using ne by (simp add: hd_conv_nth)
    qed
    then show ?thesis using k by (simp add: c_def)
  qed
  show ?thesis
  proof (cases "c = 0")
    case True
    have "k = len2 st" using True by (simp add: c_def)
    then have "hi_gallop2 u cmp tmp st = Some (c, st\<lparr>events := events st @ ev\<rparr>)"
      using g True by (simp add: hi_gallop2_def key_def[symmetric] Let_def)
    moreover have "walks st (st\<lparr>events := events st @ ev\<rparr>)"
      using ev by (intro walks_compares[of _ _ ev]) auto
    ultimately show ?thesis using inv c ord True by auto
  next
    case False
    then have cp: "0 < c" using c by simp
    from hi_inv_block2[OF inv cp c(2), of u "events st @ ev"]
    obtain a where a: "arraycopy_i u tmp (cursor2 st - c + 1) (arr st) (dest st - c + 1) c = Some a"
      and inv': "hi_inv P T M R1 tmp (st\<lparr>arr := a, dest := dest st - c, cursor2 := cursor2 st - c,
              len2 := len2 st - c, events := events st @ ev\<rparr>)"
      by auto
    define s where "s = st\<lparr>arr := a, dest := dest st - c, cursor2 := cursor2 st - c,
              len2 := len2 st - c, events := events st @ ev\<rparr>"
    have "hi_gallop2 u cmp tmp st = Some (c, s)"
      using g False a
      by (simp add: hi_gallop2_def key_def[symmetric] c_def Let_def s_def)
    moreover have "walks st s"
      using ev by (intro walks_compares[of _ _ ev]) (auto simp: s_def)
    moreover have "len1 s = len1 st" "len2 s = len2 st - c" by (simp_all add: s_def)
    ultimately show ?thesis using inv' c ord unfolding s_def[symmetric] by blast
  qed
qed

lemma mergeHi_gallop_post:
  assumes "hi_inv P T M R1 tmp st" "1 \<le> len1 st" "2 \<le> len2 st"
  shows "\<exists>r. mergeHi_gallop u cmp tmp base1 st = Some r \<and> hi_post P T M R1 tmp cmp st r"
  using assms
proof (induction "nat (len1 st + len2 st)" arbitrary: st rule: less_induct)
  case less
  from hi_gallop1_post[OF less.prems(1,2), of u cmp base1]
  obtain c1 s1 where g1: "hi_gallop1 u cmp tmp base1 st = Some (c1, s1)"
    and c1: "0 \<le> c1" "c1 \<le> len1 st" and inv1: "hi_inv P T M R1 tmp s1"
    and f1: "len1 s1 = len1 st - c1" "len2 s1 = len2 st" and w1: "walks st s1"
    by blast
  show ?case
  proof (cases "c1 \<noteq> 0 \<and> len1 s1 = 0")
    case True
    have "mergeHi_gallop u cmp tmp base1 st = Some (BreakOuter s1)"
      by (subst mergeHi_gallop.simps) (simp only: g1 option.case prod.case if_P[OF True])
    moreover have "hi_post P T M R1 tmp cmp st (BreakOuter s1)"
      using inv1 True f1 w1 less.prems by (auto simp: hi_post_def)
    ultimately show ?thesis by simp
  next
    case n1: False
    then have l1: "1 \<le> len1 s1" using f1 c1 less.prems by auto
    define s2 where "s2 = (hi_take2 u tmp s1)\<lparr>len2 := len2 (hi_take2 u tmp s1) - 1\<rparr>"
    have e2: "s2 = (hi_take2 u tmp s1)\<lparr>len2 := len2 s1 - 1\<rparr>" by (simp add: s2_def)
    have inv2: "hi_inv P T M R1 tmp s2"
      unfolding e2 using inv1 f1 less.prems by (intro hi_inv_take2) simp_all
    have f2: "len1 s2 = len1 s1" "len2 s2 = len2 st - 1"
      "minGallop s2 = minGallop s1" "events s2 = events s1"
      by (simp_all add: s2_def f1)
    have w2: "walks st s2" using w1 f2 by (intro walks_trans[OF w1] walks_same) simp_all
    show ?thesis
    proof (cases "len2 s2 = 1")
      case True
      have "mergeHi_gallop u cmp tmp base1 st = Some (BreakOuter s2)"
        by (subst mergeHi_gallop.simps)
           (simp only: g1 option.case prod.case if_not_P[OF n1] Let_def s2_def[symmetric]
              if_P[OF True])
      moreover have "hi_post P T M R1 tmp cmp st (BreakOuter s2)"
        using inv2 True f2 w2 l1 by (simp add: hi_post_def)
      ultimately show ?thesis by simp
    next
      case n2: False
      then have l2: "2 \<le> len2 s2" using f2 less.prems by simp
      have l2': "1 \<le> len2 s2" using l2 by simp
      have l1': "1 \<le> len1 s2" using l1 f2 by simp
      from hi_gallop2_post[OF inv2 l1' l2', of u cmp]
      obtain c2 s3 where g2: "hi_gallop2 u cmp tmp s2 = Some (c2, s3)"
        and c2: "0 \<le> c2" "c2 \<le> len2 s2" and inv3: "hi_inv P T M R1 tmp s3"
        and f3: "len1 s3 = len1 s2" "len2 s3 = len2 s2 - c2" and w3: "walks s2 s3"
        and o3: "hi_ordered cmp tmp R1 \<longrightarrow> c2 < len2 s2"
        by blast
      have w3': "walks st s3" using w2 w3 by (rule walks_trans)
      show ?thesis
      proof (cases "c2 \<noteq> 0 \<and> len2 s3 \<le> 1")
        case True
        have "mergeHi_gallop u cmp tmp base1 st = Some (BreakOuter s3)"
          by (subst mergeHi_gallop.simps)
             (simp only: g1 option.case prod.case if_not_P[OF n1] Let_def s2_def[symmetric]
                if_not_P[OF n2] g2 if_P[OF True])
        moreover have "hi_post P T M R1 tmp cmp st (BreakOuter s3)"
          using inv3 True f3 f2 w3' l1 o3 by (auto simp: hi_post_def)
        ultimately show ?thesis by simp
      next
        case n3: False
        then have l3: "2 \<le> len2 s3" using f3 c2 l2 by auto
        define s4 where "s4 = (hi_take1 u s3)\<lparr>len1 := len1 (hi_take1 u s3) - 1\<rparr>"
        have e4: "s4 = (hi_take1 u s3)\<lparr>len1 := len1 s3 - 1\<rparr>" by (simp add: s4_def)
        have inv4: "hi_inv P T M R1 tmp s4"
          unfolding e4 using inv3 l1 l3 f3 f2 by (intro hi_inv_take1) simp_all
        have f4: "len1 s4 = len1 s1 - 1" "len2 s4 = len2 s3"
          "minGallop s4 = minGallop s3" "events s4 = events s3"
          by (simp_all add: s4_def f3 f2)
        have w4: "walks st s4" by (intro walks_trans[OF w3'] walks_same) (simp_all add: f4)
        show ?thesis
        proof (cases "len1 s4 = 0")
          case True
          have "mergeHi_gallop u cmp tmp base1 st = Some (BreakOuter s4)"
            by (subst mergeHi_gallop.simps)
               (simp only: g1 option.case prod.case if_not_P[OF n1] Let_def s2_def[symmetric]
                  if_not_P[OF n2] g2 if_not_P[OF n3] s4_def[symmetric] if_P[OF True])
          moreover have "hi_post P T M R1 tmp cmp st (BreakOuter s4)"
            using inv4 True f4 w4 l3 by (simp add: hi_post_def)
          ultimately show ?thesis by simp
        next
          case n4: False
          then have l4: "1 \<le> len1 s4" using f4 l1 by simp
          define s5 where "s5 = observe GallopIteration s4 (gallop_won s4)"
          have inv5: "hi_inv P T M R1 tmp s5" using inv4 by (simp add: s5_def)
          have f5: "len1 s5 = len1 s4" "len2 s5 = len2 s4" by (simp_all add: s5_def)
          have w5: "walks st s5"
            unfolding s5_def by (rule walks_trans[OF w4 walks_gallop_won])
          have dec: "len1 s5 + len2 s5 < len1 st + len2 st"
            using f5 f4 f3 f2 f1 c1 c2 by simp
          show ?thesis
          proof (cases "c1 \<ge> MIN_GALLOP \<or> c2 \<ge> MIN_GALLOP")
            case True
            have step: "mergeHi_gallop u cmp tmp base1 st = mergeHi_gallop u cmp tmp base1 s5"
              by (subst mergeHi_gallop.simps)
                 (simp only: g1 option.case prod.case if_not_P[OF n1] Let_def s2_def[symmetric]
                    if_not_P[OF n2] g2 if_not_P[OF n3] s4_def[symmetric] if_not_P[OF n4]
                    s5_def[symmetric] if_P[OF True])
            have d: "nat (len1 s5 + len2 s5) < nat (len1 st + len2 st)"
              using dec l4 l3 f5 f4 by simp
            from less.hyps[OF d inv5] l4 l3 f5 f4
            obtain r where r: "mergeHi_gallop u cmp tmp base1 s5 = Some r"
              "hi_post P T M R1 tmp cmp s5 r" by auto
            have "hi_post P T M R1 tmp cmp st r"
              using r(2) w5 by (rule hi_post_later) (use dec in simp)
            then show ?thesis unfolding step using r(1) by simp
          next
            case n5: False
            have "mergeHi_gallop u cmp tmp base1 st = Some (Fallthrough s5)"
              by (subst mergeHi_gallop.simps)
                 (simp only: g1 option.case prod.case if_not_P[OF n1] Let_def s2_def[symmetric]
                    if_not_P[OF n2] g2 if_not_P[OF n3] s4_def[symmetric] if_not_P[OF n4]
                    s5_def[symmetric] if_not_P[OF n5])
            moreover have "hi_post P T M R1 tmp cmp st (Fallthrough s5)"
              using inv5 l4 l3 f5 f4 dec w5 by (simp add: hi_post_def)
            ultimately show ?thesis by simp
          qed
        qed
      qed
    qed
  qed
qed

lemma mergeHi_outer_post:
  assumes "hi_inv P T M R1 tmp st" "1 \<le> len1 st" "2 \<le> len2 st"
  shows "\<exists>s. mergeHi_outer u cmp tmp base1 st = Some s \<and>
           hi_post P T M R1 tmp cmp st (BreakOuter s)"
  using assms
proof (induction "nat (len1 st + len2 st)" arbitrary: st rule: less_induct)
  case less
  from mergeHi_straight_post[OF less.prems, of u cmp 0 0]
  obtain r1 where r1: "mergeHi_straight u cmp tmp st 0 0 = Some r1"
    "hi_post P T M R1 tmp cmp st r1" by blast
  show ?case
  proof (cases r1)
    case (BreakOuter s)
    then show ?thesis using r1 by (subst mergeHi_outer.simps) simp
  next
    case (Fallthrough s1)
    then have p1: "hi_inv P T M R1 tmp s1" "1 \<le> len1 s1" "2 \<le> len2 s1"
      "len1 s1 + len2 s1 < len1 st + len2 st" "walks st s1"
      using r1(2) by (simp_all add: hi_post_def)
    from mergeHi_gallop_post[OF p1(1-3), of u cmp base1]
    obtain r2 where r2: "mergeHi_gallop u cmp tmp base1 s1 = Some r2"
      "hi_post P T M R1 tmp cmp s1 r2" by blast
    have post2: "hi_post P T M R1 tmp cmp st r2"
      using r2(2) p1(5) by (rule hi_post_later) (use p1(4) in simp)
    show ?thesis
    proof (cases r2)
      case (BreakOuter s)
      then show ?thesis
        using r1(1) Fallthrough r2(1) post2 by (subst mergeHi_outer.simps) simp
    next
      case f2: (Fallthrough s2)
      then have p2: "hi_inv P T M R1 tmp s2" "1 \<le> len1 s2" "2 \<le> len2 s2"
        "len1 s2 + len2 s2 < len1 st + len2 st" "walks st s2"
        using post2 by (simp_all add: hi_post_def)
      define s3 where "s3 = observe GallopExit s2 (gallop_penalty s2)"
      have step: "mergeHi_outer u cmp tmp base1 st = mergeHi_outer u cmp tmp base1 s3"
        using r1(1) Fallthrough r2(1) f2 by (subst mergeHi_outer.simps) (simp add: s3_def)
      have d: "nat (len1 s3 + len2 s3) < nat (len1 st + len2 st)"
        using p2 by (simp add: s3_def)
      have inv3: "hi_inv P T M R1 tmp s3" using p2(1) by (simp add: s3_def)
      from less.hyps[OF d inv3] p2
      obtain s where s: "mergeHi_outer u cmp tmp base1 s3 = Some s"
        "hi_post P T M R1 tmp cmp s3 (BreakOuter s)" by (auto simp: s3_def)
      have w3: "walks st s3"
        unfolding s3_def by (rule walks_trans[OF p2(5) walks_gallop_penalty])
      have "hi_post P T M R1 tmp cmp st (BreakOuter s)"
        using s(2) w3 by (rule hi_post_later) (use p2(4) in \<open>simp add: s3_def\<close>)
      then show ?thesis unfolding step using s(1) by simp
    qed
  qed
qed

lemma hi_inv_final:
  assumes "hi_inv P T M R1 tmp s" "len1 s = 0" "len2 s = 0"
  shows "\<exists>D. arr s = P @ D @ T \<and> mset D = M"
proof -
  from assms(1) obtain S1 G D where p: "arr s = P @ S1 @ G @ D @ T"
    "len1 s = int (length S1)" "len2 s = int (length G)"
    "mset S1 + mset (take (length G) tmp) + mset D = M"
    by (rule hi_inv_parts)
  have "G = []" "S1 = []" using p assms by simp_all
  then show ?thesis using p by simp
qed

lemma hi_inv_lens: "hi_inv P T M R1 tmp s \<Longrightarrow> 0 \<le> len1 s \<and> 0 \<le> len2 s"
  by (auto simp: hi_inv_def)

lemma hi_tail_run2:
  assumes inv: "hi_inv P T M R1 tmp s" and l: "len1 s = 0" "1 \<le> len2 s"
  shows "\<exists>a D. arraycopy_i u tmp 0 (arr s) (dest s - (len2 s - 1)) (len2 s) = Some a \<and>
           a = P @ D @ T \<and> mset D = M"
proof -
  have n: "0 < len2 s" "len2 s \<le> len2 s" using l by simp_all
  have c: "cursor2 s - len2 s + 1 = 0" "dest s - len2 s + 1 = dest s - (len2 s - 1)"
    using inv by (auto simp: hi_inv_def)
  from hi_inv_block2[OF inv n, of u "events s"]
  obtain a where a: "arraycopy_i u tmp 0 (arr s) (dest s - (len2 s - 1)) (len2 s) = Some a"
    and inv': "hi_inv P T M R1 tmp (s\<lparr>arr := a, dest := dest s - len2 s,
       cursor2 := cursor2 s - len2 s, len2 := len2 s - len2 s, events := events s\<rparr>)"
    unfolding c by blast
  from hi_inv_final[OF inv'] l obtain D where "a = P @ D @ T" "mset D = M" by auto
  then show ?thesis using a by simp
qed

lemma hi_tail_run1:
  assumes inv: "hi_inv P T M R1 tmp s" and l: "len2 s = 1" "1 \<le> len1 s"
  shows "\<exists>D. hi_last u tmp s = Some (Inr (P @ D @ T, events s)) \<and> mset D = M"
proof -
  have n: "0 < len1 s" "len1 s \<le> len1 s" using l by simp_all
  define s' where "s' = (\<lambda>a. s\<lparr>arr := a, dest := dest s - len1 s,
       cursor1 := cursor1 s - len1 s, len1 := len1 s - len1 s, events := events s\<rparr>)"
  from hi_inv_block1[OF inv n, of u "events s"]
  obtain a where a: "arraycopy_i u (arr s) (cursor1 s - len1 s + 1) (arr s) (dest s - len1 s + 1) (len1 s) = Some a"
    and inv': "hi_inv P T M R1 tmp (s' a)"
    unfolding s'_def by blast
  have f: "len1 (s' a) = 0" "len2 (s' a) = 1" "arr (s' a) = a" "dest (s' a) = dest s - len1 s"
    "cursor2 (s' a) = cursor2 s"
    using l by (simp_all add: s'_def)
  have "hi_inv P T M R1 tmp ((hi_take2 u tmp (s' a))\<lparr>len2 := len2 (s' a) - 1\<rparr>)"
    using inv' f by (intro hi_inv_take2) simp_all
  from hi_inv_final[OF this] f
  obtain D where "arr (hi_take2 u tmp (s' a)) = P @ D @ T" "mset D = M" by auto
  then show ?thesis using a f by (auto simp: hi_take2_def hi_last_def Let_def)
qed

lemma mergeHi_finish_post:
  assumes "hi_post P T M R1 tmp cmp st (BreakOuter s)"
  shows "\<exists>r. mergeHi_finish u tmp s = Some r \<and>
           (r = Inl ComparatorContractViolation \<longleftrightarrow> len2 s = 0) \<and>
           (len2 s \<noteq> 0 \<longrightarrow> (\<exists>D. r = Inr (P @ D @ T, events s) \<and> mset D = M)) \<and>
           (hi_ordered cmp tmp R1 \<longrightarrow> len2 s \<noteq> 0)"
proof -
  from assms have inv: "hi_inv P T M R1 tmp s"
    and shape: "(len1 s = 0 \<and> 2 \<le> len2 s) \<or> (len2 s \<le> 1 \<and> 1 \<le> len1 s)"
    and ord: "hi_ordered cmp tmp R1 \<longrightarrow> len2 s \<noteq> 0"
    by (simp_all add: hi_post_def)
  note lens = hi_inv_lens[OF inv]
  consider "len2 s = 1" | "len2 s = 0" | "2 \<le> len2 s" using lens by linarith
  then show ?thesis
  proof cases
    case 1
    then have "1 \<le> len1 s" using shape by auto
    from hi_tail_run1[OF inv 1 this, of u]
    obtain D where "hi_last u tmp s = Some (Inr (P @ D @ T, events s))" "mset D = M" by blast
    moreover have "hi_last u tmp (s\<lparr>minGallop := g\<rparr>) = hi_last u tmp s" for g
      by (simp add: hi_last_def Let_def split: option.split)
    ultimately show ?thesis using 1 ord by (auto simp: mergeHi_finish_def Let_def)
  next
    case 2
    then show ?thesis using ord by (simp add: mergeHi_finish_def Let_def)
  next
    case 3
    then have "len1 s = 0" "1 \<le> len2 s" using shape by auto
    from hi_tail_run2[OF inv this, of u]
    show ?thesis using 3 ord by (auto simp: mergeHi_finish_def Let_def)
  qed
qed

lemma mergeHi_init_inv:
  assumes "a = P @ A @ B @ T" "base1 = int (length P)" "l1 = int (length A)"
    "base2 = base1 + l1" "l2 = int (length B)" "A \<noteq> []" "B \<noteq> []"
  shows "hi_inv P T (mset A + mset B) (set A) B (mergeHi_init u a base1 l1 base2 l2 tr)"
    and "len1 (mergeHi_init u a base1 l1 base2 l2 tr) = l1 - 1"
    and "len2 (mergeHi_init u a base1 l1 base2 l2 tr) = l2"
    and "events (mergeHi_init u a base1 l1 base2 l2 tr) = tr"
    and "minGallop (mergeHi_init u a base1 l1 base2 l2 tr) = MIN_GALLOP"
    and "slice_i a base2 (base2 + l2) = B"
proof -
  define i0 :: "'a merge_state" where "i0 = \<lparr>arr = a, cursor1 = base1 + l1 - 1, cursor2 = l2 - 1,
     dest = base2 + l2 - 1, len1 = l1, len2 = l2, minGallop = MIN_GALLOP, events = tr\<rparr>"
  have e: "mergeHi_init u a base1 l1 base2 l2 tr = (hi_take1 u i0)\<lparr>len1 := len1 i0 - 1\<rparr>"
    by (simp add: mergeHi_init_def Let_def i0_def)
  have inv0: "hi_inv P T (mset A + mset B) (set A) B i0"
    by (rule hi_invI[of _ _ A B "[]"]) (use assms in \<open>simp_all add: i0_def\<close>)
  have l: "1 \<le> len1 i0" "1 \<le> len2 i0"
    using assms by (simp_all add: i0_def Suc_le_eq)
  show "hi_inv P T (mset A + mset B) (set A) B (mergeHi_init u a base1 l1 base2 l2 tr)"
    unfolding e using inv0 l by (rule hi_inv_take1)
  show "len1 (mergeHi_init u a base1 l1 base2 l2 tr) = l1 - 1"
    "len2 (mergeHi_init u a base1 l1 base2 l2 tr) = l2"
    "events (mergeHi_init u a base1 l1 base2 l2 tr) = tr"
    "minGallop (mergeHi_init u a base1 l1 base2 l2 tr) = MIN_GALLOP"
    unfolding e by (simp_all add: i0_def)
  show "slice_i a base2 (base2 + l2) = B"
    using assms by (simp add: slice_i_def Let_def)
qed

lemma mergeHi_parts:
  assumes "a = P @ A @ B @ T" "base1 = int (length P)" "l1 = int (length A)"
    "base2 = base1 + l1" "l2 = int (length B)" "A \<noteq> []" "B \<noteq> []"
  shows "\<exists>r. mergeHi u cmp a base1 l1 base2 l2 tr = Some r \<and>
           (\<forall>a' tr'. r = Inr (a', tr') \<longrightarrow> (\<exists>D. a' = P @ D @ T \<and> mset D = mset A + mset B)) \<and>
           (hi_ordered cmp B (set A) \<longrightarrow> (\<exists>a' tr'. r = Inr (a', tr'))) \<and>
           (\<forall>e. r = Inl e \<longleftrightarrow>
              e = ComparatorContractViolation \<and> l1 \<noteq> 1 \<and> l2 \<noteq> 1 \<and>
              (\<exists>s. mergeHi_outer u cmp B base1 (mergeHi_init u a base1 l1 base2 l2 tr) = Some s \<and>
                   len2 s = 0))"
proof -
  define st0 where "st0 = mergeHi_init u a base1 l1 base2 l2 tr"
  have i: "hi_inv P T (mset A + mset B) (set A) B st0" "len1 st0 = l1 - 1" "len2 st0 = l2"
    "events st0 = tr" "minGallop st0 = MIN_GALLOP" "slice_i a base2 (base2 + l2) = B"
    unfolding st0_def by (rule mergeHi_init_inv[OF assms])+
  have m: "mergeHi u cmp a base1 l1 base2 l2 tr =
     (if len1 st0 = 0 then
           (case arraycopy_i u B 0 (arr st0) (dest st0 - (len2 st0 - 1)) (len2 st0) of
              None \<Rightarrow> None
            | Some a \<Rightarrow> Some (Inr (a, events st0)))
         else if len2 st0 = 1 then hi_last u B st0
         else
           (case mergeHi_outer u cmp B base1 st0 of
              None \<Rightarrow> None
            | Some st \<Rightarrow> mergeHi_finish u B st))"
    by (simp only: mergeHi_def Let_def i(6) st0_def[symmetric])
  have l1: "0 \<le> len1 st0" using i(2) assms by (simp add: Suc_le_eq)
  have l2: "1 \<le> len2 st0" using i(3) assms by (simp add: Suc_le_eq)
  consider "len1 st0 = 0" | "len1 st0 \<noteq> 0" "len2 st0 = 1" | "1 \<le> len1 st0" "2 \<le> len2 st0"
    using l1 l2 by linarith
  then show ?thesis
  proof cases
    case 1
    from hi_tail_run2[OF i(1) 1 l2, of u] show ?thesis unfolding m using 1 i(2) by auto
  next
    case 2
    then have "1 \<le> len1 st0" using l1 by simp
    from hi_tail_run1[OF i(1) 2(2) this, of u] show ?thesis unfolding m using 2 i(3) by auto
  next
    case 3
    from mergeHi_outer_post[OF i(1) 3(1) 3(2), of u cmp base1]
    obtain s where s: "mergeHi_outer u cmp B base1 st0 = Some s"
      "hi_post P T (mset A + mset B) (set A) B cmp st0 (BreakOuter s)" by blast
    from mergeHi_finish_post[OF s(2), of u]
    obtain r where r: "mergeHi_finish u B s = Some r"
      "r = Inl ComparatorContractViolation \<longleftrightarrow> len2 s = 0"
      "len2 s \<noteq> 0 \<longrightarrow> (\<exists>D. r = Inr (P @ D @ T, events s) \<and> mset D = mset A + mset B)"
      "hi_ordered cmp B (set A) \<longrightarrow> len2 s \<noteq> 0"
      by blast
    have e: "mergeHi u cmp a base1 l1 base2 l2 tr = Some r"
      unfolding m using 3 s(1) r(1) by simp
    have n: "l1 \<noteq> 1" "l2 \<noteq> 1" using 3 i(2,3) by simp_all
    have o: "mergeHi_outer u cmp B base1 (mergeHi_init u a base1 l1 base2 l2 tr) = Some s"
      using s(1) by (simp add: st0_def)
    show ?thesis
    proof (cases "len2 s = 0")
      case True
      then show ?thesis using e r n o by auto
    next
      case False
      then show ?thesis using e r n o by auto
    qed
  qed
qed

lemma merge_split:
  assumes "0 \<le> base1" "0 < l1" "0 < l2" "base2 = base1 + l1" "base2 + l2 \<le> int (length a)"
  defines "P \<equiv> take (nat base1) a"
    and "A \<equiv> slice a (nat base1) (nat base2)"
    and "B \<equiv> slice a (nat base2) (nat (base2 + l2))"
    and "T \<equiv> drop (nat (base2 + l2)) a"
  shows "a = P @ A @ B @ T" "base1 = int (length P)" "l1 = int (length A)"
    "l2 = int (length B)" "A \<noteq> []" "B \<noteq> []"
proof -
  have b: "nat base1 \<le> nat base2" "nat base2 \<le> nat (base2 + l2)" "nat (base2 + l2) \<le> length a"
    using assms(1-5) by simp_all
  have "a = take (nat base1) a @ slice a (nat base1) (nat (base2 + l2)) @ drop (nat (base2 + l2)) a"
    using b by (intro split3) simp_all
  moreover have "slice a (nat base1) (nat (base2 + l2)) = A @ B"
    unfolding A_def B_def using b by (intro slice_append) simp_all
  ultimately show "a = P @ A @ B @ T" by (simp add: P_def T_def)
  show "base1 = int (length P)" using assms(1) b by (simp add: P_def)
  show l1: "l1 = int (length A)" using assms(1-5) by (simp add: A_def length_slice)
  show l2: "l2 = int (length B)" using assms(1-5) by (simp add: B_def length_slice)
  show "A \<noteq> []" using l1 assms(2) by auto
  show "B \<noteq> []" using l2 assms(3) by auto
qed

lemma merged_range_parts:
  assumes "a = P @ X @ T" "a' = P @ D @ T" "mset D = mset X" "lo = length P"
    "hi = length P + length X"
  shows "merged_range a lo hi a'"
proof -
  have l: "length D = length X" using assms(3) by (rule mset_eq_length)
  have "slice a lo hi = X" using assms by (simp add: slice_def)
  moreover have "slice a' lo hi = D" using assms l by (simp add: slice_def)
  ultimately show ?thesis using assms l by (simp add: merged_range_def)
qed

lemma merge_pre_ordered:
  assumes "0 \<le> base1" "0 < l1" "0 < l2" "base2 = base1 + l1" "base2 + l2 \<le> int (length a)"
    and pre: "merge_pre cmp a base1 l1 base2 l2"
  shows "lo_ordered cmp (slice a (nat base1) (nat base2))
           (set (slice a (nat base2) (nat (base2 + l2))))"
    and "hi_ordered cmp (slice a (nat base2) (nat (base2 + l2)))
           (set (slice a (nat base1) (nat base2)))"
proof -
  define A where "A = slice a (nat base1) (nat base2)"
  define B where "B = slice a (nat base2) (nat (base2 + l2))"
  have to: "total_order cmp" and sA: "nondecreasing cmp A" and sB: "nondecreasing cmp B"
    and first: "cmp (a ! nat base2) (a ! nat base1) < 0"
    and last: "\<forall>x\<in>set B. cmp x (a ! nat (base1 + l1 - 1)) < 0"
    using pre assms(4) by (simp_all add: merge_pre_def A_def B_def)
  have lA: "length A = nat l1" and lB: "length B = nat l2"
    using assms(1-5) by (simp_all add: A_def B_def length_slice)
  have ne: "A \<noteq> []" "B \<noteq> []" using lA lB assms(2,3) by auto
  have nA: "A ! j = a ! (nat base1 + j)" if "j < nat l1" for j
    unfolding A_def using that assms(1-5) by (intro nth_slice) simp_all
  have nB: "B ! j = a ! (nat base2 + j)" if "j < nat l2" for j
    unfolding B_def using that assms(1-5) by (intro nth_slice) simp_all
  have "last A = A ! (nat l1 - 1)" using ne lA by (simp add: last_conv_nth)
  also have "\<dots> = a ! (nat base1 + (nat l1 - 1))" using assms(2) by (intro nA) simp
  also have "nat base1 + (nat l1 - 1) = nat (base1 + l1 - 1)" using assms(1,2) by simp
  finally have lastA: "last A = a ! nat (base1 + l1 - 1)" .
  show "lo_ordered cmp (slice a (nat base1) (nat base2))
           (set (slice a (nat base2) (nat (base2 + l2))))"
    unfolding A_def[symmetric] B_def[symmetric] lo_ordered_def
    using to sA ne last lastA by simp
  have hdB: "hd B = a ! nat base2" using ne nB[of 0] assms(3) by (simp add: hd_conv_nth)
  have A0: "A ! 0 = a ! nat base1" using nA[of 0] assms(2) by simp
  have "cmp (hd B) x < 0" if "x \<in> set A" for x
  proof -
    from that obtain j where j: "j < length A" "x = A ! j" by (auto simp: in_set_conv_nth)
    have "cmp (A ! 0) (A ! j) \<le> 0"
    proof (cases "j = 0")
      case True
      then show ?thesis using total_order_refl[OF to] by simp
    next
      case False
      then show ?thesis
        using sA j(1) by (simp add: nondecreasing_def sorted_wrt_iff_nth_less)
    qed
    with first show ?thesis
      unfolding hdB j(2) A0 by (rule total_order_less_le_trans[OF to])
  qed
  then show "hi_ordered cmp (slice a (nat base2) (nat (base2 + l2)))
           (set (slice a (nat base1) (nat base2)))"
    unfolding A_def[symmetric] B_def[symmetric] hi_ordered_def
    using to sB ne by simp
qed

lemma mergeLo_settled:
  assumes "0 \<le> base1" "0 < l1" "0 < l2" "base2 = base1 + l1" "base2 + l2 \<le> int (length a)"
  shows "\<exists>r. mergeLo u cmp a base1 l1 base2 l2 tr = Some r \<and>
           (\<forall>a' tr'. r = Inr (a', tr') \<longrightarrow> merged_range a (nat base1) (nat (base2 + l2)) a') \<and>
           (merge_pre cmp a base1 l1 base2 l2 \<longrightarrow> (\<exists>a' tr'. r = Inr (a', tr'))) \<and>
           (\<forall>e. r = Inl e \<longleftrightarrow>
              e = ComparatorContractViolation \<and> l1 \<noteq> 1 \<and> l2 \<noteq> 1 \<and>
              (\<exists>s. mergeLo_outer u cmp (slice a (nat base1) (nat base2))
                      (mergeLo_init u a base1 l1 base2 l2 tr) = Some s \<and> len1 s = 0))"
proof -
  define P where "P = take (nat base1) a"
  define A where "A = slice a (nat base1) (nat base2)"
  define B where "B = slice a (nat base2) (nat (base2 + l2))"
  define T where "T = drop (nat (base2 + l2)) a"
  note sp = merge_split[OF assms, folded P_def A_def B_def T_def]
  from mergeLo_parts[OF sp(1,2,3) assms(4) sp(4,5,6), of u cmp tr]
  obtain r where r: "mergeLo u cmp a base1 l1 base2 l2 tr = Some r"
    "\<forall>a' tr'. r = Inr (a', tr') \<longrightarrow> (\<exists>D. a' = P @ D @ T \<and> mset D = mset A + mset B)"
    "lo_ordered cmp A (set B) \<longrightarrow> (\<exists>a' tr'. r = Inr (a', tr'))"
    "\<forall>e. r = Inl e \<longleftrightarrow>
              e = ComparatorContractViolation \<and> l1 \<noteq> 1 \<and> l2 \<noteq> 1 \<and>
              (\<exists>s. mergeLo_outer u cmp A (mergeLo_init u a base1 l1 base2 l2 tr) = Some s \<and>
                   len1 s = 0)"
    by (elim exE conjE) (rule that; assumption)
  have w: "merged_range a (nat base1) (nat (base2 + l2)) a'" if "r = Inr (a', tr')" for a' tr'
  proof -
    from r(2) that obtain D where D: "a' = P @ D @ T" "mset D = mset A + mset B" by blast
    show ?thesis
    proof (rule merged_range_parts[of _ P "A @ B" T _ D])
      show "a = P @ (A @ B) @ T" using sp(1) by simp
      show "a' = P @ D @ T" by (rule D(1))
      show "mset D = mset (A @ B)" using D(2) by simp
      show "nat base1 = length P" using sp(2) by simp
      show "nat (base2 + l2) = length P + length (A @ B)" using sp(2,3,4) assms(4) by simp
    qed
  qed
  have o: "\<exists>a' tr'. r = Inr (a', tr')" if "merge_pre cmp a base1 l1 base2 l2"
    using r(3) merge_pre_ordered(1)[OF assms that] by (simp add: A_def B_def)
  have w': "\<forall>a' tr'. r = Inr (a', tr') \<longrightarrow> merged_range a (nat base1) (nat (base2 + l2)) a'"
    using w by blast
  have o': "merge_pre cmp a base1 l1 base2 l2 \<longrightarrow> (\<exists>a' tr'. r = Inr (a', tr'))"
    using o by blast
  show ?thesis
    by (rule exI[of _ r]) (intro conjI r(1) w' o' r(4)[unfolded A_def])
qed

lemma mergeHi_settled:
  assumes "0 \<le> base1" "0 < l1" "0 < l2" "base2 = base1 + l1" "base2 + l2 \<le> int (length a)"
  shows "\<exists>r. mergeHi u cmp a base1 l1 base2 l2 tr = Some r \<and>
           (\<forall>a' tr'. r = Inr (a', tr') \<longrightarrow> merged_range a (nat base1) (nat (base2 + l2)) a') \<and>
           (merge_pre cmp a base1 l1 base2 l2 \<longrightarrow> (\<exists>a' tr'. r = Inr (a', tr'))) \<and>
           (\<forall>e. r = Inl e \<longleftrightarrow>
              e = ComparatorContractViolation \<and> l1 \<noteq> 1 \<and> l2 \<noteq> 1 \<and>
              (\<exists>s. mergeHi_outer u cmp (slice a (nat base2) (nat (base2 + l2))) base1
                      (mergeHi_init u a base1 l1 base2 l2 tr) = Some s \<and> len2 s = 0))"
proof -
  define P where "P = take (nat base1) a"
  define A where "A = slice a (nat base1) (nat base2)"
  define B where "B = slice a (nat base2) (nat (base2 + l2))"
  define T where "T = drop (nat (base2 + l2)) a"
  note sp = merge_split[OF assms, folded P_def A_def B_def T_def]
  from mergeHi_parts[OF sp(1,2,3) assms(4) sp(4,5,6), of u cmp tr]
  obtain r where r: "mergeHi u cmp a base1 l1 base2 l2 tr = Some r"
    "\<forall>a' tr'. r = Inr (a', tr') \<longrightarrow> (\<exists>D. a' = P @ D @ T \<and> mset D = mset A + mset B)"
    "hi_ordered cmp B (set A) \<longrightarrow> (\<exists>a' tr'. r = Inr (a', tr'))"
    "\<forall>e. r = Inl e \<longleftrightarrow>
              e = ComparatorContractViolation \<and> l1 \<noteq> 1 \<and> l2 \<noteq> 1 \<and>
              (\<exists>s. mergeHi_outer u cmp B base1 (mergeHi_init u a base1 l1 base2 l2 tr) = Some s \<and>
                   len2 s = 0)"
    by (elim exE conjE) (rule that; assumption)
  have w: "merged_range a (nat base1) (nat (base2 + l2)) a'" if "r = Inr (a', tr')" for a' tr'
  proof -
    from r(2) that obtain D where D: "a' = P @ D @ T" "mset D = mset A + mset B" by blast
    show ?thesis
    proof (rule merged_range_parts[of _ P "A @ B" T _ D])
      show "a = P @ (A @ B) @ T" using sp(1) by simp
      show "a' = P @ D @ T" by (rule D(1))
      show "mset D = mset (A @ B)" using D(2) by simp
      show "nat base1 = length P" using sp(2) by simp
      show "nat (base2 + l2) = length P + length (A @ B)" using sp(2,3,4) assms(4) by simp
    qed
  qed
  have o: "\<exists>a' tr'. r = Inr (a', tr')" if "merge_pre cmp a base1 l1 base2 l2"
    using r(3) merge_pre_ordered(2)[OF assms that] by (simp add: A_def B_def)
  have w': "\<forall>a' tr'. r = Inr (a', tr') \<longrightarrow> merged_range a (nat base1) (nat (base2 + l2)) a'"
    using w by blast
  have o': "merge_pre cmp a base1 l1 base2 l2 \<longrightarrow> (\<exists>a' tr'. r = Inr (a', tr'))"
    using o by blast
  show ?thesis
    by (rule exI[of _ r]) (intro conjI r(1) w' o' r(4)[unfolded B_def])
qed



subsection \<open>The sort beyond the range of the 32-bit midpoint\<close>

text \<open>
  Whatever the length, the midpoint of the binary search falls inside the sorted prefix,
  so a search that returns gives the right place; beyond \<open>2^31\<close> it need not return.
\<close>

lemma ushr1_below:
  assumes "left < right" "right \<le> S"
  shows "ushr1 (left + right) < S"
proof (cases "left + right < 2 ^ 32")
  case True
  then have "ushr1 (left + right) = (left + right) div 2" by (rule ushr1_small)
  then show ?thesis using assms by simp
next
  case False
  have "(left + right) mod 2 ^ 32 < (2 :: nat) ^ 32" by simp
  then have "ushr1 (left + right) < 2 ^ 31" by (simp add: ushr1_def)
  moreover have "2 ^ 31 < right" using False assms(1) by simp
  ultimately show ?thesis using assms(2) by simp
qed

lemma binary_search_result:
  assumes res: "binary_search u cmp pivot a left right tr = Some (l, tr')"
    and b: "left \<le> S" "right \<le> S"
  shows "l \<le> S \<and> (\<exists>ev. tr' = tr @ ev \<and> (\<forall>e\<in>set ev. \<exists>y. e = Compare BinaryInsertion pivot y))"
proof -
  define P where "P = (\<lambda>(u :: 'a) (cmp :: 'a comparator) (pivot :: 'a) (a :: 'a list) left right
      (tr :: 'a event list) (y :: nat \<times> 'a event list).
      left \<le> S \<longrightarrow> right \<le> S \<longrightarrow>
        fst y \<le> S \<and> (\<exists>ev. snd y = tr @ ev \<and> (\<forall>e\<in>set ev. \<exists>z. e = Compare BinaryInsertion pivot z)))"
  have "P u cmp pivot a left right tr (l, tr')"
  proof (rule binary_search.raw_induct[where P = P, OF _ res])
    fix f and u :: 'a and cmp :: "'a comparator" and pivot :: 'a and a :: "'a list"
      and left right :: nat and tr :: "'a event list" and y :: "nat \<times> 'a event list"
    assume IH: "\<And>u cmp pivot a left right tr y.
        f u cmp pivot a left right tr = Some y \<Longrightarrow> P u cmp pivot a left right tr y"
      and eq: "(if left < right
         then let mid = ushr1 (left + right); y = aget u a mid; comparison = cmp pivot y;
                  tr1 = tr @ [Compare BinaryInsertion pivot y]
              in if comparison < 0 then f u cmp pivot a left mid tr1
                 else f u cmp pivot a (mid + 1) right tr1
         else Some (left, tr)) = Some y"
    show "P u cmp pivot a left right tr y"
      unfolding P_def
    proof (intro impI)
      assume b: "left \<le> S" "right \<le> S"
      show "fst y \<le> S \<and> (\<exists>ev. snd y = tr @ ev \<and> (\<forall>e\<in>set ev. \<exists>z. e = Compare BinaryInsertion pivot z))"
      proof (cases "left < right")
        case False
        then have "y = (left, tr)" using eq by simp
        then show ?thesis using b by simp
      next
        case True
        define mid where "mid = ushr1 (left + right)"
        define e where "e = Compare BinaryInsertion pivot (aget u a mid)"
        have m: "mid < S" unfolding mid_def using True b(2) by (rule ushr1_below)
        show ?thesis
        proof (cases "cmp pivot (aget u a mid) < 0")
          case lt: True
          have "f u cmp pivot a left mid (tr @ [e]) = Some y"
            using eq True lt by (simp add: Let_def mid_def e_def)
          from IH[OF this] b m
          have "fst y \<le> S" "\<exists>ev. snd y = (tr @ [e]) @ ev \<and> (\<forall>e\<in>set ev. \<exists>z. e = Compare BinaryInsertion pivot z)"
            by (simp_all add: P_def)
          then obtain ev where "snd y = tr @ (e # ev)" "\<forall>e\<in>set ev. \<exists>z. e = Compare BinaryInsertion pivot z"
            by auto
          then have "\<exists>ev. snd y = tr @ ev \<and> (\<forall>e\<in>set ev. \<exists>z. e = Compare BinaryInsertion pivot z)"
            by (intro exI[of _ "e # ev"]) (simp add: e_def)
          then show ?thesis using \<open>fst y \<le> S\<close> by simp
        next
          case ge: False
          have "f u cmp pivot a (mid + 1) right (tr @ [e]) = Some y"
            using eq True ge by (simp add: Let_def mid_def e_def)
          from IH[OF this] b m
          have "fst y \<le> S" "\<exists>ev. snd y = (tr @ [e]) @ ev \<and> (\<forall>e\<in>set ev. \<exists>z. e = Compare BinaryInsertion pivot z)"
            by (simp_all add: P_def)
          then obtain ev where "snd y = tr @ (e # ev)" "\<forall>e\<in>set ev. \<exists>z. e = Compare BinaryInsertion pivot z"
            by auto
          then have "\<exists>ev. snd y = tr @ ev \<and> (\<forall>e\<in>set ev. \<exists>z. e = Compare BinaryInsertion pivot z)"
            by (intro exI[of _ "e # ev"]) (simp add: e_def)
          then show ?thesis using \<open>fst y \<le> S\<close> by simp
        qed
      qed
    qed
  qed
  then show ?thesis using b by (simp add: P_def)
qed

lemma binary_search_place:
  assumes to: "total_order cmp"
    and sorted: "\<forall>i j. i < j \<and> j < start \<longrightarrow> cmp (a ! i) (a ! j) \<le> 0"
    and len: "start \<le> length a"
    and b: "left \<le> start" "right \<le> start"
    and inv: "\<forall>i. i < left \<longrightarrow> 0 \<le> cmp pivot (a ! i)"
             "\<forall>i. right \<le> i \<and> i < start \<longrightarrow> cmp pivot (a ! i) < 0"
    and res: "binary_search u cmp pivot a left right tr = Some (l, tr')"
  shows "(\<forall>i. i < l \<longrightarrow> 0 \<le> cmp pivot (a ! i)) \<and>
         (\<forall>i. l \<le> i \<and> i < start \<longrightarrow> cmp pivot (a ! i) < 0)"
proof -
  define P where "P = (\<lambda>(u' :: 'a) (cmp' :: 'a comparator) (pivot' :: 'a) (a' :: 'a list) left right
      (tr :: 'a event list) (y :: nat \<times> 'a event list).
      u' = u \<longrightarrow> cmp' = cmp \<longrightarrow> pivot' = pivot \<longrightarrow> a' = a \<longrightarrow>
      left \<le> start \<longrightarrow> right \<le> start \<longrightarrow>
      (\<forall>i. i < left \<longrightarrow> 0 \<le> cmp pivot (a ! i)) \<longrightarrow>
      (\<forall>i. right \<le> i \<and> i < start \<longrightarrow> cmp pivot (a ! i) < 0) \<longrightarrow>
      (\<forall>i. i < fst y \<longrightarrow> 0 \<le> cmp pivot (a ! i)) \<and>
      (\<forall>i. fst y \<le> i \<and> i < start \<longrightarrow> cmp pivot (a ! i) < 0))"
  have "P u cmp pivot a left right tr (l, tr')"
  proof (rule binary_search.raw_induct[where P = P, OF _ res])
    fix f and u' :: 'a and cmp' :: "'a comparator" and pivot' :: 'a and a' :: "'a list"
      and left right :: nat and tr :: "'a event list" and y :: "nat \<times> 'a event list"
    assume IH: "\<And>u cmp pivot a left right tr y.
        f u cmp pivot a left right tr = Some y \<Longrightarrow> P u cmp pivot a left right tr y"
      and eq: "(if left < right
         then let mid = ushr1 (left + right); y = aget u' a' mid; comparison = cmp' pivot' y;
                  tr1 = tr @ [Compare BinaryInsertion pivot' y]
              in if comparison < 0 then f u' cmp' pivot' a' left mid tr1
                 else f u' cmp' pivot' a' (mid + 1) right tr1
         else Some (left, tr)) = Some y"
    show "P u' cmp' pivot' a' left right tr y"
      unfolding P_def
    proof (intro impI)
      assume same: "u' = u" "cmp' = cmp" "pivot' = pivot" "a' = a"
        and b: "left \<le> start" "right \<le> start"
        and i1: "\<forall>i. i < left \<longrightarrow> 0 \<le> cmp pivot (a ! i)"
        and i2: "\<forall>i. right \<le> i \<and> i < start \<longrightarrow> cmp pivot (a ! i) < 0"
      show "(\<forall>i. i < fst y \<longrightarrow> 0 \<le> cmp pivot (a ! i)) \<and>
            (\<forall>i. fst y \<le> i \<and> i < start \<longrightarrow> cmp pivot (a ! i) < 0)"
      proof (cases "left < right")
        case False
        then have "y = (left, tr)" using eq by simp
        then show ?thesis using i1 i2 False by auto
      next
        case True
        define mid where "mid = ushr1 (left + right)"
        define e where "e = Compare BinaryInsertion pivot (a ! mid)"
        have m: "mid < start" unfolding mid_def using True b(2) by (rule ushr1_below)
        then have rd: "aget u a mid = a ! mid" using len by (simp add: aget_def)
        show ?thesis
        proof (cases "cmp pivot (a ! mid) < 0")
          case lt: True
          have call: "f u cmp pivot a left mid (tr @ [e]) = Some y"
            using eq True lt rd by (simp add: Let_def mid_def e_def same)
          have inv2: "\<forall>i. mid \<le> i \<and> i < start \<longrightarrow> cmp pivot (a ! i) < 0"
          proof (intro allI impI)
            fix i assume i: "mid \<le> i \<and> i < start"
            show "cmp pivot (a ! i) < 0"
            proof (cases "i = mid")
              case True
              then show ?thesis using lt by simp
            next
              case False
              then have "cmp (a ! mid) (a ! i) \<le> 0" using sorted i by simp
              then show ?thesis using total_order_less_le_trans[OF to lt] by blast
            qed
          qed
          from IH[OF call] show ?thesis
            unfolding P_def using b m i1 inv2 by simp
        next
          case ge: False
          have call: "f u cmp pivot a (mid + 1) right (tr @ [e]) = Some y"
            using eq True ge rd by (simp add: Let_def mid_def e_def same)
          have mp: "cmp (a ! mid) pivot \<le> 0"
            using ge total_order_flip[OF to, of pivot "a ! mid"] by simp
          have inv1: "\<forall>i. i < mid + 1 \<longrightarrow> 0 \<le> cmp pivot (a ! i)"
          proof (intro allI impI)
            fix i assume i: "i < mid + 1"
            show "0 \<le> cmp pivot (a ! i)"
            proof (cases "i = mid")
              case True
              then show ?thesis using ge by simp
            next
              case False
              then have "cmp (a ! i) (a ! mid) \<le> 0" using sorted i m by simp
              then have "cmp (a ! i) pivot \<le> 0" using total_order_trans[OF to _ mp] by blast
              then show ?thesis using total_order_flip[OF to, of pivot "a ! i"] by simp
            qed
          qed
          from IH[OF call] show ?thesis
            unfolding P_def using b m inv1 i2 by simp
        qed
      qed
    qed
  qed
  then show ?thesis using b inv by (simp add: P_def)
qed

lemma binarySort_loop_stuck:
  assumes "start < hi" "binary_search u cmp (aget u a start) a lo start tr = None"
  shows "binarySort_loop u cmp a lo hi start tr = None"
  using assms by (subst binarySort_loop.simps) (simp add: Let_def)

lemma binarySort_loop_result:
  assumes "hi \<le> length a"
    and "binarySort_loop u cmp a 0 hi start tr = Some (a', tr')"
  shows "length a' = length a \<and> drop hi a' = drop hi a \<and> mset a' = mset a \<and>
         (\<exists>ev. tr' = tr @ ev \<and> (\<forall>e \<in> set ev. \<exists>x y. e = Compare BinaryInsertion x y))"
  using assms
proof (induction "hi - start" arbitrary: a start tr rule: less_induct)
  case less
  show ?case
  proof (cases "start < hi")
    case False
    then have "a' = a" "tr' = tr" using less.prems by (simp_all add: binarySort_loop_stop)
    then show ?thesis by simp
  next
    case True
    have st: "start < length a" using True less.prems by simp
    then have p: "aget u a start = a ! start" by (simp add: aget_def)
    obtain l tr1 where l: "binary_search u cmp (a ! start) a 0 start tr = Some (l, tr1)"
      using binarySort_loop_stuck[OF True, of u cmp a 0 tr] less.prems(2) p
      by (cases "binary_search u cmp (a ! start) a 0 start tr") auto
    from binary_search_result[OF l, of start]
    obtain ev1 where l': "l \<le> start" "tr1 = tr @ ev1"
      "\<forall>e\<in>set ev1. \<exists>y. e = Compare BinaryInsertion (a ! start) y"
      by auto
    let ?a2 = "insert_at a l start"
    have z: "(0 :: nat) \<le> l" by simp
    note fr = insert_at_frame[OF z l'(1) True less.prems(1)]
    have step: "binarySort_loop u cmp a 0 hi start tr = binarySort_loop u cmp ?a2 0 hi (start + 1) tr1"
      using True st l l'(1) by (rule binarySort_loop_step)
    have d: "hi - (start + 1) < hi - start" using True by simp
    have hi2: "hi \<le> length ?a2" using fr(1) less.prems(1) by simp
    from less.hyps[OF d hi2 less.prems(2)[unfolded step]]
    obtain ev2 where r: "length a' = length ?a2" "drop hi a' = drop hi ?a2" "mset a' = mset ?a2"
      "tr' = tr1 @ ev2" "\<forall>e \<in> set ev2. \<exists>x y. e = Compare BinaryInsertion x y"
      by auto
    have "\<exists>ev. tr' = tr @ ev \<and> (\<forall>e \<in> set ev. \<exists>x y. e = Compare BinaryInsertion x y)"
      using r(4,5) l'(2,3) by (intro exI[of _ "ev1 @ ev2"]) auto
    then show ?thesis using r(1,2,3) fr(1,3,4) by simp
  qed
qed

lemma binarySort_loop_sorts:
  assumes to: "total_order cmp"
    and "start \<le> hi" "hi \<le> length a"
    and "nondecreasing cmp (slice a 0 start)"
    and "binarySort_loop u cmp a 0 hi start tr = Some (a', tr')"
  shows "nondecreasing cmp (slice a' 0 hi) \<and>
         equals_keep_order cmp (slice a 0 hi) (slice a' 0 hi)"
  using assms(2-)
proof (induction "hi - start" arbitrary: a start tr rule: less_induct)
  case less
  show ?case
  proof (cases "start < hi")
    case False
    then have "a' = a" "start = hi" using less.prems by (auto simp: binarySort_loop_stop)
    then show ?thesis using less.prems by (simp add: equals_keep_order_refl)
  next
    case True
    have st: "start < length a" "start \<le> length a" using True less.prems by auto
    let ?p = "a ! start"
    have p: "aget u a start = ?p" using st by (simp add: aget_def)
    obtain l tr1 where l: "binary_search u cmp ?p a 0 start tr = Some (l, tr1)"
      using binarySort_loop_stuck[OF True, of u cmp a 0 tr] less.prems(4) p
      by (cases "binary_search u cmp ?p a 0 start tr") auto
    have ls: "l \<le> start" using binary_search_result[OF l, of start] by simp
    have srt: "\<forall>i j. i < j \<and> j < start \<longrightarrow> cmp (a ! i) (a ! j) \<le> 0"
      using nondecreasing_slice_nth[OF less.prems(3) st(2)] by blast
    have pos: "(\<forall>i. i < l \<longrightarrow> 0 \<le> cmp ?p (a ! i)) \<and>
         (\<forall>i. l \<le> i \<and> i < start \<longrightarrow> cmp ?p (a ! i) < 0)"
      using binary_search_place[OF to srt st(2) _ le_refl _ _ l] by simp
    let ?a2 = "insert_at a l start"
    have z: "(0 :: nat) \<le> l" by simp
    note fr = insert_at_frame[OF z ls True less.prems(2)]
    have step: "binarySort_loop u cmp a 0 hi start tr = binarySort_loop u cmp ?a2 0 hi (start + 1) tr1"
      using True st(1) l ls by (rule binarySort_loop_step)
    have S1: "\<forall>x\<in>set (slice a 0 l). cmp x ?p \<le> 0"
    proof
      fix x assume "x \<in> set (slice a 0 l)"
      then obtain i where "i < l" "x = a ! i"
        using set_slice_nth[of x a 0 l] ls st(2) by auto
      then show "cmp x ?p \<le> 0" using pos total_order_flip[OF to, of ?p x] by simp
    qed
    have S2: "\<forall>y\<in>set (slice a l start). cmp ?p y < 0"
    proof
      fix y assume "y \<in> set (slice a l start)"
      then obtain i where "l \<le> i" "i < start" "y = a ! i"
        using set_slice_nth[of y a l start] st(2) by auto
      then show "cmp ?p y < 0" using pos by simp
    qed
    have "nondecreasing cmp (slice a 0 l @ slice a l start)"
      using less.prems(3) slice_append[OF z ls st(2)] by simp
    then have "nondecreasing cmp (slice a 0 l @ ?p # slice a l start)"
      using S1 S2 by (intro insert_sorted) auto
    then have sorted2: "nondecreasing cmp (slice ?a2 0 (start + 1))"
      using fr(5) by simp
    have a_sl: "slice a 0 hi = slice a 0 l @ slice a l start @ ?p # slice a (Suc start) hi"
    proof -
      have "slice a 0 hi = slice a 0 start @ slice a start hi"
        using less.prems by (intro slice_append) auto
      moreover have "slice a start hi = ?p # slice a (Suc start) hi"
      proof -
        have "hi - start = Suc (hi - Suc start)" using True by simp
        moreover have "drop start a = ?p # drop (Suc start) a"
          using st(1) by (simp add: Cons_nth_drop_Suc)
        ultimately show ?thesis by (simp add: slice_def)
      qed
      ultimately show ?thesis using slice_append[OF z ls st(2)] by simp
    qed
    have a2_sl: "slice ?a2 0 hi = slice a 0 l @ ?p # slice a l start @ slice a (Suc start) hi"
    proof -
      have "slice ?a2 0 hi = slice ?a2 0 (Suc start) @ slice ?a2 (Suc start) hi"
        using True less.prems fr(1) by (intro slice_append) auto
      then show ?thesis using fr(5,6) by simp
    qed
    have stable2: "equals_keep_order cmp (slice a 0 hi) (slice ?a2 0 hi)"
      unfolding a_sl a2_sl using S2 by (intro insert_stable[OF to])
    have d: "hi - (start + 1) < hi - start" using True by simp
    have "nondecreasing cmp (slice a' 0 hi) \<and> equals_keep_order cmp (slice ?a2 0 hi) (slice a' 0 hi)"
      using less.hyps[OF d, of ?a2 tr1] less.prems fr(1) sorted2 step True by simp
    then show ?thesis
      using stable2 equals_keep_order_trans by blast
  qed
qed

lemma timsort_stuck:
  assumes "2 \<le> length xs"
    and "countRunAndMakeAscending u cmp xs 0 (length xs) [] = (a1, r, tr1)"
    and "1 \<le> r" "r \<le> length xs"
    and "binarySort_loop u cmp a1 0 (length xs) r tr1 = None"
  shows "timsort u cmp xs = None"
    and "binarySort u cmp a1 0 (length xs) r tr1 = None"
proof -
  let ?n = "length xs"
  show bs': "binarySort u cmp a1 0 ?n r tr1 = None"
    using assms(3,5) by (simp add: binarySort_def)
  show "timsort u cmp xs = None"
  proof (cases "?n < 32")
    case True
    then show ?thesis using assms(1,2) bs'
      by (simp add: timsort_def sort_range_def rangeCheck_def MIN_MERGE_def)
  next
    case False
    have "sort_loop u cmp ?n (?n + 1) xs 0 ?n empty_stack [] = None"
      using assms(2,4) bs' by (subst sort_loop.simps) simp
    then show ?thesis using False assms(1)
      by (simp add: timsort_def sort_range_def rangeCheck_def MIN_MERGE_def minRunLength_def
          empty_stack_def[symmetric] Let_def)
  qed
qed

text \<open>What \<open>timsort\<close> returns is decided by its one call of \<open>binarySort\<close>.\<close>

lemma timsort_cases:
  assumes "2 \<le> length xs"
  shows "\<exists>a1 r tr1.
     countRunAndMakeAscending u cmp xs 0 (length xs) [] = (a1, r, tr1) \<and>
     1 \<le> r \<and> r \<le> length xs \<and> length a1 = length xs \<and>
     (binarySort_loop u cmp a1 0 (length xs) r tr1 = None \<and>
        binarySort u cmp a1 0 (length xs) r tr1 = None \<and> timsort u cmp xs = None
      \<or> (\<exists>a2 ev. binarySort_loop u cmp a1 0 (length xs) r tr1 = Some (a2, tr1 @ ev) \<and>
            timsort u cmp xs = Some (Inr \<lparr>global_a = a2,
              stack = (if length xs < 32 then empty_stack else one_run (length xs)),
              trace = tr1 @ ev @ (if length xs < 32 then [] else [PushRun 0 (length xs)])\<rparr>)))"
proof -
  let ?n = "length xs"
  obtain a1 r tr1 where cr: "countRunAndMakeAscending u cmp xs 0 ?n [] = (a1, r, tr1)"
    by (metis prod_cases3)
  have pos: "0 < ?n" using assms(1) by (cases xs) auto
  have fr: "1 \<le> r" "r \<le> ?n" "length a1 = ?n"
    using countRun_frame[OF pos le_refl cr] by auto
  show ?thesis
  proof (cases "binarySort_loop u cmp a1 0 ?n r tr1")
    case None
    then show ?thesis
      using timsort_stuck[OF assms cr fr(1,2) None] cr fr by simp
  next
    case (Some y)
    obtain a2 tr2 where y: "y = (a2, tr2)" by (cases y)
    have hi: "?n \<le> length a1" using fr(3) by simp
    from binarySort_loop_result[OF hi Some[unfolded y]]
    obtain ev where ev: "tr2 = tr1 @ ev" by auto
    have bs: "binarySort_loop u cmp a1 0 ?n r tr1 = Some (a2, tr1 @ ev)"
      using Some y ev by simp
    show ?thesis
      using timsort_unfold[OF assms(1) cr fr(1,2) bs] cr fr bs by simp
  qed
qed

lemma timsort_result:
  assumes to: "total_order cmp" and n: "2 \<le> length xs"
    and res: "timsort u cmp xs = Some r"
  shows "\<exists>e. r = Inr e \<and>
     nondecreasing cmp (global_a e) \<and> mset (global_a e) = mset xs \<and>
     equals_keep_order cmp xs (global_a e) \<and>
     (\<forall>l h. Reverse l h \<in> set (trace e) \<longrightarrow>
        (\<forall>i. l < i \<and> i < h \<longrightarrow> cmp (xs ! i) (xs ! (i - 1)) < 0))"
proof -
  let ?n = "length xs"
  from timsort_cases[OF n, of u cmp] res
  obtain a1 rl tr1 a2 ev where s:
    "countRunAndMakeAscending u cmp xs 0 ?n [] = (a1, rl, tr1)"
    "1 \<le> rl" "rl \<le> ?n" "length a1 = ?n"
    "binarySort_loop u cmp a1 0 ?n rl tr1 = Some (a2, tr1 @ ev)"
    "timsort u cmp xs = Some (Inr \<lparr>global_a = a2,
        stack = (if ?n < 32 then empty_stack else one_run ?n),
        trace = tr1 @ ev @ (if ?n < 32 then [] else [PushRun 0 ?n])\<rparr>)"
    by auto
  have pos: "0 < ?n" using n by (cases xs) auto
  from countRun_sorted[OF to pos le_refl s(1)]
  have c: "take 0 a1 = take 0 xs" "drop rl a1 = drop rl xs"
    "nondecreasing cmp (slice a1 0 rl)" "equals_keep_order cmp (slice xs 0 rl) (slice a1 0 rl)"
    by simp_all
  from countRun_frame[OF pos le_refl s(1)]
  have f: "mset a1 = mset xs"
    and tr1: "\<forall>e\<in>set tr1. (\<exists>x y. e = Compare RunDetection x y) \<or>
            (\<exists>l h. e = Reverse l h \<and> (\<forall>i. l < i \<and> i < h \<longrightarrow> cmp (xs ! i) (xs ! (i - 1)) < 0))"
    by auto
  have hi: "?n \<le> length a1" using s(4) by simp
  from binarySort_loop_result[OF hi s(5)]
  have b: "length a2 = ?n" "mset a2 = mset a1"
    "\<forall>e \<in> set ev. \<exists>x y. e = Compare BinaryInsertion x y"
    using s(4) by auto
  from binarySort_loop_sorts[OF to s(3) hi c(3) s(5)]
  have "nondecreasing cmp (slice a2 0 ?n)" "equals_keep_order cmp (slice a1 0 ?n) (slice a2 0 ?n)"
    by simp_all
  then have srt: "nondecreasing cmp a2" and st2: "equals_keep_order cmp a1 a2"
    using slice_whole[of a2] slice_whole[of a1] b(1) s(4) by simp_all
  have st1: "equals_keep_order cmp xs a1"
    using equals_keep_order_prefix[OF c(4) c(1) c(2) s(4) _ s(3)] by simp
  have rv: "\<forall>l h. Reverse l h \<in> set (tr1 @ ev @ (if ?n < 32 then [] else [PushRun 0 ?n])) \<longrightarrow>
        (\<forall>i. l < i \<and> i < h \<longrightarrow> cmp (xs ! i) (xs ! (i - 1)) < 0)"
  proof (intro allI impI)
    fix l h i
    assume "Reverse l h \<in> set (tr1 @ ev @ (if ?n < 32 then [] else [PushRun 0 ?n]))"
      and i: "l < i \<and> i < h"
    then have "Reverse l h \<in> set tr1" using b(3) by (auto split: if_splits)
    then show "cmp (xs ! i) (xs ! (i - 1)) < 0"
      using tr1 i by fastforce
  qed
  have r: "r = Inr \<lparr>global_a = a2,
        stack = (if ?n < 32 then empty_stack else one_run ?n),
        trace = tr1 @ ev @ (if ?n < 32 then [] else [PushRun 0 ?n])\<rparr>"
    using res s(6) by simp
  show ?thesis
    unfolding r using srt b(2) f equals_keep_order_trans[OF st1 st2] rv by simp
qed

lemma binary_search_agree:
  assumes agree: "\<forall>x\<in>S. \<forall>y\<in>S. cmp' x y = cmp x y" and p: "pivot \<in> S" and a: "set a \<subseteq> S"
    and len: "B \<le> length a"
    and b: "left \<le> B" "right \<le> B"
    and res: "binary_search u cmp pivot a left right tr = Some y"
  shows "binary_search u cmp' pivot a left right tr = Some y"
proof -
  define P where "P = (\<lambda>(u0 :: 'a) (cmp0 :: 'a comparator) (pivot0 :: 'a) (a0 :: 'a list) left right
      (tr :: 'a event list) (y :: nat \<times> 'a event list).
      u0 = u \<longrightarrow> cmp0 = cmp \<longrightarrow> pivot0 = pivot \<longrightarrow> a0 = a \<longrightarrow>
      left \<le> B \<longrightarrow> right \<le> B \<longrightarrow>
      binary_search u cmp' pivot a left right tr = Some y)"
  have "P u cmp pivot a left right tr y"
  proof (rule binary_search.raw_induct[where P = P, OF _ res])
    fix f and u0 :: 'a and cmp0 :: "'a comparator" and pivot0 :: 'a and a0 :: "'a list"
      and left right :: nat and tr :: "'a event list" and y :: "nat \<times> 'a event list"
    assume IH: "\<And>u cmp pivot a left right tr y.
        f u cmp pivot a left right tr = Some y \<Longrightarrow> P u cmp pivot a left right tr y"
      and eq: "(if left < right
         then let mid = ushr1 (left + right); y = aget u0 a0 mid; comparison = cmp0 pivot0 y;
                  tr1 = tr @ [Compare BinaryInsertion pivot0 y]
              in if comparison < 0 then f u0 cmp0 pivot0 a0 left mid tr1
                 else f u0 cmp0 pivot0 a0 (mid + 1) right tr1
         else Some (left, tr)) = Some y"
    show "P u0 cmp0 pivot0 a0 left right tr y"
      unfolding P_def
    proof (intro impI)
      assume same: "u0 = u" "cmp0 = cmp" "pivot0 = pivot" "a0 = a"
        and b: "left \<le> B" "right \<le> B"
      show "binary_search u cmp' pivot a left right tr = Some y"
      proof (cases "left < right")
        case False
        then show ?thesis using eq by (subst binary_search.simps) simp
      next
        case True
        define mid where "mid = ushr1 (left + right)"
        define e where "e = Compare BinaryInsertion pivot (a ! mid)"
        have m: "mid < B" unfolding mid_def using True b(2) by (rule ushr1_below)
        then have rd: "aget u a mid = a ! mid" using len by (simp add: aget_def)
        have "a ! mid \<in> S" using m len a by (auto simp: subset_iff)
        then have ce: "cmp' pivot (a ! mid) = cmp pivot (a ! mid)" using agree p by simp
        show ?thesis
        proof (cases "cmp pivot (a ! mid) < 0")
          case lt: True
          have call: "f u cmp pivot a left mid (tr @ [e]) = Some y"
            using eq True lt rd by (simp add: Let_def mid_def e_def same)
          from IH[OF call] have "binary_search u cmp' pivot a left mid (tr @ [e]) = Some y"
            unfolding P_def using b m by simp
          then show ?thesis
            using True lt rd ce
            by (subst binary_search.simps) (simp add: Let_def mid_def[symmetric] e_def)
        next
          case ge: False
          have call: "f u cmp pivot a (mid + 1) right (tr @ [e]) = Some y"
            using eq True ge rd by (simp add: Let_def mid_def e_def same)
          from IH[OF call] have "binary_search u cmp' pivot a (mid + 1) right (tr @ [e]) = Some y"
            unfolding P_def using b m by simp
          then show ?thesis
            using True ge rd ce
            by (subst binary_search.simps) (simp add: Let_def mid_def[symmetric] e_def)
        qed
      qed
    qed
  qed
  then show ?thesis using b by (simp add: P_def)
qed

lemma binary_search_same:
  assumes agree: "\<forall>x\<in>S. \<forall>y\<in>S. cmp' x y = cmp x y" and p: "pivot \<in> S" and a: "set a \<subseteq> S"
    and len: "B \<le> length a"
    and b: "left \<le> B" "right \<le> B"
  shows "binary_search u cmp' pivot a left right tr = binary_search u cmp pivot a left right tr"
proof -
  have agree': "\<forall>x\<in>S. \<forall>y\<in>S. cmp x y = cmp' x y" using agree by simp
  note ab = binary_search_agree[OF agree p a len b, of u tr]
  note ba = binary_search_agree[OF agree' p a len b, of u tr]
  show ?thesis
  proof (cases "binary_search u cmp pivot a left right tr")
    case None
    then show ?thesis using ba by (cases "binary_search u cmp' pivot a left right tr") auto
  next
    case (Some y)
    then show ?thesis using ab by simp
  qed
qed

lemma binarySort_loop_same:
  assumes "\<forall>x\<in>S. \<forall>y\<in>S. cmp' x y = cmp x y" "set a \<subseteq> S" "hi \<le> length a"
  shows "binarySort_loop u cmp' a 0 hi start tr = binarySort_loop u cmp a 0 hi start tr"
  using assms(2-)
proof (induction "hi - start" arbitrary: a start tr rule: less_induct)
  case less
  show ?case
  proof (cases "start < hi")
    case False
    then show ?thesis by (simp add: binarySort_loop_stop)
  next
    case True
    have st: "start < length a" "start \<le> length a" using True less.prems by auto
    then have p: "a ! start \<in> S" using less.prems(1) by (auto simp: subset_iff)
    have rd: "aget u a start = a ! start" using st by (simp add: aget_def)
    have bc: "binary_search u cmp' (a ! start) a 0 start tr = binary_search u cmp (a ! start) a 0 start tr"
      using assms(1) p less.prems(1) st(2) by (rule binary_search_same) simp_all
    show ?thesis
    proof (cases "binary_search u cmp (a ! start) a 0 start tr")
      case None
      then show ?thesis
        using binarySort_loop_stuck[OF True, of u cmp a 0 tr]
          binarySort_loop_stuck[OF True, of u cmp' a 0 tr] bc rd by simp
    next
      case (Some y)
      obtain l tr1 where y: "y = (l, tr1)" by (cases y)
      have l: "binary_search u cmp (a ! start) a 0 start tr = Some (l, tr1)" using Some y by simp
      have ls: "l \<le> start" using binary_search_result[OF l, of start] by simp
      let ?a2 = "insert_at a l start"
      have z: "(0 :: nat) \<le> l" by simp
      note fr = insert_at_frame[OF z ls True less.prems(2)]
      have s1: "binarySort_loop u cmp a 0 hi start tr = binarySort_loop u cmp ?a2 0 hi (start + 1) tr1"
        using True st(1) l ls by (rule binarySort_loop_step)
      have s2: "binarySort_loop u cmp' a 0 hi start tr = binarySort_loop u cmp' ?a2 0 hi (start + 1) tr1"
        using True st(1) l[folded bc] ls by (rule binarySort_loop_step)
      have "set ?a2 = set a" using fr(4) by (metis set_mset_mset)
      then have sub: "set ?a2 \<subseteq> S" using less.prems(1) by simp
      have d: "hi - (start + 1) < hi - start" using True by simp
      show ?thesis
        unfolding s1 s2 using less.hyps[OF d sub] less.prems fr(1) by simp
    qed
  qed
qed

lemma timsort_same:
  assumes "\<forall>x\<in>set xs. \<forall>y\<in>set xs. cmp' x y = cmp x y"
  shows "timsort u cmp' xs = timsort u cmp xs"
proof (cases "length xs < 2")
  case True
  then show ?thesis by (simp add: timsort_short)
next
  case False
  let ?n = "length xs"
  have n2: "2 \<le> ?n" using False by simp
  have pos: "0 < ?n" using n2 by (cases xs) auto
  obtain a1 r tr1 where cr: "countRunAndMakeAscending u cmp xs 0 ?n [] = (a1, r, tr1)"
    by (metis prod_cases3)
  have fr: "1 \<le> r" "r \<le> ?n" "length a1 = ?n" "mset a1 = mset xs"
    using countRun_frame[OF pos le_refl cr] by auto
  have c': "countRunAndMakeAscending u cmp' xs 0 ?n [] = (a1, r, tr1)"
    using countRun_cong[OF assms(1) pos le_refl, of u "[]"] cr by simp
  have "set a1 = set xs" using fr(4) by (metis set_mset_mset)
  then have sub: "set a1 \<subseteq> set xs" by simp
  have hi: "?n \<le> length a1" using fr(3) by simp
  have b': "binarySort_loop u cmp' a1 0 ?n r tr1 = binarySort_loop u cmp a1 0 ?n r tr1"
    using assms(1) sub hi by (rule binarySort_loop_same)
  show ?thesis
  proof (cases "binarySort_loop u cmp a1 0 ?n r tr1")
    case None
    then show ?thesis
      using timsort_stuck(1)[OF n2 cr fr(1,2)] timsort_stuck(1)[OF n2 c' fr(1,2)] b' by simp
  next
    case (Some y)
    obtain a2 tr2 where y: "y = (a2, tr2)" by (cases y)
    show ?thesis
      using timsort_unfold[OF n2 cr fr(1,2), of a2 tr2] timsort_unfold[OF n2 c' fr(1,2), of a2 tr2]
        Some y b' by simp
  qed
qed

text \<open>
  Beyond \<open>2^31\<close> the midpoint wraps: when the comparator never answers ``less'', the
  search sets \<open>left\<close> to a value below \<open>2^31 + 1\<close> for ever.
\<close>

lemma binary_search_never_returns:
  assumes big: "2 ^ 31 < right" and lr: "left < right"
    and ge: "\<forall>i. i < 2 ^ 31 \<longrightarrow> \<not> cmp pivot (aget u a i) < 0"
  shows "binary_search u cmp pivot a left right tr = None"
proof (cases "binary_search u cmp pivot a left right tr")
  case None
  then show ?thesis .
next
  case (Some y)
  define P where "P = (\<lambda>(u0 :: 'a) (cmp0 :: 'a comparator) (pivot0 :: 'a) (a0 :: 'a list)
      (left :: nat) (right0 :: nat) (tr :: 'a event list) (y :: nat \<times> 'a event list).
      u0 = u \<longrightarrow> cmp0 = cmp \<longrightarrow> pivot0 = pivot \<longrightarrow> a0 = a \<longrightarrow> right0 = right \<longrightarrow>
      left < right \<longrightarrow> False)"
  have "P u cmp pivot a left right tr y"
  proof (rule binary_search.raw_induct[where P = P, OF _ Some])
    fix f and u0 :: 'a and cmp0 :: "'a comparator" and pivot0 :: 'a and a0 :: "'a list"
      and left right0 :: nat and tr :: "'a event list" and y :: "nat \<times> 'a event list"
    assume IH: "\<And>u cmp pivot a left right tr y.
        f u cmp pivot a left right tr = Some y \<Longrightarrow> P u cmp pivot a left right tr y"
      and eq: "(if left < right0
         then let mid = ushr1 (left + right0); y = aget u0 a0 mid; comparison = cmp0 pivot0 y;
                  tr1 = tr @ [Compare BinaryInsertion pivot0 y]
              in if comparison < 0 then f u0 cmp0 pivot0 a0 left mid tr1
                 else f u0 cmp0 pivot0 a0 (mid + 1) right0 tr1
         else Some (left, tr)) = Some y"
    show "P u0 cmp0 pivot0 a0 left right0 tr y"
      unfolding P_def
    proof (intro impI)
      assume same: "u0 = u" "cmp0 = cmp" "pivot0 = pivot" "a0 = a" "right0 = right"
        and lr: "left < right"
      define mid where "mid = ushr1 (left + right)"
      have "(left + right) mod 2 ^ 32 < (2 :: nat) ^ 32" by simp
      then have m: "mid < 2 ^ 31" by (simp add: mid_def ushr1_def)
      then have nl: "\<not> cmp pivot (aget u a mid) < 0" using ge by simp
      have call: "f u cmp pivot a (mid + 1) right (tr @ [Compare BinaryInsertion pivot (aget u a mid)]) = Some y"
        using eq lr nl by (simp add: Let_def mid_def same)
      have "mid + 1 < right" using m big by simp
      with IH[OF call] show False by (simp add: P_def)
    qed
  qed
  then show ?thesis using lr by (simp add: P_def)
qed

text \<open>
  An input on which the sort does not return: \<open>N \<ge> 2^31\<close> equal elements, then a
  greater one, then one in between. The first run has \<open>N + 1\<close> elements, and the search
  for the place of the last element never answers ``less'' below \<open>2^31\<close>.
\<close>

lemma timsort_never_returns:
  assumes N: "2 ^ 31 \<le> N" and o: "x < y" "y < z"
  shows "timsort u by_difference (replicate N x @ [z, y]) = None"
proof -
  define xs where "xs = replicate N x @ [z, y]"
  let ?n = "length xs"
  have n: "?n = N + 2" by (simp add: xs_def)
  have big: "(2 :: nat) ^ 31 \<ge> 32" by simp
  have N32: "32 \<le> N" using N big by linarith
  have nth: "xs ! i = (if i < N then x else if i = N then z else y)" if "i < N + 2" for i
  proof -
    have "i < N \<or> i = N \<or> i = N + 1" using that by arith
    then show ?thesis
      by (auto simp: xs_def nth_append)
  qed
  have pos: "0 < ?n" and n2: "2 \<le> ?n" using n by simp_all
  from countRun_cases[OF pos le_refl, of u by_difference "[]"]
  obtain r tr' where c: "1 \<le> r" "0 + r \<le> ?n"
     "countRunAndMakeAscending u by_difference xs 0 ?n [] = (xs, r, tr') \<and>
        (\<forall>i. 0 < i \<and> i < 0 + r \<longrightarrow> 0 \<le> by_difference (xs ! i) (xs ! (i - 1))) \<and>
        (0 + r < ?n \<longrightarrow> by_difference (xs ! (0 + r)) (xs ! (0 + r - 1)) < 0)
      \<or>
      2 \<le> r \<and> (\<forall>i. 0 < i \<and> i < 0 + r \<longrightarrow> by_difference (xs ! i) (xs ! (i - 1)) < 0)"
    by blast
  have nodesc: "\<not> (2 \<le> r \<and> (\<forall>i. 0 < i \<and> i < 0 + r \<longrightarrow> by_difference (xs ! i) (xs ! (i - 1)) < 0))"
  proof
    assume d: "2 \<le> r \<and> (\<forall>i. 0 < i \<and> i < 0 + r \<longrightarrow> by_difference (xs ! i) (xs ! (i - 1)) < 0)"
    then have "0 < (1::nat) \<and> 1 < 0 + r \<longrightarrow> by_difference (xs ! 1) (xs ! (1 - 1)) < 0" by blast
    with d have "by_difference (xs ! 1) (xs ! 0) < 0" by simp
    moreover have "xs ! 1 = x" "xs ! 0 = x" using nth[of 1] nth[of 0] N32 by simp_all
    ultimately show False by (simp add: by_difference_def)
  qed
  with c(3) have asc: "countRunAndMakeAscending u by_difference xs 0 ?n [] = (xs, r, tr')"
    "\<forall>i. 0 < i \<and> i < 0 + r \<longrightarrow> 0 \<le> by_difference (xs ! i) (xs ! (i - 1))"
    "0 + r < ?n \<longrightarrow> by_difference (xs ! (0 + r)) (xs ! (0 + r - 1)) < 0"
    by blast+
  have r: "r = N + 1"
  proof -
    have "\<not> r < N + 1"
    proof
      assume lt: "r < N + 1"
      then have "by_difference (xs ! r) (xs ! (r - 1)) < 0" using asc(3) n by simp
      moreover have "r - 1 < N" using lt c(1) by linarith
      then have "xs ! (r - 1) = x" using nth[of "r - 1"] by simp
      moreover have "xs ! r = x \<or> xs ! r = z" using nth[of r] lt by auto
      ultimately show False using o by (auto simp: by_difference_def)
    qed
    moreover have "r \<noteq> N + 2"
    proof
      assume e: "r = N + 2"
      have "0 < N + 1 \<and> N + 1 < 0 + r" using e by simp
      from asc(2)[rule_format, OF this]
      have "0 \<le> by_difference (xs ! (N + 1)) (xs ! N)" by simp
      moreover have "xs ! (N + 1) = y" "xs ! N = z" using nth[of "N + 1"] nth[of N] by simp_all
      ultimately show False using o by (simp add: by_difference_def)
    qed
    ultimately show ?thesis using c(2) n by simp
  qed
  have st: "N + 1 < ?n" using n by simp
  have p: "aget u xs (N + 1) = y" using nth[of "N + 1"] n by (simp add: aget_def)
  have ge: "\<forall>i. i < 2 ^ 31 \<longrightarrow> \<not> by_difference y (aget u xs i) < 0"
  proof (intro allI impI)
    fix i :: nat assume "i < 2 ^ 31"
    then have i: "i < N" using N by simp
    then have "aget u xs i = x" using nth[of i] n by (simp add: aget_def)
    then show "\<not> by_difference y (aget u xs i) < 0" using o by (simp add: by_difference_def)
  qed
  have "binary_search u by_difference (aget u xs (N + 1)) xs 0 (N + 1) tr' = None"
    unfolding p using _ _ ge by (rule binary_search_never_returns) (use N in simp_all)
  then have "binarySort_loop u by_difference xs 0 ?n (N + 1) tr' = None"
    using st by (intro binarySort_loop_stuck)
  then have "timsort u by_difference xs = None"
    using timsort_stuck(1)[OF n2 asc(1) c(1), of] r n by simp
  then show ?thesis by (simp add: xs_def)
qed

subsection \<open>Traces\<close>

lemma total_order_by_difference: "total_order by_difference"
  by (auto simp: total_order_def by_difference_def)

lemma timsort_trace_shape:
  assumes "2 \<le> length xs" "timsort u cmp xs = Some r"
  shows "\<exists>e. r = Inr e \<and>
           filter stack_event (trace e) = (if length xs < 32 then [] else [PushRun 0 (length xs)]) \<and>
           stack e = (if length xs < 32 then empty_stack else one_run (length xs)) \<and>
           (\<forall>x \<in> set (trace e). \<not> merge_event x) \<and> (\<forall>i. MergeAt i \<notin> set (trace e))"
proof -
  let ?n = "length xs"
  have pos: "0 < ?n" using assms(1) by (cases xs) auto
  from timsort_cases[OF assms(1), of u cmp] assms(2)
  obtain a1 rl tr1 a2 ev where s:
    "countRunAndMakeAscending u cmp xs 0 ?n [] = (a1, rl, tr1)"
    "length a1 = ?n"
    "binarySort_loop u cmp a1 0 ?n rl tr1 = Some (a2, tr1 @ ev)"
    "timsort u cmp xs = Some (Inr \<lparr>global_a = a2,
        stack = (if ?n < 32 then empty_stack else one_run ?n),
        trace = tr1 @ ev @ (if ?n < 32 then [] else [PushRun 0 ?n])\<rparr>)"
    by auto
  from countRun_frame[OF pos le_refl s(1)]
  have tr1: "\<forall>e\<in>set tr1. (\<exists>x y. e = Compare RunDetection x y) \<or> (\<exists>l h. e = Reverse l h)"
    by auto
  have hi: "?n \<le> length a1" using s(2) by simp
  from binarySort_loop_result[OF hi s(3)]
  have ev: "\<forall>e \<in> set ev. \<exists>x y. e = Compare BinaryInsertion x y"
    by auto
  have f1: "filter stack_event tr1 = []" "\<forall>x\<in>set tr1. \<not> merge_event x"
    "\<forall>i. MergeAt i \<notin> set tr1"
    using tr1 by (auto simp: filter_empty_conv)
  have f2: "filter stack_event ev = []" "\<forall>x\<in>set ev. \<not> merge_event x"
    "\<forall>i. MergeAt i \<notin> set ev"
    using ev by (auto simp: filter_empty_conv)
  have r: "r = Inr \<lparr>global_a = a2,
        stack = (if ?n < 32 then empty_stack else one_run ?n),
        trace = tr1 @ ev @ (if ?n < 32 then [] else [PushRun 0 ?n])\<rparr>"
    using assms(2) s(4) by simp
  show ?thesis
    unfolding r using f1 f2 by auto
qed

lemma timsort_none:
  assumes "timsort u cmp xs = None"
  shows "\<exists>a1 r tr1. countRunAndMakeAscending u cmp xs 0 (length xs) [] = (a1, r, tr1) \<and>
           r < minRunLength (length xs) \<and>
           (\<forall>i. MergeAt i \<notin> set tr1) \<and> filter stack_event tr1 = [] \<and>
           binarySort u cmp a1 0 (length xs) r tr1 = None"
proof -
  let ?n = "length xs"
  have n: "2 \<le> ?n"
  proof (rule ccontr)
    assume "\<not> 2 \<le> ?n"
    then have "?n < 2" by simp
    from timsort_short[OF this, of u cmp] assms show False by simp
  qed
  have pos: "0 < ?n" using n by (cases xs) auto
  from timsort_cases[OF n, of u cmp] assms
  obtain a1 rl tr1 where s:
    "countRunAndMakeAscending u cmp xs 0 ?n [] = (a1, rl, tr1)" "rl \<le> ?n"
    "binarySort u cmp a1 0 ?n rl tr1 = None"
    by auto
  from countRun_frame[OF pos le_refl s(1)]
  have tr1: "\<forall>e\<in>set tr1. (\<exists>x y. e = Compare RunDetection x y) \<or> (\<exists>l h. e = Reverse l h)"
    by auto
  have f1: "filter stack_event tr1 = []" "\<forall>i. MergeAt i \<notin> set tr1"
    using tr1 by (auto simp: filter_empty_conv)
  have "rl < minRunLength ?n" using s(2) by (simp add: minRunLength_def)
  then show ?thesis using s(1,3) f1 by simp
qed



section \<open>The claims\<close>

text \<open>
  Claim C1, as it is stated, fails: the sort does not return on every array. The
  midpoint \<open>(left + right) >>> 1\<close> of \<open>binarySort\<close> is taken in 32 bits, which is exact
  only while \<open>left + right < 2^32\<close>. On \<open>2^31\<close> zeros followed by 2 and 1 the first run
  has \<open>2^31 + 1\<close> elements, and the search for the place of the last element never ends.
\<close>

theorem timsort_diverges_on_long_array:
  "total_order by_difference \<and>
   timsort 0 by_difference (replicate (2 ^ 31) 0 @ [2, 1]) = None"
proof
  show "total_order by_difference" by (rule total_order_by_difference)
  show "timsort 0 by_difference (replicate (2 ^ 31) 0 @ [2, 1]) = None"
    by (rule timsort_never_returns) simp_all
qed

text \<open>
  Claim C1, amended. For every comparator that is a consistent total order: on an array
  of at most \<open>2^31\<close> elements \<open>timsort\<close> returns, without an error; and on every array,
  whenever \<open>timsort\<close> returns, no error is thrown and the array it leaves is
  non-decreasing under the comparator and a permutation of the input, of the same length.
\<close>

theorem timsort_sorts_permutes:
  assumes "total_order cmp"
  shows "(length xs \<le> 2 ^ 31 \<longrightarrow> (\<exists>e. timsort u cmp xs = Some (Inr e))) \<and>
         (\<forall>r. timsort u cmp xs = Some r \<longrightarrow>
            (\<exists>e. r = Inr e \<and> nondecreasing cmp (global_a e) \<and>
                 mset (global_a e) = mset xs \<and> length (global_a e) = length xs))"
proof (cases "length xs < 2")
  case True
  then have "length xs \<le> 1" by simp
  then have "nondecreasing cmp xs" unfolding nondecreasing_def by (rule sorted_wrt01)
  then show ?thesis using timsort_short[OF True, of u cmp] by simp
next
  case False
  then have n: "2 \<le> length xs" by simp
  have a: "\<exists>e. timsort u cmp xs = Some (Inr e)" if "length xs \<le> 2 ^ 31"
    using timsort_shape[OF n that, of u cmp] by blast
  have b: "\<exists>e. r = Inr e \<and> nondecreasing cmp (global_a e) \<and>
                 mset (global_a e) = mset xs \<and> length (global_a e) = length xs"
    if "timsort u cmp xs = Some r" for r
  proof -
    from timsort_result[OF assms n that]
    obtain e where e: "r = Inr e" "nondecreasing cmp (global_a e)" "mset (global_a e) = mset xs"
      by blast
    moreover have "length (global_a e) = length xs" using e(3) by (rule mset_eq_length)
    ultimately show ?thesis by blast
  qed
  show ?thesis using a b by blast
qed

theorem timsort_sorts_permutes_witness:
  "total_order (\<lambda>a b :: int. a - b) \<and> length [3, 1, 2 :: int] \<le> 2 ^ 31 \<and>
   (\<exists>e. timsort 0 (\<lambda>a b. a - b) [3, 1, 2 :: int] = Some (Inr e) \<and>
        nondecreasing (\<lambda>a b. a - b) (global_a e) \<and>
        mset (global_a e) = mset [3, 1, 2] \<and>
        length (global_a e) = length [3, 1, 2 :: int])"
proof -
  note t = timsort_sorts_permutes[OF total_order_sub, of "[3, 1, 2]" 0]
  from t obtain e where e: "timsort 0 (\<lambda>a b. a - b) [3, 1, 2 :: int] = Some (Inr e)" by auto
  from t e have "nondecreasing (\<lambda>a b. a - b) (global_a e) \<and>
        mset (global_a e) = mset [3, 1, 2] \<and> length (global_a e) = length [3, 1, 2 :: int]"
    by auto
  then show ?thesis using e total_order_sub by auto
qed

text \<open>
  Claim C2. Stability: under a consistent total order, for every input array, whenever
  \<open>timsort\<close> returns (as it does on every array of at most \<open>2^31\<close> elements), for every
  element \<open>x\<close> the elements that compare equal to \<open>x\<close> occur in the output in their
  input order, whatever path the sort takes (short array, 32 elements and more). The two mechanisms are the lemma \<open>binary_search_place\<close> (the
  pivot goes to the first slot after the elements that are not greater) and the second
  conjunct: a range is reversed only when it was strictly descending in the input.
\<close>

theorem timsort_stable:
  assumes "total_order cmp"
  shows "(length xs \<le> 2 ^ 31 \<longrightarrow> (\<exists>r. timsort u cmp xs = Some r)) \<and>
         (\<forall>r. timsort u cmp xs = Some r \<longrightarrow>
            (\<exists>e. r = Inr e \<and>
                 equals_keep_order cmp xs (global_a e) \<and>
                 (\<forall>l h. Reverse l h \<in> set (trace e) \<longrightarrow>
                    (\<forall>i. l < i \<and> i < h \<longrightarrow> cmp (xs ! i) (xs ! (i - 1)) < 0))))"
proof (cases "length xs < 2")
  case True
  then show ?thesis using timsort_short[OF True, of u cmp]
    by (auto simp: equals_keep_order_refl)
next
  case False
  then have n: "2 \<le> length xs" by simp
  have a: "length xs \<le> 2 ^ 31 \<longrightarrow> (\<exists>r. timsort u cmp xs = Some r)"
    using timsort_shape[OF n, of u cmp] by blast
  have b: "\<forall>r. timsort u cmp xs = Some r \<longrightarrow>
            (\<exists>e. r = Inr e \<and>
                 equals_keep_order cmp xs (global_a e) \<and>
                 (\<forall>l h. Reverse l h \<in> set (trace e) \<longrightarrow>
                    (\<forall>i. l < i \<and> i < h \<longrightarrow> cmp (xs ! i) (xs ! (i - 1)) < 0)))"
    using timsort_result[OF assms n] by blast
  show ?thesis by (intro conjI a b)
qed

theorem timsort_stable_witness:
  "total_order (\<lambda>a b :: int \<times> nat. fst a - fst b) \<and>
   length [(2 :: int, 0), (1, 1), (2, 2), (1, 3 :: nat)] \<le> 2 ^ 31 \<and>
   (\<exists>e. timsort (0, 0) (\<lambda>a b. fst a - fst b) [(2 :: int, 0), (1, 1), (2, 2), (1, 3 :: nat)] = Some (Inr e) \<and>
        equals_keep_order (\<lambda>a b. fst a - fst b) [(2, 0), (1, 1), (2, 2), (1, 3)] (global_a e))"
proof -
  have t: "total_order (\<lambda>a b :: int \<times> nat. fst a - fst b)"
    by (auto simp: total_order_def)
  have n: "length [(2 :: int, 0), (1, 1), (2, 2), (1, 3 :: nat)] \<le> 2 ^ 31" by simp
  note s = timsort_stable[OF t, of "[(2, 0), (1, 1), (2, 2), (1, 3)]" "(0, 0)"]
  from s n obtain r where r: "timsort (0, 0) (\<lambda>a b. fst a - fst b) [(2 :: int, 0), (1, 1), (2, 2), (1, 3 :: nat)] = Some r"
    by blast
  from s r obtain e where e: "r = Inr e"
    "equals_keep_order (\<lambda>a b. fst a - fst b) [(2, 0), (1, 1), (2, 2), (1, 3)] (global_a e)"
    by blast
  have "\<exists>e. timsort (0, 0) (\<lambda>a b. fst a - fst b) [(2 :: int, 0), (1, 1), (2, 2), (1, 3 :: nat)] = Some (Inr e) \<and>
        equals_keep_order (\<lambda>a b. fst a - fst b) [(2, 0), (1, 1), (2, 2), (1, 3)] (global_a e)"
    by (rule exI[of _ e]) (use r e in simp)
  then show ?thesis by (intro conjI t n)
qed

text \<open>
  Claim C8. On an array of length 0 or 1, \<open>timsort\<close> returns at once: the array is
  unchanged and the trace is empty, so the comparator is never called.
\<close>

theorem short_array_untouched:
  assumes "length xs < 2"
  shows "\<exists>e. timsort u cmp xs = Some (Inr e) \<and> global_a e = xs \<and> trace e = [] \<and>
           comparisons (trace e) = []"
  using timsort_short[OF assms] by (simp add: comparisons_def)

theorem short_array_untouched_witness:
  "length [7 :: int] < 2 \<and>
   (\<exists>e. timsort 0 (\<lambda>a b. a - b) [7 :: int] = Some (Inr e) \<and> global_a e = [7] \<and>
        comparisons (trace e) = [])"
proof -
  have h: "length [7 :: int] < 2" by simp
  from short_array_untouched[OF h, of 0 "\<lambda>a b. a - b"] h show ?thesis by blast
qed

text \<open>
  Claim C6. On \<open>[5,4,3,2,1]\<close> with the numeric ascending comparator, run detection
  finds one descending run of length 5 with four comparator calls on adjacent pairs and
  reverses it once; the binary insertion sort that follows starts at the end of the range
  and calls the comparator zero times; the result is \<open>[1,2,3,4,5]\<close>.
\<close>

theorem descending_five:
  "countRunAndMakeAscending u (\<lambda>a b. a - b) [5, 4, 3, 2, 1 :: int] 0 5 [] =
     ([1, 2, 3, 4, 5], 5,
      [Compare RunDetection 4 5, Compare RunDetection 3 4, Compare RunDetection 2 3,
       Compare RunDetection 1 2, Reverse 0 5]) \<and>
   timsort u (\<lambda>a b. a - b) [5, 4, 3, 2, 1 :: int] =
     Some (Inr \<lparr>global_a = [1, 2, 3, 4, 5], stack = empty_stack,
       trace = [Compare RunDetection 4 5, Compare RunDetection 3 4, Compare RunDetection 2 3,
                Compare RunDetection 1 2, Reverse 0 5]\<rparr>) \<and>
   comparisons [Compare RunDetection 4 5, Compare RunDetection 3 4, Compare RunDetection 2 3,
                Compare RunDetection 1 2, Reverse 0 5 :: int event] =
     [(4, 5), (3, 4), (2, 3), (1, 2)]"
  by code_simp

text \<open>
  Claim C3, as it is stated, fails: on \<open>2^31\<close> ones followed by 3 and 2, an input of
  more than 32 elements, the call of \<open>binarySort\<close> that extends the first run never
  returns, so no run is ever pushed.
\<close>

theorem run_extension_never_returns:
  "length (replicate (2 ^ 31) (1 :: int) @ [3, 2]) = 2 ^ 31 + 2 \<and>
   timsort 0 by_difference (replicate (2 ^ 31) 1 @ [3, 2]) = None"
proof
  show "length (replicate (2 ^ 31) (1 :: int) @ [3, 2]) = 2 ^ 31 + 2"
    by simp
  show "timsort 0 by_difference (replicate (2 ^ 31) 1 @ [3, 2]) = None"
    by (rule timsort_never_returns) simp_all
qed

text \<open>
  Claim C3, amended. \<open>minRunLength n\<close> is \<open>n + 1\<close> for every \<open>n\<close>. Hence on an input of 32
  elements or more (any comparator) the first loop iteration calls \<open>binarySort\<close> to
  extend the first run over the whole range. On an input of at most \<open>2^31\<close> elements
  the sort returns. Whenever it returns, the only stack event of the trace is one push of
  the run \<open>(0, length)\<close>, the stack ends with that single run, and no \<open>mergeAt\<close> is
  launched and no comparator call is issued by the gallop or merge functions. When it
  does not return, it is that first call of \<open>binarySort\<close> that does not return, and no
  run has been pushed.
\<close>

theorem single_run_no_merge:
  assumes "32 \<le> length xs"
  shows "(\<forall>n. minRunLength n = n + 1) \<and>
         (length xs \<le> 2 ^ 31 \<longrightarrow> (\<exists>e. timsort u cmp xs = Some (Inr e))) \<and>
         (\<forall>r. timsort u cmp xs = Some r \<longrightarrow>
            (\<exists>e. r = Inr e \<and>
                 filter stack_event (trace e) = [PushRun 0 (length xs)] \<and>
                 stack e = one_run (length xs) \<and>
                 (\<forall>x \<in> set (trace e). \<not> merge_event x))) \<and>
         (timsort u cmp xs = None \<longrightarrow>
            (\<exists>a1 r tr1. countRunAndMakeAscending u cmp xs 0 (length xs) [] = (a1, r, tr1) \<and>
                 r < minRunLength (length xs) \<and> filter stack_event tr1 = [] \<and>
                 binarySort u cmp a1 0 (length xs) r tr1 = None))"
proof -
  have n2: "2 \<le> length xs" using assms by simp
  have a: "\<forall>n. minRunLength n = n + 1" by (simp add: minRunLength_def)
  have b: "length xs \<le> 2 ^ 31 \<longrightarrow> (\<exists>e. timsort u cmp xs = Some (Inr e))"
    using timsort_shape[OF n2, of u cmp] by blast
  have c: "\<exists>e. r = Inr e \<and>
                 filter stack_event (trace e) = [PushRun 0 (length xs)] \<and>
                 stack e = one_run (length xs) \<and>
                 (\<forall>x \<in> set (trace e). \<not> merge_event x)"
    if "timsort u cmp xs = Some r" for r
    using timsort_trace_shape[OF n2 that] assms by auto
  have d: "timsort u cmp xs = None \<longrightarrow>
            (\<exists>a1 r tr1. countRunAndMakeAscending u cmp xs 0 (length xs) [] = (a1, r, tr1) \<and>
                 r < minRunLength (length xs) \<and> filter stack_event tr1 = [] \<and>
                 binarySort u cmp a1 0 (length xs) r tr1 = None)"
    using timsort_none[of u cmp xs] by blast
  have c': "\<forall>r. timsort u cmp xs = Some r \<longrightarrow>
            (\<exists>e. r = Inr e \<and>
                 filter stack_event (trace e) = [PushRun 0 (length xs)] \<and>
                 stack e = one_run (length xs) \<and>
                 (\<forall>x \<in> set (trace e). \<not> merge_event x))"
    using c by blast
  show ?thesis by (intro conjI a b c' d)
qed

theorem single_run_no_merge_witness:
  "32 \<le> length (replicate 40 (0 :: int)) \<and> length (replicate 40 (0 :: int)) \<le> 2 ^ 31 \<and>
   (\<exists>e. timsort 0 (\<lambda>a b. a - b) (replicate 40 (0 :: int)) = Some (Inr e) \<and>
        filter stack_event (trace e) = [PushRun 0 40] \<and>
        stack e = one_run 40 \<and>
        (\<forall>x \<in> set (trace e). \<not> merge_event x))"
proof -
  have l: "32 \<le> length (replicate 40 (0 :: int))" by simp
  note t = single_run_no_merge[OF l, of 0 "\<lambda>a b. a - b"]
  from t obtain e where e: "timsort 0 (\<lambda>a b. a - b) (replicate 40 (0 :: int)) = Some (Inr e)"
    by auto
  from t e have "filter stack_event (trace e) = [PushRun 0 40] \<and>
        stack e = one_run 40 \<and> (\<forall>x \<in> set (trace e). \<not> merge_event x)"
    by auto
  then have "\<exists>e. timsort 0 (\<lambda>a b. a - b) (replicate 40 (0 :: int)) = Some (Inr e) \<and>
        filter stack_event (trace e) = [PushRun 0 40] \<and>
        stack e = one_run 40 \<and>
        (\<forall>x \<in> set (trace e). \<not> merge_event x)"
    using e by (intro exI[of _ e]) simp
  then show ?thesis by simp
qed

text \<open>
  Claim C5. On a non-decreasing array of \<open>n \<ge> 2\<close> elements, \<open>timsort\<close> makes one
  run-detection pass: the trace is the \<open>n - 1\<close> comparator calls of that pass (followed
  by the push of the single run when \<open>n \<ge> 32\<close>), no merge event and no binary-insertion
  comparison occurs, and the array is unchanged. Sorting the output again gives the same
  result with the same trace.
\<close>

theorem sorted_input_one_pass:
  assumes "total_order cmp" "2 \<le> length xs" "nondecreasing cmp xs"
  shows "\<exists>e. timsort u cmp xs = Some (Inr e) \<and> global_a e = xs \<and>
           trace e = run_detection_pass xs @ (if length xs < 32 then [] else [PushRun 0 (length xs)]) \<and>
           length (comparisons (trace e)) = length xs - 1 \<and>
           (\<forall>x \<in> set (trace e). \<not> merge_event x) \<and>
           timsort u cmp (global_a e) = Some (Inr e)"
proof -
  have "\<forall>x \<in> set (run_detection_pass xs). \<not> merge_event x"
    by (auto simp: run_detection_pass_def)
  then show ?thesis
    using timsort_of_sorted[OF assms, of u]
      length_comparisons_run_detection_pass[of xs "[]"]
      length_comparisons_run_detection_pass[of xs "[PushRun 0 (length xs)]"]
    by (auto simp: comparisons_def)
qed

theorem sorted_input_one_pass_witness:
  "total_order (\<lambda>a b :: int. a - b) \<and> 2 \<le> length [1, 2, 2, 5 :: int] \<and>
   nondecreasing (\<lambda>a b. a - b) [1, 2, 2, 5 :: int] \<and>
   (\<exists>e. timsort 0 (\<lambda>a b. a - b) [1, 2, 2, 5 :: int] = Some (Inr e) \<and> global_a e = [1, 2, 2, 5] \<and>
        length (comparisons (trace e)) = 3)"
proof -
  have s: "nondecreasing (\<lambda>a b. a - b) [1, 2, 2, 5 :: int]"
    by (simp add: nondecreasing_def)
  show ?thesis
    using sorted_input_one_pass[OF total_order_sub _ s, of 0] total_order_sub s by auto
qed

text \<open>
  Claim C4. Every comparator call of the sort path is awaited, so in the model it is
  one event of a sequence; the only calls made without \<open>await\<close> are the launches of
  \<open>mergeAt\<close>, recorded as \<open>MergeAt\<close> events. For every input and every comparator: when
  the sort returns, no \<open>MergeAt\<close> occurs in its trace; when it does not return, it is
  inside the call of \<open>binarySort\<close> that follows the run detection, before any call site
  of \<open>mergeAt\<close>; so no comparator call is issued while another is pending. What the
  sort does, with its whole trace of compared pairs, is the same for any two executions
  whose comparators give the same answers on the elements of the input.
\<close>

theorem comparator_calls_sequential:
  "(\<forall>cmp'. (\<forall>x\<in>set xs. \<forall>y\<in>set xs. cmp' x y = cmp x y) \<longrightarrow>
       timsort u cmp' xs = timsort u cmp xs) \<and>
   (\<forall>r. timsort u cmp xs = Some r \<longrightarrow>
       (\<exists>e. r = Inr e \<and> (\<forall>i. MergeAt i \<notin> set (trace e)))) \<and>
   (timsort u cmp xs = None \<longrightarrow>
       (\<exists>a1 r tr1. countRunAndMakeAscending u cmp xs 0 (length xs) [] = (a1, r, tr1) \<and>
            (\<forall>i. MergeAt i \<notin> set tr1) \<and>
            binarySort u cmp a1 0 (length xs) r tr1 = None))"
proof -
  have a: "\<forall>cmp'. (\<forall>x\<in>set xs. \<forall>y\<in>set xs. cmp' x y = cmp x y) \<longrightarrow>
       timsort u cmp' xs = timsort u cmp xs"
    using timsort_same[of xs _ cmp u] by blast
  have b: "\<exists>e. r = Inr e \<and> (\<forall>i. MergeAt i \<notin> set (trace e))"
    if r: "timsort u cmp xs = Some r" for r
  proof (cases "length xs < 2")
    case True
    then show ?thesis using timsort_short[OF True, of u cmp] r by auto
  next
    case False
    then have "2 \<le> length xs" by simp
    from timsort_trace_shape[OF this r] show ?thesis by blast
  qed
  have b': "\<forall>r. timsort u cmp xs = Some r \<longrightarrow>
       (\<exists>e. r = Inr e \<and> (\<forall>i. MergeAt i \<notin> set (trace e)))"
    using b by blast
  have c: "timsort u cmp xs = None \<longrightarrow>
       (\<exists>a1 r tr1. countRunAndMakeAscending u cmp xs 0 (length xs) [] = (a1, r, tr1) \<and>
            (\<forall>i. MergeAt i \<notin> set tr1) \<and>
            binarySort u cmp a1 0 (length xs) r tr1 = None)"
    using timsort_none[of u cmp xs] by blast
  show ?thesis by (intro conjI a b' c)
qed

theorem comparator_calls_sequential_witness:
  "(\<exists>e. timsort 0 (\<lambda>a b. a - b) [2, 1, 3 :: int] = Some (Inr e) \<and>
        (\<forall>i. MergeAt i \<notin> set (trace e)) \<and>
        (\<forall>cmp'. (\<forall>x\<in>set [2, 1, 3]. \<forall>y\<in>set [2, 1, 3]. cmp' x y = x - y) \<longrightarrow>
            timsort 0 cmp' [2, 1, 3] = Some (Inr e)))"
proof -
  have n: "2 \<le> length [2, 1, 3 :: int]" "length [2, 1, 3 :: int] \<le> 2 ^ 31" by simp_all
  from timsort_shape[OF n, of 0 "\<lambda>a b. a - b"]
  obtain e where e: "timsort 0 (\<lambda>a b. a - b) [2, 1, 3 :: int] = Some (Inr e)" by blast
  note t = comparator_calls_sequential[of "[2, 1, 3 :: int]" "\<lambda>a b. a - b" 0]
  from t e have m: "\<forall>i. MergeAt i \<notin> set (trace e)" by auto
  from t e have d: "\<forall>cmp'. (\<forall>x\<in>set [2, 1, 3]. \<forall>y\<in>set [2, 1, 3]. cmp' x y = x - y) \<longrightarrow>
            timsort 0 cmp' [2, 1, 3] = Some (Inr e)"
    by simp
  show ?thesis by (rule exI[of _ e]) (intro conjI e m d)
qed

text \<open>
  Claim C7. On a range \<open>[base, base + len)\<close> of the array that is non-decreasing under a
  consistent total order, with \<open>0 \<le> hint < len\<close>, \<open>gallopLeft\<close> returns the \<open>k\<close> in
  \<open>[0, len]\<close> such that the key is strictly greater than the first \<open>k\<close> elements and not
  greater than the others (the leftmost insertion point, before all equals), and
  \<open>gallopRight\<close> the \<open>k\<close> such that the key is not less than the first \<open>k\<close> elements
  and strictly less than the others (after all equals). Each \<open>k\<close> is therefore the
  smallest offset whose element is not less than (respectively greater than) the key,
  or \<open>len\<close> when there is none. The 32-bit overflow guard of the gallop loop is part of
  the model; no bound on the length is needed.
\<close>

theorem gallop_insertion_points:
  assumes "total_order cmp"
    and "0 \<le> base" "0 < len" "base + len \<le> int (length a)" "0 \<le> hint" "hint < len"
    and "nondecreasing cmp (slice a (nat base) (nat (base + len)))"
  shows "(\<exists>k ev. gallopLeft u cmp key a base len hint tr = (k, tr @ ev) \<and> 0 \<le> k \<and> k \<le> len \<and>
            (\<forall>j. 0 \<le> j \<and> j < k \<longrightarrow> 0 < cmp key (a ! nat (base + j))) \<and>
            (\<forall>j. k \<le> j \<and> j < len \<longrightarrow> cmp key (a ! nat (base + j)) \<le> 0)) \<and>
         (\<exists>k ev. gallopRight u cmp key a base len hint tr = (k, tr @ ev) \<and> 0 \<le> k \<and> k \<le> len \<and>
            (\<forall>j. 0 \<le> j \<and> j < k \<longrightarrow> 0 \<le> cmp key (a ! nat (base + j))) \<and>
            (\<forall>j. k \<le> j \<and> j < len \<longrightarrow> cmp key (a ! nat (base + j)) < 0))"
proof
  show "\<exists>k ev. gallopLeft u cmp key a base len hint tr = (k, tr @ ev) \<and> 0 \<le> k \<and> k \<le> len \<and>
            (\<forall>j. 0 \<le> j \<and> j < k \<longrightarrow> 0 < cmp key (a ! nat (base + j))) \<and>
            (\<forall>j. k \<le> j \<and> j < len \<longrightarrow> cmp key (a ! nat (base + j)) \<le> 0)"
    using gallopLeft_spec[OF assms(1,2,4,5,6,7), of u key tr] by blast
  show "\<exists>k ev. gallopRight u cmp key a base len hint tr = (k, tr @ ev) \<and> 0 \<le> k \<and> k \<le> len \<and>
            (\<forall>j. 0 \<le> j \<and> j < k \<longrightarrow> 0 \<le> cmp key (a ! nat (base + j))) \<and>
            (\<forall>j. k \<le> j \<and> j < len \<longrightarrow> cmp key (a ! nat (base + j)) < 0)"
    using gallopRight_spec[OF assms(1,2,4,5,6,7), of u key tr] by blast
qed

theorem gallop_insertion_points_witness:
  "total_order (\<lambda>a b :: int. a - b) \<and> (0 :: int) \<le> 0 \<and> (0 :: int) < 5 \<and>
   0 + 5 \<le> int (length [1, 3, 3, 5, 7 :: int]) \<and> (0 :: int) \<le> 2 \<and> (2 :: int) < 5 \<and>
   nondecreasing (\<lambda>a b. a - b) (slice [1, 3, 3, 5, 7 :: int] (nat 0) (nat (0 + 5))) \<and>
   (\<exists>k ev. gallopLeft 0 (\<lambda>a b. a - b) 3 [1, 3, 3, 5, 7 :: int] 0 5 2 [] = (k, [] @ ev) \<and>
        (\<forall>j. 0 \<le> j \<and> j < k \<longrightarrow> 0 < 3 - [1, 3, 3, 5, 7 :: int] ! nat (0 + j)) \<and>
        (\<forall>j. k \<le> j \<and> j < 5 \<longrightarrow> 3 - [1, 3, 3, 5, 7 :: int] ! nat (0 + j) \<le> 0)) \<and>
   fst (gallopLeft 0 (\<lambda>a b. a - b) 3 [1, 3, 3, 5, 7 :: int] 0 5 2 []) = 1 \<and>
   fst (gallopRight 0 (\<lambda>a b. a - b) 3 [1, 3, 3, 5, 7 :: int] 0 5 2 []) = 3"
proof -
  have s: "nondecreasing (\<lambda>a b. a - b) (slice [1, 3, 3, 5, 7 :: int] (nat 0) (nat (0 + 5)))"
    by (simp add: nondecreasing_def slice_def)
  have l: "fst (gallopLeft 0 (\<lambda>a b. a - b) 3 [1, 3, 3, 5, 7 :: int] 0 5 2 []) = 1"
    by code_simp
  have r: "fst (gallopRight 0 (\<lambda>a b. a - b) 3 [1, 3, 3, 5, 7 :: int] 0 5 2 []) = 3"
    by code_simp
  from gallop_insertion_points[OF total_order_sub _ _ _ _ _ s, of 2 0 3 "[]"]
  have "\<exists>k ev. gallopLeft 0 (\<lambda>a b. a - b) 3 [1, 3, 3, 5, 7 :: int] 0 5 2 [] = (k, [] @ ev) \<and>
        (\<forall>j. 0 \<le> j \<and> j < k \<longrightarrow> 0 < 3 - [1, 3, 3, 5, 7 :: int] ! nat (0 + j)) \<and>
        (\<forall>j. k \<le> j \<and> j < 5 \<longrightarrow> 3 - [1, 3, 3, 5, 7 :: int] ! nat (0 + j) \<le> 0)"
    by simp blast
  then show ?thesis using total_order_sub s l r by simp
qed

text \<open>
  Claim C9, as it is stated, fails: a consistent total order does not keep \<open>mergeLo\<close>
  from the error. Called on the runs \<open>[1..9]\<close> and \<open>[10, 11]\<close>, which do not meet its
  precondition, it leaves its loop with \<open>len1 = 0\<close> and throws.
\<close>

theorem merge_error_under_total_order:
  "total_order by_difference \<and>
   mergeLo 0 by_difference [1, 2, 3, 4, 5, 6, 7, 8, 9, 10, 11] 0 9 9 2 [] =
     Some (Inl ComparatorContractViolation)"
proof
  show "total_order by_difference" by (rule total_order_by_difference)
  show "mergeLo 0 by_difference [1, 2, 3, 4, 5, 6, 7, 8, 9, 10, 11] 0 9 9 2 [] =
     Some (Inl ComparatorContractViolation)"
    by code_simp
qed

text \<open>
  Claim C9, amended. Let \<open>mergeLo\<close> or \<open>mergeHi\<close> be called on two adjacent, non-empty runs inside
  the array. \<open>mergeLo\<close> ends with the comparator-contract-violation error exactly when its
  loop \<open>outer\<close> is entered (neither run has length 1) and is left with \<open>len1 = 0\<close>;
  \<open>mergeHi\<close> exactly when its loop is entered and left with \<open>len2 = 0\<close>. When the
  comparator is a total order and the runs are as the source requires (sorted, the first
  element of run 1 greater than the first of run 2, the last element of run 1 greater than
  all of run 2), neither function ends with the error. For every comparator both functions
  return, and when the result is not the error the merged range holds exactly the elements
  of the two runs, the array being unchanged outside the range.
\<close>

theorem merge_error_iff_run_exhausted:
  assumes "0 \<le> base1" "0 < l1" "0 < l2" "base2 = base1 + l1" "base2 + l2 \<le> int (length a)"
  shows "(mergeLo u cmp a base1 l1 base2 l2 tr = Some (Inl e) \<longleftrightarrow>
            e = ComparatorContractViolation \<and> l1 \<noteq> 1 \<and> l2 \<noteq> 1 \<and>
            (\<exists>s. mergeLo_outer u cmp (slice a (nat base1) (nat base2))
                    (mergeLo_init u a base1 l1 base2 l2 tr) = Some s \<and> len1 s = 0)) \<and>
         (mergeHi u cmp a base1 l1 base2 l2 tr = Some (Inl e) \<longleftrightarrow>
            e = ComparatorContractViolation \<and> l1 \<noteq> 1 \<and> l2 \<noteq> 1 \<and>
            (\<exists>s. mergeHi_outer u cmp (slice a (nat base2) (nat (base2 + l2))) base1
                    (mergeHi_init u a base1 l1 base2 l2 tr) = Some s \<and> len2 s = 0)) \<and>
         (merge_pre cmp a base1 l1 base2 l2 \<longrightarrow>
            (\<exists>a' tr'. mergeLo u cmp a base1 l1 base2 l2 tr = Some (Inr (a', tr'))) \<and>
            (\<exists>a' tr'. mergeHi u cmp a base1 l1 base2 l2 tr = Some (Inr (a', tr')))) \<and>
         (\<exists>r. mergeLo u cmp a base1 l1 base2 l2 tr = Some r \<and>
            (\<forall>a' tr'. r = Inr (a', tr') \<longrightarrow> merged_range a (nat base1) (nat (base2 + l2)) a')) \<and>
         (\<exists>r. mergeHi u cmp a base1 l1 base2 l2 tr = Some r \<and>
            (\<forall>a' tr'. r = Inr (a', tr') \<longrightarrow> merged_range a (nat base1) (nat (base2 + l2)) a'))"
proof -
  from mergeLo_settled[OF assms, of u cmp tr]
  obtain r1 where r1: "mergeLo u cmp a base1 l1 base2 l2 tr = Some r1"
    "\<forall>a' tr'. r1 = Inr (a', tr') \<longrightarrow> merged_range a (nat base1) (nat (base2 + l2)) a'"
    "merge_pre cmp a base1 l1 base2 l2 \<longrightarrow> (\<exists>a' tr'. r1 = Inr (a', tr'))"
    "\<forall>e. r1 = Inl e \<longleftrightarrow>
              e = ComparatorContractViolation \<and> l1 \<noteq> 1 \<and> l2 \<noteq> 1 \<and>
              (\<exists>s. mergeLo_outer u cmp (slice a (nat base1) (nat base2))
                      (mergeLo_init u a base1 l1 base2 l2 tr) = Some s \<and> len1 s = 0)"
    by (elim exE conjE) (rule that; assumption)
  from mergeHi_settled[OF assms, of u cmp tr]
  obtain r2 where r2: "mergeHi u cmp a base1 l1 base2 l2 tr = Some r2"
    "\<forall>a' tr'. r2 = Inr (a', tr') \<longrightarrow> merged_range a (nat base1) (nat (base2 + l2)) a'"
    "merge_pre cmp a base1 l1 base2 l2 \<longrightarrow> (\<exists>a' tr'. r2 = Inr (a', tr'))"
    "\<forall>e. r2 = Inl e \<longleftrightarrow>
              e = ComparatorContractViolation \<and> l1 \<noteq> 1 \<and> l2 \<noteq> 1 \<and>
              (\<exists>s. mergeHi_outer u cmp (slice a (nat base2) (nat (base2 + l2))) base1
                      (mergeHi_init u a base1 l1 base2 l2 tr) = Some s \<and> len2 s = 0)"
    by (elim exE conjE) (rule that; assumption)
  have a: "mergeLo u cmp a base1 l1 base2 l2 tr = Some (Inl e) \<longleftrightarrow> r1 = Inl e"
    using r1(1) by simp
  have b: "mergeHi u cmp a base1 l1 base2 l2 tr = Some (Inl e) \<longleftrightarrow> r2 = Inl e"
    using r2(1) by simp
  have c: "merge_pre cmp a base1 l1 base2 l2 \<longrightarrow>
            (\<exists>a' tr'. mergeLo u cmp a base1 l1 base2 l2 tr = Some (Inr (a', tr'))) \<and>
            (\<exists>a' tr'. mergeHi u cmp a base1 l1 base2 l2 tr = Some (Inr (a', tr')))"
    using r1(1,3) r2(1,3) by simp
  have d1: "\<exists>r. mergeLo u cmp a base1 l1 base2 l2 tr = Some r \<and>
            (\<forall>a' tr'. r = Inr (a', tr') \<longrightarrow> merged_range a (nat base1) (nat (base2 + l2)) a')"
    by (rule exI[of _ r1]) (intro conjI r1(1) r1(2))
  have d2: "\<exists>r. mergeHi u cmp a base1 l1 base2 l2 tr = Some r \<and>
            (\<forall>a' tr'. r = Inr (a', tr') \<longrightarrow> merged_range a (nat base1) (nat (base2 + l2)) a')"
    by (rule exI[of _ r2]) (intro conjI r2(1) r2(2))
  show ?thesis
    unfolding a b by (intro conjI r1(4)[rule_format] r2(4)[rule_format] c d1 d2)
qed

theorem merge_error_iff_run_exhausted_witness:
  "(0 :: int) \<le> 0 \<and> (0 :: int) < 3 \<and> (3 :: int) = 0 + 3 \<and>
   (3 :: int) + 3 \<le> int (length [2, 3, 9, 1, 5, 6 :: int]) \<and>
   merge_pre (\<lambda>a b. a - b) [2, 3, 9, 1, 5, 6 :: int] 0 3 3 3 \<and>
   (\<exists>a' tr'. mergeLo 0 (\<lambda>a b. a - b) [2, 3, 9, 1, 5, 6 :: int] 0 3 3 3 [] = Some (Inr (a', tr'))) \<and>
   (\<exists>a' tr'. mergeHi 0 (\<lambda>a b. a - b) [2, 3, 9, 1, 5, 6 :: int] 0 3 3 3 [] = Some (Inr (a', tr'))) \<and>
   map_option (map_sum id fst) (mergeLo 0 (\<lambda>a b. a - b) [2, 3, 9, 1, 5, 6 :: int] 0 3 3 3 [])
     = Some (Inr [1, 2, 3, 5, 6, 9]) \<and>
   map_option (map_sum id fst) (mergeHi 0 (\<lambda>a b. a - b) [2, 3, 9, 1, 5, 6 :: int] 0 3 3 3 [])
     = Some (Inr [1, 2, 3, 5, 6, 9]) \<and>
   map_option (map_sum id fst)
     (mergeLo 0 (\<lambda>a b. a - b) [1, 2, 3, 4, 5, 6, 7, 8, 9, 10, 11 :: int] 0 9 9 2 [])
     = Some (Inl ComparatorContractViolation) \<and>
   (\<exists>s. mergeLo_outer 0 (\<lambda>a b. a - b) (slice [1, 2, 3, 4, 5, 6, 7, 8, 9, 10, 11 :: int] (nat 0) (nat 9))
          (mergeLo_init 0 [1, 2, 3, 4, 5, 6, 7, 8, 9, 10, 11 :: int] 0 9 9 2 []) = Some s \<and>
        len1 s = 0)"
proof -
  have pre: "merge_pre (\<lambda>a b. a - b) [2, 3, 9, 1, 5, 6 :: int] 0 3 3 3"
    by (simp add: merge_pre_def total_order_sub nondecreasing_def slice_def)
  have lo: "map_option (map_sum id fst) (mergeLo 0 (\<lambda>a b. a - b) [2, 3, 9, 1, 5, 6 :: int] 0 3 3 3 [])
     = Some (Inr [1, 2, 3, 5, 6, 9])"
    by code_simp
  have hi: "map_option (map_sum id fst) (mergeHi 0 (\<lambda>a b. a - b) [2, 3, 9, 1, 5, 6 :: int] 0 3 3 3 [])
     = Some (Inr [1, 2, 3, 5, 6, 9])"
    by code_simp
  have er: "map_option (map_sum id fst)
     (mergeLo 0 (\<lambda>a b. a - b) [1, 2, 3, 4, 5, 6, 7, 8, 9, 10, 11 :: int] 0 9 9 2 [])
     = Some (Inl ComparatorContractViolation)"
    by code_simp
  then have er': "mergeLo 0 (\<lambda>a b. a - b) [1, 2, 3, 4, 5, 6, 7, 8, 9, 10, 11 :: int] 0 9 9 2 []
     = Some (Inl ComparatorContractViolation)"
    by (auto simp: map_option_case map_sum_def split: option.splits sum.splits)
  have ex: "(\<exists>a' tr'. mergeLo 0 (\<lambda>a b. a - b) [2, 3, 9, 1, 5, 6 :: int] 0 3 3 3 [] = Some (Inr (a', tr'))) \<and>
   (\<exists>a' tr'. mergeHi 0 (\<lambda>a b. a - b) [2, 3, 9, 1, 5, 6 :: int] 0 3 3 3 [] = Some (Inr (a', tr')))"
    using merge_error_iff_run_exhausted[of 0 3 3 3 "[2, 3, 9, 1, 5, 6 :: int]" 0 "\<lambda>a b. a - b" "[]"
        ComparatorContractViolation] pre
    by simp
  have ou: "\<exists>s. mergeLo_outer 0 (\<lambda>a b. a - b) (slice [1, 2, 3, 4, 5, 6, 7, 8, 9, 10, 11 :: int] (nat 0) (nat 9))
          (mergeLo_init 0 [1, 2, 3, 4, 5, 6, 7, 8, 9, 10, 11 :: int] 0 9 9 2 []) = Some s \<and>
        len1 s = 0"
    using merge_error_iff_run_exhausted[of 0 9 2 9 "[1, 2, 3, 4, 5, 6, 7, 8, 9, 10, 11 :: int]" 0
        "\<lambda>a b. a - b" "[]" ComparatorContractViolation] er'
    by simp
  show ?thesis using pre lo hi er ex ou by simp
qed




end
